(* ===== verification/Prelude.thy ===== *)
theory Prelude
  imports Main "HOL-Library.Word" "HOL-Library.Multiset"
begin

unbundle bit_operations_syntax

text \<open>
  Shared vocabulary of the development: the machine types of the 32-bit kernel, the ways a
  kernel routine can stop other than by returning, and the two shapes of a fallible routine.
  \<^item> \<open>'a res\<close> is the result of a routine that changes no state the model keeps: \<open>Inl\<close> a
    fault or \<open>Inr\<close> a value.
  \<^item> \<open>('s, 'a) op\<close> is a routine over a state: it returns a fault or a value, and in both
    cases the state at that moment, so that what was written before a failed assertion or a
    process exit is still visible.
  The collections \<open>op_simps\<close> and \<open>word_simps\<close> gather the rewrite rules the component
  theories share.
\<close>

named_theorems op_simps \<open>unfolding rules of the result and state-operation combinators\<close>
named_theorems word_simps \<open>address and machine-word arithmetic\<close>

type_synonym u8 = "8 word"
type_synonym u16 = "16 word"
type_synonym u32 = "32 word"
type_synonym u64 = "64 word"

text \<open>
  The ways out of a kernel routine: a failed \<open>ASSERT\<close>, a \<open>PANIC\<close>, a dereference of the null
  pointer, an access outside an array, the CPU's divide error, a thread that goes to sleep on
  a semaphore whose value is zero, the end of the calling process with its status, and the
  machine switched off. \<open>OutOfFuel\<close> is not a behaviour of the code: a loop over a linked
  structure takes a bound on its iterations, and reports that the bound was reached; lemmas
  state which bound is enough.
\<close>

datatype fault =
    Assertion
  | Panic
  | NullDeref
  | OutOfBounds
  | DivideError
  | Blocked
  | Exited int
  | PowerOff
  | OutOfFuel

type_synonym 'a res = "fault + 'a"
type_synonym ('s, 'a) op = "'s \<Rightarrow> 'a res \<times> 's"

subsection \<open>Results\<close>

definition rbind :: "'a res \<Rightarrow> ('a \<Rightarrow> 'b res) \<Rightarrow> 'b res" where
  "rbind r f = (case r of Inl e \<Rightarrow> Inl e | Inr x \<Rightarrow> f x)"

definition rassert :: "bool \<Rightarrow> 'a res \<Rightarrow> 'a res" where
  "rassert P r = (if P then r else Inl Assertion)"

lemma rbind_simps [simp, op_simps]:
  "rbind (Inl e) f = Inl e"
  "rbind (Inr x) f = f x"
  by (simp_all add: rbind_def)

lemma rbind_Inr_iff: "rbind r f = Inr y \<longleftrightarrow> (\<exists>x. r = Inr x \<and> f x = Inr y)"
  by (cases r) auto

lemma rassert_simps [simp, op_simps]:
  "P \<Longrightarrow> rassert P r = r"
  "\<not> P \<Longrightarrow> rassert P r = Inl Assertion"
  by (simp_all add: rassert_def)

lemma rassert_Inr_iff [simp]: "rassert P r = Inr x \<longleftrightarrow> P \<and> r = Inr x"
  by (simp add: rassert_def)

subsection \<open>Operations on a state\<close>

definition ret :: "'a \<Rightarrow> ('s, 'a) op" where
  "ret x = (\<lambda>s. (Inr x, s))"

definition fail :: "fault \<Rightarrow> ('s, 'a) op" where
  "fail e = (\<lambda>s. (Inl e, s))"

definition bnd :: "('s, 'a) op \<Rightarrow> ('a \<Rightarrow> ('s, 'b) op) \<Rightarrow> ('s, 'b) op" where
  "bnd m f = (\<lambda>s. case m s of (Inl e, t) \<Rightarrow> (Inl e, t) | (Inr x, t) \<Rightarrow> f x t)"

definition gets :: "('s \<Rightarrow> 'a) \<Rightarrow> ('s, 'a) op" where
  "gets f = (\<lambda>s. (Inr (f s), s))"

definition modify :: "('s \<Rightarrow> 's) \<Rightarrow> ('s, unit) op" where
  "modify f = (\<lambda>s. (Inr (), f s))"

definition ensure :: "bool \<Rightarrow> ('s, unit) op" where
  "ensure P = (if P then ret () else fail Assertion)"

definition lift_res :: "'a res \<Rightarrow> ('s, 'a) op" where
  "lift_res r = (\<lambda>s. (r, s))"

text \<open>The loop \<open>for (i = a; i < a + n; i++) body\<close>, stopping at the first fault.\<close>

fun for_op :: "nat \<Rightarrow> nat \<Rightarrow> (nat \<Rightarrow> ('s, unit) op) \<Rightarrow> ('s, unit) op" where
  "for_op a 0 body = ret ()"
| "for_op a (Suc n) body = bnd (body a) (\<lambda>_. for_op (Suc a) n body)"

lemma op_apply [simp, op_simps]:
  "ret x s = (Inr x, s)"
  "fail e s = (Inl e, s)"
  "gets f s = (Inr (f s), s)"
  "modify g s = (Inr (), g s)"
  "lift_res r s = (r, s)"
  by (simp_all add: ret_def fail_def gets_def modify_def lift_res_def)

lemma ensure_apply [simp, op_simps]:
  "ensure P s = ((if P then Inr () else Inl Assertion), s)"
  by (simp add: ensure_def)

lemma bnd_apply [op_simps]:
  "bnd m f s = (case m s of (Inl e, t) \<Rightarrow> (Inl e, t) | (Inr x, t) \<Rightarrow> f x t)"
  by (simp add: bnd_def)

lemma bnd_step [simp]:
  "m s = (Inr x, t) \<Longrightarrow> bnd m f s = f x t"
  "m s = (Inl e, t) \<Longrightarrow> bnd m f s = (Inl e, t)"
  by (simp_all add: bnd_def)

lemma bnd_ops [simp, op_simps]:
  "bnd (ret x) f = f x"
  "bnd (fail e) f = fail e"
  "bnd (gets h) f s = f (h s) s"
  "bnd (modify g) k s = k () (g s)"
  by (auto simp: bnd_def fun_eq_iff)

lemma bnd_ensure [simp, op_simps]:
  "P \<Longrightarrow> bnd (ensure P) k s = k () s"
  "\<not> P \<Longrightarrow> bnd (ensure P) k s = (Inl Assertion, s)"
  by (simp_all add: bnd_def)

lemma bnd_assoc: "bnd (bnd m f) g = bnd m (\<lambda>x. bnd (f x) g)"
  by (auto simp: bnd_def fun_eq_iff split: prod.splits sum.splits)

lemma bnd_Inr_iff:
  "bnd m f s = (Inr y, t) \<longleftrightarrow> (\<exists>x u. m s = (Inr x, u) \<and> f x u = (Inr y, t))"
  by (auto simp: bnd_def split: prod.splits sum.splits)

lemma bnd_InrE:
  assumes "bnd m f s = (Inr y, t)"
  obtains x u where "m s = (Inr x, u)" and "f x u = (Inr y, t)"
  using assms by (auto simp: bnd_Inr_iff)

text \<open>An invariant kept by every iteration is kept by the loop.\<close>

lemma for_op_invariant:
  assumes "I s"
    and step: "\<And>i t u r. a \<le> i \<Longrightarrow> i < a + n \<Longrightarrow> I t \<Longrightarrow> body i t = (r, u) \<Longrightarrow> I u"
    and "for_op a n body s = (r, t)"
  shows "I t"
  using assms
proof (induction n arbitrary: a s)
  case 0
  then show ?case by simp
next
  case (Suc n)
  obtain x u where b: "body a s = (x, u)" by (cases "body a s")
  have "I u" using Suc.prems(1,2) b by fastforce
  show ?case
  proof (cases x)
    case (Inl e)
    with Suc.prems(3) b \<open>I u\<close> show ?thesis by (auto simp: bnd_def)
  next
    case (Inr y)
    have "for_op (Suc a) n body u = (r, t)"
      using Suc.prems(3) b Inr by (simp add: bnd_def)
    moreover have "\<And>i v w q. Suc a \<le> i \<Longrightarrow> i < Suc a + n \<Longrightarrow> I v \<Longrightarrow> body i v = (q, w) \<Longrightarrow> I w"
      using Suc.prems(2) by (metis Suc_leD add_Suc add_Suc_right)
    ultimately show ?thesis
      using \<open>I u\<close> Suc.IH by blast
  qed
qed

lemma for_op_cong:
  "(\<And>i. a \<le> i \<Longrightarrow> i < a + n \<Longrightarrow> f i = g i) \<Longrightarrow> for_op a n f = for_op a n g"
proof (induction n arbitrary: a)
  case (Suc n)
  have "f a = g a" using Suc.prems [of a] by simp
  moreover have "for_op (Suc a) n f = for_op (Suc a) n g"
    by (rule Suc.IH) (rule Suc.prems, simp_all)
  ultimately show ?case by simp
qed simp

subsection \<open>What an operation may change\<close>

text \<open>\<open>frames R m\<close>: however \<open>m\<close> ends, the states before and after it are related by \<open>R\<close>. For a reflexive
  and transitive \<open>R\<close> the relation passes through every combinator.\<close>

definition frames :: "('s \<Rightarrow> 's \<Rightarrow> bool) \<Rightarrow> ('s, 'a) op \<Rightarrow> bool" where
  "frames R m \<longleftrightarrow> (\<forall>s r t. m s = (r, t) \<longrightarrow> R s t)"

lemma framesD: "frames R m \<Longrightarrow> m s = (r, t) \<Longrightarrow> R s t"
  by (simp add: frames_def)

lemma frames_basic:
  assumes "\<And>s. R s s"
  shows "frames R (ret x)" "frames R (fail e)" "frames R (gets f)" "frames R (ensure P)" "frames R (lift_res r)"
  using assms by (auto simp: frames_def)

lemma frames_bnd:
  assumes "\<And>s t u. R s t \<Longrightarrow> R t u \<Longrightarrow> R s u" "frames R m" "\<And>x. frames R (f x)"
  shows "frames R (bnd m f)"
  using assms by (auto simp: frames_def bnd_apply split: prod.splits sum.splits) blast

lemma frames_if: "(P \<Longrightarrow> frames R m) \<Longrightarrow> (\<not> P \<Longrightarrow> frames R n) \<Longrightarrow> frames R (if P then m else n)"
  by simp

lemma frames_for_op:
  assumes "\<And>s. R s s" "\<And>s t u. R s t \<Longrightarrow> R t u \<Longrightarrow> R s u" "\<And>i. frames R (body i)"
  shows "frames R (for_op a n body)"
  by (induction n arbitrary: a) (auto intro: frames_basic frames_bnd assms)

subsection \<open>Sizes\<close>

text \<open>
  \<open>size_t\<close> is 32 bits wide. Sizes and indices are naturals in the model, and a sum of two of
  them that the source stores in or compares as a \<open>size_t\<close> is taken modulo \<open>2 ^ 32\<close>.
\<close>

definition sz :: "nat \<Rightarrow> nat" where
  "sz n = n mod 2 ^ 32"

lemma sz_small [simp, word_simps]: "n < 2 ^ 32 \<Longrightarrow> sz n = n"
  by (simp add: sz_def)

lemma sz_less [simp, word_simps]: "sz n < 2 ^ 32"
  by (simp add: sz_def)

text \<open>Values of the C type \<open>int\<close> are mathematical integers as well. A sum or product of them is brought
  back into the 32-bit range by \<open>c_int\<close>, in two's complement, which is what the machine does when a
  signed computation overflows.\<close>

definition c_int :: "int \<Rightarrow> int" where
  "c_int n = signed_take_bit 31 n"

lemma c_int_id [simp, word_simps]: "- (2 ^ 31) \<le> n \<Longrightarrow> n < 2 ^ 31 \<Longrightarrow> c_int n = n"
  by (simp add: c_int_def signed_take_bit_int_eq_self)

lemma c_int_range: "- (2 ^ 31) \<le> c_int n" "c_int n < 2 ^ 31"
  using signed_take_bit_int_greater_eq_minus_exp [of 31 n] signed_take_bit_int_less_exp [of 31 n]
  by (simp_all add: c_int_def)

text \<open>\<open>ROUND_UP\<close>, \<open>DIV_ROUND_UP\<close> and \<open>ROUND_DOWN\<close> of \<^verbatim>\<open>lib/round.h\<close>.\<close>

definition ROUND_UP :: "nat \<Rightarrow> nat \<Rightarrow> nat" where
  "ROUND_UP x step = sz (sz (x + step - 1) div step * step)"

definition DIV_ROUND_UP :: "nat \<Rightarrow> nat \<Rightarrow> nat" where
  "DIV_ROUND_UP x step = sz (x + step - 1) div step"

definition ROUND_DOWN :: "nat \<Rightarrow> nat \<Rightarrow> nat" where
  "ROUND_DOWN x step = x div step * step"

lemma DIV_ROUND_UP_exact:
  assumes "0 < step" and "x + step - 1 < 2 ^ 32"
  shows "DIV_ROUND_UP x step = (x + step - 1) div step"
  using assms by (simp add: DIV_ROUND_UP_def)

lemma DIV_ROUND_UP_covers:
  assumes "0 < step" and "x + step - 1 < 2 ^ 32"
  shows "x \<le> DIV_ROUND_UP x step * step" and "DIV_ROUND_UP x step * step < x + step"
proof -
  have *: "(x + step - 1) div step * step + (x + step - 1) mod step = x + step - 1"
    by simp
  have m: "(x + step - 1) mod step < step" using assms(1) by simp
  show "x \<le> DIV_ROUND_UP x step * step"
    unfolding DIV_ROUND_UP_exact [OF assms] using * m by linarith
  show "DIV_ROUND_UP x step * step < x + step"
    unfolding DIV_ROUND_UP_exact [OF assms] using * assms(1) by linarith
qed

subsection \<open>Lists\<close>

lemma take_drop_nth_split: "i < length xs \<Longrightarrow> xs = take i xs @ xs ! i # drop (Suc i) xs"
  by (rule id_take_nth_drop)

lemma nth_list_update_other [simp]: "i \<noteq> j \<Longrightarrow> xs[i := x] ! j = xs ! j"
  by simp

lemma ex_range_Suc:
  "(\<exists>j::nat. a \<le> j \<and> j < a + Suc n \<and> P j) \<longleftrightarrow> P a \<or> (\<exists>j. Suc a \<le> j \<and> j < Suc a + n \<and> P j)"
proof
  assume "\<exists>j. a \<le> j \<and> j < a + Suc n \<and> P j"
  then obtain j where "a \<le> j" "j < a + Suc n" "P j" by blast
  then show "P a \<or> (\<exists>j. Suc a \<le> j \<and> j < Suc a + n \<and> P j)"
    by (cases "j = a") (auto intro!: exI [of _ j])
next
  assume "P a \<or> (\<exists>j. Suc a \<le> j \<and> j < Suc a + n \<and> P j)"
  then show "\<exists>j. a \<le> j \<and> j < a + Suc n \<and> P j"
  proof
    assume "P a"
    then show ?thesis by (intro exI [of _ a]) simp
  next
    assume "\<exists>j. Suc a \<le> j \<and> j < Suc a + n \<and> P j"
    then obtain j where "Suc a \<le> j" "j < Suc a + n" "P j" by blast
    then show ?thesis by (intro exI [of _ j]) simp
  qed
qed

lemma ball_range_step:
  "P i \<Longrightarrow> \<forall>k \<in> {i + 1..<u}. P k \<Longrightarrow> \<forall>k \<in> {i..<u::nat}. P k"
  by (metis Suc_eq_plus1 atLeastLessThan_iff le_neq_implies_less less_eq_Suc_le)

end
