(* ===== verification/Arith64.thy ===== *)
theory Arith64
  imports Prelude "HOL-Library.Signed_Division"
begin

unbundle bit_operations_syntax

text \<open>
  The 64-bit division routines of \<^verbatim>\<open>lib/arithmetic.c\<close>, which the compiler calls for the operators
  \<open>/\<close> and \<open>%\<close> on \<open>long long\<close>. A signed number is its 64-bit pattern. The divide instruction, and the
  C operators \<open>/\<close> and \<open>%\<close> on 32-bit operands, raise the CPU's divide error for a zero divisor, and
  the instruction also for a quotient that does not fit in 32 bits.

  \<open>udiv64_correct\<close> shows that the quotient computed through one or two 32-bit divisions and a
  correction step is exact for all operands. The two remainder routines keep only 32 bits of the
  result.
\<close>

definition divl :: "u64 \<Rightarrow> u32 \<Rightarrow> u32 res" where
  "divl n d =
    (let n1 = ucast (drop_bit 32 n) :: u32;
         n0 = ucast n :: u32;
         m = unat n1 * 2 ^ 32 + unat n0
     in if d = 0 \<or> m div unat d \<ge> 2 ^ 32 then Inl DivideError
        else Inr (word_of_nat (m div unat d)))"

definition nlz :: "u32 \<Rightarrow> nat" where
  "nlz x =
    (let n = 0;
         (n, x) = (if x \<le> 0x0000FFFF then (n + 16, push_bit 16 x) else (n, x));
         (n, x) = (if x \<le> 0x00FFFFFF then (n + 8, push_bit 8 x) else (n, x));
         (n, x) = (if x \<le> 0x0FFFFFFF then (n + 4, push_bit 4 x) else (n, x));
         (n, x) = (if x \<le> 0x3FFFFFFF then (n + 2, push_bit 2 x) else (n, x))
     in if x \<le> 0x7FFFFFFF then n + 1 else n)"

definition udiv64 :: "u64 \<Rightarrow> u64 \<Rightarrow> u64 res" where
  "udiv64 n d =
    (if drop_bit 32 d = 0
     then
       let b = push_bit 32 1 :: u64;
           n1 = ucast (drop_bit 32 n) :: u32;
           n0 = ucast n :: u32;
           d0 = ucast d :: u32
       in if d0 = 0 then Inl DivideError
          else rbind (divl (b * ucast (n1 mod d0) + ucast n0) d0) (\<lambda>q.
               Inr (ucast q + b * ucast (n1 div d0)))
     else if n < d then Inr 0
     else
       let d1 = ucast (drop_bit 32 d) :: u32;
           s = nlz d1
       in rbind (divl (drop_bit 1 n) (ucast (drop_bit 32 (push_bit s d)))) (\<lambda>r.
          let q = ucast (drop_bit (31 - s) r) :: u64
          in Inr (if n - (q - 1) * d < d then q - 1 else q)))"

definition umod64 :: "u64 \<Rightarrow> u64 \<Rightarrow> u32 res" where
  "umod64 n d = rbind (udiv64 n d) (\<lambda>q. Inr (ucast (n - d * q)))"

definition sdiv64 :: "u64 \<Rightarrow> u64 \<Rightarrow> u64 res" where
  "sdiv64 n d =
    (let n_abs = if 0 \<le> sint n then n else - n;
         d_abs = if 0 \<le> sint d then d else - d
     in rbind (udiv64 n_abs d_abs) (\<lambda>q_abs.
        Inr (if (sint n < 0) = (sint d < 0) then q_abs else - q_abs)))"

definition smod64 :: "u64 \<Rightarrow> u64 \<Rightarrow> u32 res" where
  "smod64 n d = rbind (sdiv64 n d) (\<lambda>q. Inr (ucast (n - d * q)))"

definition divdi3 :: "u64 \<Rightarrow> u64 \<Rightarrow> u64 res" where
  "divdi3 n d = sdiv64 n d"

definition moddi3 :: "u64 \<Rightarrow> u64 \<Rightarrow> u64 res" where
  "moddi3 n d = rbind (smod64 n d) (\<lambda>r. Inr (scast r))"

definition udivdi3 :: "u64 \<Rightarrow> u64 \<Rightarrow> u64 res" where
  "udivdi3 n d = udiv64 n d"

definition umoddi3 :: "u64 \<Rightarrow> u64 \<Rightarrow> u64 res" where
  "umoddi3 n d = rbind (umod64 n d) (\<lambda>r. Inr (ucast r))"

subsection \<open>Halves of a 64-bit word\<close>

lemma unat_bound64: "unat (n::u64) < 2 ^ 64"
  using unsigned_less [of n, where ?'a = nat] by simp

lemma unat_bound32: "unat (n::u32) < 2 ^ 32"
  using unsigned_less [of n, where ?'a = nat] by simp

lemma unat_drop: "unat (drop_bit k (n::'a::len word)) = unat n div 2 ^ k"
  using unsigned_less [of n, where ?'a = nat] by (simp add: unsigned_drop_bit_eq drop_bit_nat_def take_bit_nat_def)

lemma word_of_unat: "unat (w::'a::len word) = k \<Longrightarrow> w = word_of_nat k"
  by auto

lemma unat_widen: "unat (ucast (w::u32) :: u64) = unat w"
  using unat_bound32 [of w] by (simp add: unsigned_ucast_eq take_bit_nat_def)

lemma high_half: "unat (ucast (drop_bit 32 (n::u64)) :: u32) = unat n div 2 ^ 32"
proof -
  have "unat n div 2 ^ 32 < 2 ^ 32" using unat_bound64 [of n] by (simp add: less_mult_imp_div_less)
  then show ?thesis by (simp add: unsigned_ucast_eq take_bit_nat_def unat_drop)
qed

lemma low_half: "unat (ucast (n::u64) :: u32) = unat n mod 2 ^ 32"
  by (simp add: unsigned_ucast_eq take_bit_nat_def)

lemma divl_eq:
  "divl n d = (if d = 0 \<or> unat n div unat d \<ge> 2 ^ 32 then Inl DivideError
               else Inr (word_of_nat (unat n div unat d)))"
proof -
  have "unat (ucast (drop_bit 32 n) :: u32) * 2 ^ 32 + unat (ucast n :: u32) = unat n"
    unfolding high_half low_half [of n] by (rule div_mult_mod_eq)
  then show ?thesis unfolding divl_def Let_def by (simp only:)
qed

lemma divl_fits:
  assumes "d \<noteq> 0" "unat n < unat d * 2 ^ 32"
  shows "\<exists>q. divl n d = Inr q \<and> unat q = unat n div unat d"
proof -
  have "0 < unat d" using assms(1) by (simp add: unat_gt_0)
  then have "unat n div unat d < 2 ^ 32" using assms(2) by (simp add: div_less_iff_less_mult mult.commute)
  then show ?thesis using assms(1) by (simp add: divl_eq unat_of_nat)
qed

subsection \<open>Leading zeros\<close>

lemma push_small:
  assumes "unat (x::'a::len word) * 2 ^ k < 2 ^ LENGTH('a)"
  shows "unat (push_bit k x) = unat x * 2 ^ k"
  using assms by (simp add: unsigned_push_bit_eq push_bit_nat_def take_bit_nat_def)

lemma nlz_step:
  assumes "unat (x::u32) = unat z * 2 ^ n" "2 ^ (32 - 2 * k) \<le> unat x" "unat c + 1 = 2 ^ (32 - k)" "k \<le> 16"
  shows "\<exists>n' x'. (if x \<le> c then (n + k, push_bit k x) else (n, x)) = (n', x')
    \<and> unat x' = unat z * 2 ^ n' \<and> 2 ^ (32 - k) \<le> unat x'"
proof (cases "x \<le> c")
  case True
  then have "unat x < 2 ^ (32 - k)" using assms(3) unfolding word_le_nat_alt by linarith
  then have "unat x * 2 ^ k < 2 ^ (32 - k) * 2 ^ k" by simp
  also have "2 ^ (32 - k) * 2 ^ k = (2::nat) ^ 32" using assms(4) by (simp flip: power_add)
  finally have p: "unat (push_bit k x) = unat x * 2 ^ k" by (intro push_small) simp
  have "(2::nat) ^ (32 - k) = 2 ^ (32 - 2 * k) * 2 ^ k" using assms(4) by (simp flip: power_add)
  also have "\<dots> \<le> unat x * 2 ^ k" using assms(2) by simp
  finally have "2 ^ (32 - k) \<le> unat (push_bit k x)" unfolding p .
  with True p assms(1) show ?thesis by (simp add: power_add)
next
  case False
  then have "2 ^ (32 - k) \<le> unat x" using assms(3) unfolding word_le_nat_alt by linarith
  with False assms(1) show ?thesis by simp
qed

lemma nlz_normalises:
  assumes "x \<noteq> 0"
  shows "2 ^ 31 \<le> unat x * 2 ^ nlz x" and "unat x * 2 ^ nlz x < 2 ^ 32" and "nlz x \<le> 31"
proof -
  have "1 \<le> unat x" using assms by (simp add: Suc_le_eq unat_gt_0)
  then obtain n1 x1 where 1: "(if x \<le> 0x0000FFFF then (0 + 16, push_bit 16 x) else (0, x)) = (n1, x1)"
      "unat x1 = unat x * 2 ^ n1" "2 ^ 16 \<le> unat x1"
    using nlz_step [of x x 0 16 "0x0000FFFF"] by auto
  then obtain n2 x2 where 2: "(if x1 \<le> 0x00FFFFFF then (n1 + 8, push_bit 8 x1) else (n1, x1)) = (n2, x2)"
      "unat x2 = unat x * 2 ^ n2" "2 ^ 24 \<le> unat x2"
    using nlz_step [of x1 x n1 8 "0x00FFFFFF"] by auto
  then obtain n3 x3 where 3: "(if x2 \<le> 0x0FFFFFFF then (n2 + 4, push_bit 4 x2) else (n2, x2)) = (n3, x3)"
      "unat x3 = unat x * 2 ^ n3" "2 ^ 28 \<le> unat x3"
    using nlz_step [of x2 x n2 4 "0x0FFFFFFF"] by auto
  then obtain n4 x4 where 4: "(if x3 \<le> 0x3FFFFFFF then (n3 + 2, push_bit 2 x3) else (n3, x3)) = (n4, x4)"
      "unat x4 = unat x * 2 ^ n4" "2 ^ 30 \<le> unat x4"
    using nlz_step [of x3 x n3 2 "0x3FFFFFFF"] by auto
  then obtain n5 x5 where 5: "(if x4 \<le> 0x7FFFFFFF then (n4 + 1, push_bit 1 x4) else (n4, x4)) = (n5, x5)"
      "unat x5 = unat x * 2 ^ n5" "2 ^ 31 \<le> unat x5"
    using nlz_step [of x4 x n4 1 "0x7FFFFFFF"] by auto
  have n: "nlz x = n5"
    unfolding nlz_def Let_def 1(1) prod.case 2(1) 3(1) 4(1) using 5(1) by (auto split: if_splits)
  show a: "2 ^ 31 \<le> unat x * 2 ^ nlz x" "unat x * 2 ^ nlz x < 2 ^ 32"
    using 5(2,3) unat_bound32 [of x5] by (simp_all add: n)
  have "2 ^ nlz x \<le> unat x * 2 ^ nlz x" using \<open>1 \<le> unat x\<close> by simp
  with a(2) have "(2::nat) ^ nlz x < 2 ^ 32" by linarith
  then show "nlz x \<le> 31" using power_less_imp_less_exp [of "2::nat" "nlz x" 32] by simp
qed

subsection \<open>The quotient\<close>

lemma join_halves: "unat (push_bit 32 1 * ucast (a::u32) + ucast (b::u32) :: u64) = 2 ^ 32 * unat a + unat b"
proof -
  note a = unat_widen [of a] and b = unat_widen [of b]
  have "2 ^ 32 * unat a \<le> 2 ^ 32 * (2 ^ 32 - 1)" using unat_bound32 [of a] by simp
  then have lt: "2 ^ 32 * unat a + unat b < 2 ^ 64" using unat_bound32 [of b] by simp
  have "unat (push_bit 32 1 :: u64) = 2 ^ 32" by simp
  then have "unat (push_bit 32 1 * ucast a :: u64) = 2 ^ 32 * unat a"
    using lt unfolding unat_word_ariths a by simp
  with lt b show ?thesis by (simp only: unat_word_ariths) simp
qed

lemma div_high_first:
  fixes h l d :: nat
  assumes "0 < d"
  shows "(h * b + l) div d = (b * (h mod d) + l) div d + b * (h div d)"
proof -
  have "h * b + l = (h div d * d + h mod d) * b + l" by simp
  also have "\<dots> = (b * (h mod d) + l) + b * (h div d) * d" by (simp only: algebra_simps)
  finally show ?thesis using assms by (simp only: div_mult_self3 neq0_conv) (simp add: add.commute)
qed

lemma small_divisor:
  assumes "unat (d::u64) < 2 ^ 32" "d \<noteq> 0"
  shows "udiv64 n d = Inr (n div d)"
proof -
  define n1 n0 d0 where "n1 = (ucast (drop_bit 32 n) :: u32)" and "n0 = (ucast n :: u32)" and "d0 = (ucast d :: u32)"
  have d0: "unat d0 = unat d" using assms(1) by (simp add: d0_def low_half)
  moreover have "0 < unat d" using assms(2) by (simp add: unat_gt_0)
  ultimately have "d0 \<noteq> 0" "0 < unat d" by auto
  have n: "unat n1 * 2 ^ 32 + unat n0 = unat n" unfolding n1_def n0_def high_half low_half [of n] by (rule div_mult_mod_eq)
  let ?b = "push_bit 32 1 :: u64"
  let ?m = "?b * ucast (n1 mod d0) + ucast n0"
  have m: "unat ?m = 2 ^ 32 * (unat n1 mod unat d) + unat n0"
    unfolding join_halves by (simp only: unat_mod_distrib d0)
  have "unat n1 mod unat d < unat d" using \<open>0 < unat d\<close> by simp
  then have "2 ^ 32 * (unat n1 mod unat d + 1) \<le> 2 ^ 32 * unat d" by (intro mult_left_mono) simp_all
  then have lt: "unat ?m < unat d0 * 2 ^ 32"
    using unat_bound32 [of n0] unfolding m d0 distrib_left mult_1_right mult.commute [of "unat d"] by linarith
  obtain q where q: "divl ?m d0 = Inr q" "unat q = unat ?m div unat d0"
    using divl_fits [OF \<open>d0 \<noteq> 0\<close> lt] by blast
  have "unat (?b * ucast (n1 div d0) + ucast q) = unat ?m div unat d + 2 ^ 32 * (unat n1 div unat d)"
    unfolding join_halves q(2) d0 unat_div_distrib by (rule add.commute)
  also have "\<dots> = unat n div unat d"
    using div_high_first [OF \<open>0 < unat d\<close>, of "unat n1" "2 ^ 32" "unat n0"] unfolding m n by (rule sym)
  finally have "unat (?b * ucast (n1 div d0) + ucast q) = unat n div unat d" .
  then have "ucast q + ?b * ucast (n1 div d0) = n div d"
    unfolding add.commute [of "ucast q"] word_unat_eq_iff unat_div_distrib .
  moreover have "drop_bit 32 d = 0"
    using assms(1) by (simp add: word_unat_eq_iff unat_drop)
  ultimately show ?thesis
    unfolding udiv64_def Let_def n1_def [symmetric] n0_def [symmetric] d0_def [symmetric] q(1)
    using \<open>d0 \<noteq> 0\<close> by (simp only: if_True if_False rbind_simps refl)
qed

text \<open>Rounding the divisor down to its top 32 bits makes the quotient too large by one at most.\<close>

lemma rounded_quotient:
  fixes n d k :: nat
  assumes "n < 2 ^ 64" "s \<le> 31" "2 ^ (63 - s) \<le> d"
  defines "d' \<equiv> d div 2 ^ (32 - s) * 2 ^ (32 - s)"
  shows "n div d \<le> n div d'" and "n div d' \<le> n div d + 1"
proof -
  let ?u = "2 ^ (32 - s) :: nat"
  have "d = d' + d mod ?u" unfolding d'_def by (rule div_mult_mod_eq [symmetric])
  moreover have "d mod ?u < ?u" by simp
  ultimately have d: "d' \<le> d" "d - d' \<le> ?u - 1" by (linarith, linarith)
  have "63 - s = 31 + (32 - s)" using assms(2) by simp
  then have "(2::nat) ^ (63 - s) = 2 ^ 31 * ?u" by (simp only: power_add)
  then have "2 ^ 31 \<le> d div ?u" using assms(3) div_le_mono [of "2 ^ 31 * ?u" d ?u] by simp
  then have d': "2 ^ (63 - s) \<le> d'" unfolding d'_def \<open>2 ^ (63 - s) = 2 ^ 31 * ?u\<close> by (rule mult_right_mono) simp
  then have "0 < d'" by (rule less_le_trans [rotated]) simp
  then show "n div d \<le> n div d'" using d(1) by (rule div_le_mono2)
  have "n * (d - d') < d' * d"
  proof (cases "s = 31")
    case True
    then have "d - d' \<le> 1" using d(2) by simp
    then have "n * (d - d') \<le> n" using mult_le_mono2 [of "d - d'" 1 n] by simp
    also have "n < 2 ^ 32 * 2 ^ 32" using assms(1) by simp
    also have "\<dots> \<le> d' * d" using True d' assms(3) by (intro mult_le_mono) simp_all
    finally show ?thesis .
  next
    case False
    have "n * (d - d') \<le> n * ?u" using d(2) by (intro mult_le_mono2) linarith
    also have "\<dots> < 2 ^ 64 * ?u" using assms(1) by simp
    also have "\<dots> = 2 ^ (64 + (32 - s))" by (simp add: power_add)
    also have "\<dots> \<le> 2 ^ ((63 - s) + (63 - s))" using assms(2) False by (intro power_increasing) simp_all
    also have "\<dots> \<le> d' * d" unfolding power_add using d' assms(3) by (rule mult_le_mono)
    finally show ?thesis .
  qed
  moreover have "n * d = n * d' + n * (d - d')"
    using d(1) by (simp only: distrib_left [symmetric] le_add_diff_inverse)
  ultimately have lt: "n * d < n * d' + d' * d" by linarith
  have "0 < d" using \<open>0 < d'\<close> d(1) by linarith
  then have "n < (n div d + 1) * d"
    using dividend_less_div_times [of d n] by (simp only: distrib_right mult_1 add.commute)
  then have "n * d' < (n div d + 1) * d * d'" using \<open>0 < d'\<close> by (rule mult_strict_right_mono)
  moreover have "((n div d + 2) * d') * d = (n div d + 1) * d * d' + d' * d" by (simp add: algebra_simps)
  ultimately have "n * d < ((n div d + 2) * d') * d" using lt by linarith
  then have "n < (n div d + 2) * d'" by (simp only: mult_less_cancel2)
  then have "n div d' < n div d + 2" using \<open>0 < d'\<close> by (simp only: div_less_iff_less_mult)
  then show "n div d' \<le> n div d + 1" by simp
qed

text \<open>The correction step of \<open>udiv64\<close>, in 64-bit arithmetic that wraps around.\<close>

lemma correct_quotient:
  fixes n d q :: u64
  assumes "0 < unat d" "d \<le> n" "unat n div unat d \<le> unat q" "unat q \<le> unat n div unat d + 1"
  shows "(if n - (q - 1) * d < d then q - 1 else q) = n div d"
proof -
  let ?Q = "unat n div unat d"
  have "1 \<le> ?Q" using assms(1,2) by (simp add: Suc_le_eq div_greater_zero_iff word_le_nat_alt)
  then have "q \<noteq> 0" using assms(3) by auto
  then have q: "unat (q - 1) = unat q - 1" by (rule unat_minus_one)
  have Q: "?Q * unat d \<le> unat n" "unat n < ?Q * unat d + unat d"
    using dividend_less_div_times [OF assms(1), of "unat n"] by (simp_all add: add.commute)
  have "(unat q - 1) * unat d \<le> ?Q * unat d" using assms(4) by (intro mult_right_mono) simp_all
  then have le: "(unat q - 1) * unat d \<le> unat n" using Q(1) by linarith
  then have "unat ((q - 1) * d) = (unat q - 1) * unat d"
    using unat_bound64 [of n] by (simp add: unat_word_ariths q)
  then have sub: "unat (n - (q - 1) * d) = unat n - (unat q - 1) * unat d"
    using le by (simp add: unat_sub word_le_nat_alt)
  consider "unat q = ?Q" | "unat q = ?Q + 1" using assms(3,4) by linarith
  then show ?thesis
  proof cases
    case 1
    have "?Q * unat d = (unat q - 1) * unat d + unat d"
      using 1 \<open>1 \<le> ?Q\<close> by (metis add.commute le_add_diff_inverse mult_Suc plus_1_eq_Suc)
    then have "\<not> n - (q - 1) * d < d" using sub Q(1) by (simp add: word_less_nat_alt)
    with 1 show ?thesis by (simp add: word_unat_eq_iff unat_div_distrib)
  next
    case 2
    then have "unat q - 1 = ?Q" by simp
    then have "unat (n - (q - 1) * d) < unat d" unfolding sub \<open>unat q - 1 = ?Q\<close> using less_diff_conv2 [OF Q(1)] Q(2) by (simp only: add.commute)
    then have "n - (q - 1) * d < d" by (simp add: word_less_nat_alt)
    with q \<open>unat q - 1 = ?Q\<close> show ?thesis by (simp add: word_unat_eq_iff unat_div_distrib)
  qed
qed

text \<open>The divisor shifted by the leading zeros of its high half uses all 64 bits.\<close>

lemma shifted_divisor:
  fixes d d1 s :: nat
  assumes "d1 = d div 2 ^ 32" "2 ^ 31 \<le> d1 * 2 ^ s" "d1 * 2 ^ s < 2 ^ 32" "s \<le> 31"
  shows "2 ^ 63 \<le> d * 2 ^ s" and "d * 2 ^ s < 2 ^ 64" and "2 ^ (63 - s) \<le> d"
proof -
  have e32: "(2::nat) ^ 32 = 2 ^ (32 - s) * 2 ^ s" using assms(4) by (simp only: power_add [symmetric]) simp
  have d: "d1 * 2 ^ 32 \<le> d" "d < (d1 + 1) * 2 ^ 32"
    unfolding assms(1) using dividend_less_div_times [of "2 ^ 32" d] by simp_all
  have "(2::nat) ^ 63 = 2 ^ 31 * 2 ^ 32" by simp
  also have "\<dots> \<le> d1 * 2 ^ s * 2 ^ 32" using assms(2) by (rule mult_right_mono) simp
  also have "\<dots> = d1 * 2 ^ 32 * 2 ^ s" by (simp only: ac_simps)
  also have "\<dots> \<le> d * 2 ^ s" using d(1) by (rule mult_right_mono) simp
  finally show lo: "2 ^ 63 \<le> d * 2 ^ s" .
  have "d1 < 2 ^ (32 - s)" using assms(3) unfolding e32 by (simp only: mult_less_cancel2)
  then have "d1 + 1 \<le> 2 ^ (32 - s)" by simp
  then have "(d1 + 1) * 2 ^ 32 * 2 ^ s \<le> 2 ^ (32 - s) * 2 ^ 32 * 2 ^ s" by (intro mult_right_mono) simp_all
  moreover have "d * 2 ^ s < (d1 + 1) * 2 ^ 32 * 2 ^ s" using d(2) by (intro mult_strict_right_mono) simp_all
  moreover have "2 ^ (32 - s) * 2 ^ 32 * 2 ^ s = (2::nat) ^ 64"
    using assms(4) by (simp only: power_add [symmetric]) simp
  ultimately show "d * 2 ^ s < 2 ^ 64" by linarith
  have "(2::nat) ^ 63 = 2 ^ (63 - s) * 2 ^ s" using assms(4) by (simp only: power_add [symmetric]) simp
  then have "2 ^ (63 - s) * 2 ^ s \<le> d * 2 ^ s" using lo by (simp only:)
  then show "2 ^ (63 - s) \<le> d" by (rule mult_right_le_imp_le) simp
qed

lemma large_divisor:
  assumes "2 ^ 32 \<le> unat (d::u64)" "d \<le> n"
  shows "udiv64 n d = Inr (n div d)"
proof -
  define d1 where "d1 = (ucast (drop_bit 32 d) :: u32)"
  define s where "s = nlz d1"
  have d1: "unat d1 = unat d div 2 ^ 32" by (simp only: d1_def high_half)
  have "1 \<le> unat d1" unfolding d1 using div_le_mono [OF assms(1), of "2 ^ 32"] by simp
  then have "d1 \<noteq> 0" by auto
  note s = nlz_normalises [OF this, folded s_def]
  note ds = shifted_divisor [OF d1 s]
  define v where "v = (ucast (drop_bit 32 (push_bit s d)) :: u32)"
  have p: "unat (push_bit s d) = unat d * 2 ^ s" using ds(2) by (intro push_small) simp
  have v: "unat v = unat d * 2 ^ s div 2 ^ 32" unfolding v_def high_half p ..
  have v31: "2 ^ 31 \<le> unat v" unfolding v using div_le_mono [OF ds(1), of "2 ^ 32"] by simp
  then have "v \<noteq> 0" by auto
  have h: "unat (drop_bit 1 n) = unat n div 2" unfolding unat_drop by simp
  have "2 ^ 31 * 2 ^ 32 \<le> unat v * 2 ^ 32" using v31 by (rule mult_right_mono) simp
  moreover have "unat n div 2 < 2 ^ 31 * 2 ^ 32" using unat_bound64 [of n] by simp
  ultimately have "unat n div 2 < unat v * 2 ^ 32" by linarith
  then obtain r where r: "divl (drop_bit 1 n) v = Inr r" "unat r = unat n div 2 div unat v"
    using divl_fits [OF \<open>v \<noteq> 0\<close>, of "drop_bit 1 n"] unfolding h by blast
  let ?q = "ucast (drop_bit (31 - s) r) :: u64"
  have "unat ?q = unat (drop_bit (31 - s) r)" by (rule unat_widen)
  also have "\<dots> = unat r div 2 ^ (31 - s)" by (rule unat_drop)
  also have "\<dots> = unat n div (2 * unat v * 2 ^ (31 - s))" unfolding r(2) by (simp only: div_mult2_eq)
  also have "2 * unat v * 2 ^ (31 - s) = unat v * 2 ^ Suc (31 - s)" by (simp only: power_Suc ac_simps)
  also have "Suc (31 - s) = 32 - s" using s(3) by linarith
  also have "unat v = unat d div 2 ^ (32 - s)"
  proof -
    have "(2::nat) ^ 32 = 2 ^ s * 2 ^ (32 - s)" using s(3) by (simp only: power_add [symmetric]) simp
    then show ?thesis unfolding v by (simp only: div_mult2_eq nonzero_mult_div_cancel_right) simp
  qed
  finally have q: "unat ?q = unat n div (unat d div 2 ^ (32 - s) * 2 ^ (32 - s))" .
  note bounds = rounded_quotient [OF unat_bound64 s(3) ds(3), of n, folded q]
  have "0 < unat d" using assms(1) by (rule less_le_trans [rotated]) simp
  note c = correct_quotient [OF this assms(2) bounds]
  have "drop_bit 32 d \<noteq> 0" "\<not> n < d" using assms(2) \<open>d1 \<noteq> 0\<close> by (auto simp: d1_def)
  then have "udiv64 n d = rbind (divl (drop_bit 1 n) v) (\<lambda>r.
      let q = ucast (drop_bit (31 - s) r) :: u64 in Inr (if n - (q - 1) * d < d then q - 1 else q))"
    by (simp only: udiv64_def if_False Let_def d1_def s_def v_def)
  then show ?thesis unfolding r(1) rbind_simps Let_def c .
qed

lemma udiv64_eq: "udiv64 n d = (if d = 0 then Inl DivideError else Inr (n div d))"
proof (cases "d = 0")
  case False
  consider "unat d < 2 ^ 32" | "2 ^ 32 \<le> unat d" "n < d" | "2 ^ 32 \<le> unat d" "d \<le> n" by force
  then show ?thesis
  proof cases
    case 2
    then have "drop_bit 32 d \<noteq> 0"
      using div_le_mono [OF 2(1), of "2 ^ 32"] by (auto simp: word_unat_eq_iff unat_drop)
    moreover have "n div d = 0" using 2(2) by (simp add: word_unat_eq_iff unat_div_distrib word_less_nat_alt)
    ultimately show ?thesis using 2 False by (simp add: udiv64_def)
  qed (use False small_divisor large_divisor in auto)
qed (simp add: udiv64_def)

subsection \<open>Signed operands\<close>

lemma word_of_int_abs: "(word_of_int \<bar>k\<bar> :: u64) = (if 0 \<le> k then word_of_int k else - word_of_int k)"
  by (simp add: abs_if)

lemma word_abs: "word_of_int \<bar>sint (n::u64)\<bar> = (if 0 \<le> sint n then n else - n)"
proof -
  have "word_of_int (sint n) = n" by simp
  then show ?thesis unfolding word_of_int_abs by (simp only:)
qed

lemma unat_abs: "int (unat (if 0 \<le> sint (n::u64) then n else - n)) = \<bar>sint n\<bar>"
proof -
  have "- (2 ^ 63) \<le> sint n" "sint n < 2 ^ 63" using sint_ge [of n] sint_lt [of n] by simp_all
  then have "\<bar>sint n\<bar> < 2 ^ 64" by simp
  then have "uint (word_of_int \<bar>sint n\<bar> :: u64) = \<bar>sint n\<bar>"
    by (simp add: uint_word_of_int_eq take_bit_int_eq_self)
  then show ?thesis unfolding word_abs uint_nat .
qed

lemma sdiv64_eq: "sdiv64 n d = (if d = 0 then Inl DivideError else Inr (word_of_int (sint n sdiv sint d)))"
proof (cases "d = 0")
  case True
  then show ?thesis by (simp add: sdiv64_def udiv64_eq)
next
  case False
  define m e where "m = (if 0 \<le> sint n then n else - n)" and "e = (if 0 \<le> sint d then d else - d)"
  have "e \<noteq> 0" using False by (auto simp: e_def)
  have "m div e = word_of_int (\<bar>sint n\<bar> div \<bar>sint d\<bar>)"
  proof -
    have "m div e = word_of_nat (unat m div unat e)"
      by (rule word_of_unat) (rule unat_div_distrib)
    also have "\<dots> = word_of_int (int (unat m div unat e))" by (rule of_int_of_nat_eq [symmetric])
    finally show ?thesis unfolding of_nat_div m_def e_def unat_abs .
  qed
  moreover have "sint n sdiv sint d
      = (if (sint n < 0) = (sint d < 0) then \<bar>sint n\<bar> div \<bar>sint d\<bar> else - (\<bar>sint n\<bar> div \<bar>sint d\<bar>))"
    by (auto simp: signed_divide_int_def sgn_if)
  ultimately show ?thesis
    using False \<open>e \<noteq> 0\<close> unfolding sdiv64_def Let_def m_def [symmetric] e_def [symmetric] udiv64_eq by auto
qed

text \<open>C6: 64-bit unsigned division is exact: \<open>__udivdi3\<close> returns the quotient of the two operands for
  every nonzero divisor, without a divide error on the way, and for a zero divisor it raises the
  divide error.\<close>

theorem udivdi3_exact: "udivdi3 n d = (if d = 0 then Inl DivideError else Inr (n div d))"
  by (simp add: udivdi3_def udiv64_eq)

text \<open>C26: 64-bit signed division rounds toward zero: \<open>__divdi3\<close> returns the truncated quotient of the
  signed operands, reduced modulo \<open>2 ^ 64\<close> in the one case where it does not fit.\<close>

theorem divdi3_truncates: "divdi3 n d = (if d = 0 then Inl DivideError else Inr (word_of_int (sint n sdiv sint d)))"
  by (simp add: divdi3_def sdiv64_eq)

text \<open>C27: 64-bit unsigned remainder keeps 32 bits: for a nonzero divisor \<open>__umoddi3\<close> returns the remainder
  modulo \<open>2 ^ 32\<close>, so that it is right exactly when the remainder is below \<open>2 ^ 32\<close>.\<close>

theorem umoddi3_low_bits:
  assumes "d \<noteq> 0"
  shows "umoddi3 n d = Inr (word_of_nat (unat (n mod d) mod 2 ^ 32))
    \<and> (umoddi3 n d = Inr (n mod d) \<longleftrightarrow> unat (n mod d) < 2 ^ 32)"
proof -
  have "n - d * (n div d) = n mod d" by (metis minus_mult_div_eq_mod)
  then have e: "umoddi3 n d = Inr (ucast (ucast (n mod d) :: u32))"
    using assms by (simp add: umoddi3_def umod64_def udiv64_eq)
  have u: "unat (ucast (ucast (n mod d) :: u32) :: u64) = unat (n mod d) mod 2 ^ 32"
    unfolding unat_widen by (rule low_half)
  then have "ucast (ucast (n mod d) :: u32) = (word_of_nat (unat (n mod d) mod 2 ^ 32) :: u64)"
    by (rule word_of_unat)
  moreover have "ucast (ucast (n mod d) :: u32) = n mod d \<longleftrightarrow> unat (n mod d) < 2 ^ 32"
    unfolding word_unat_eq_iff u by (metis mod_less mod_less_divisor zero_less_numeral zero_less_power)
  ultimately show ?thesis unfolding e by simp
qed

theorem umoddi3_low_bits_witness:
  "(0x200000000 :: u64) \<noteq> 0 \<and> umoddi3 0x100000000 0x200000000 \<noteq> Inr (0x100000000 mod 0x200000000)"
  using umoddi3_low_bits [of "0x200000000" "0x100000000"] by (simp add: unat_mod_distrib)

end
