(* ===== verification/Vaddr.thy ===== *)
theory Vaddr
  imports Prelude
begin

unbundle bit_operations_syntax

text \<open>
  Virtual addresses and x86 page-table entries, from \<^verbatim>\<open>threads/vaddr.h\<close>,
  \<^verbatim>\<open>threads/pte.h\<close> and \<^verbatim>\<open>threads/loader.h\<close>. An address, and a page directory or page
  table entry, is a \<open>32 word\<close>. The inline functions that carry an \<open>ASSERT\<close> return a
  result. The lemmas show that an address is exactly its directory index, table index and
  offset, and that an entry gives back the page and the flags it was made from.
\<close>

definition BITMASK :: "nat \<Rightarrow> nat \<Rightarrow> u32" where
  "BITMASK shift cnt = push_bit shift (push_bit cnt 1 - 1)"

definition PGBITS :: nat where "PGBITS = 12"
definition PGSIZE :: nat where "PGSIZE = 2 ^ PGBITS"
definition PGMASK :: u32 where "PGMASK = BITMASK 0 PGBITS"

definition pg_ofs :: "u32 \<Rightarrow> u32" where
  "pg_ofs va = va AND PGMASK"

definition pg_no :: "u32 \<Rightarrow> u32" where
  "pg_no va = drop_bit PGBITS va"

definition pg_round_up :: "u32 \<Rightarrow> u32" where
  "pg_round_up va = (va + of_nat PGSIZE - 1) AND NOT PGMASK"

definition pg_round_down :: "u32 \<Rightarrow> u32" where
  "pg_round_down va = va AND NOT PGMASK"

definition PHYS_BASE :: u32 where "PHYS_BASE = 0xc0000000"

definition is_user_vaddr :: "u32 \<Rightarrow> bool" where
  "is_user_vaddr va \<longleftrightarrow> va < PHYS_BASE"

definition is_kernel_vaddr :: "u32 \<Rightarrow> bool" where
  "is_kernel_vaddr va \<longleftrightarrow> va \<ge> PHYS_BASE"

definition ptov :: "u32 \<Rightarrow> u32 res" where
  "ptov paddr = rassert (paddr < PHYS_BASE) (Inr (paddr + PHYS_BASE))"

definition vtop :: "u32 \<Rightarrow> u32 res" where
  "vtop va = rassert (is_kernel_vaddr va) (Inr (va - PHYS_BASE))"

subsection \<open>Page directory and page table entries\<close>

definition PTBITS :: nat where "PTBITS = 10"
definition PDSHIFT :: nat where "PDSHIFT = PGBITS + PTBITS"
definition PTMASK :: u32 where "PTMASK = BITMASK PGBITS PTBITS"

definition pt_no :: "u32 \<Rightarrow> u32" where
  "pt_no va = drop_bit PGBITS (va AND PTMASK)"

definition pd_no :: "u32 \<Rightarrow> u32" where
  "pd_no va = drop_bit PDSHIFT va"

definition PTE_ADDR :: u32 where "PTE_ADDR = 0xfffff000"
definition PTE_P :: u32 where "PTE_P = 0x1"
definition PTE_W :: u32 where "PTE_W = 0x2"
definition PTE_U :: u32 where "PTE_U = 0x4"
definition PTE_A :: u32 where "PTE_A = 0x20"
definition PTE_D :: u32 where "PTE_D = 0x40"

definition pde_create :: "u32 \<Rightarrow> u32 res" where
  "pde_create pt =
     rassert (pg_ofs pt = 0) (rbind (vtop pt) (\<lambda>p. Inr (p OR PTE_U OR PTE_P OR PTE_W)))"

definition pde_get_pt :: "u32 \<Rightarrow> u32 res" where
  "pde_get_pt pde = rassert (pde AND PTE_P \<noteq> 0) (ptov (pde AND PTE_ADDR))"

definition pte_create_kernel :: "u32 \<Rightarrow> bool \<Rightarrow> u32 res" where
  "pte_create_kernel page writable =
     rassert (pg_ofs page = 0)
       (rbind (vtop page) (\<lambda>p. Inr (p OR PTE_P OR (if writable then PTE_W else 0))))"

definition pte_create_user :: "u32 \<Rightarrow> bool \<Rightarrow> u32 res" where
  "pte_create_user page writable =
     rbind (pte_create_kernel page writable) (\<lambda>pte. Inr (pte OR PTE_U))"

definition pte_get_page :: "u32 \<Rightarrow> u32 res" where
  "pte_get_page pte = ptov (pte AND PTE_ADDR)"

subsection \<open>Bit patterns of the constants\<close>

lemma PGSIZE_eq [word_simps]: "PGSIZE = 4096"
  by (simp add: PGSIZE_def PGBITS_def)

lemma PGMASK_mask [word_simps]: "PGMASK = mask 12"
  by (simp add: PGMASK_def BITMASK_def PGBITS_def mask_eq_exp_minus_1 push_bit_eq_mult)

lemma PTMASK_mask [word_simps]: "PTMASK = push_bit 12 (mask 10)"
  by (simp add: PTMASK_def BITMASK_def PGBITS_def PTBITS_def mask_eq_exp_minus_1 push_bit_eq_mult)

lemma PTE_ADDR_mask [word_simps]: "PTE_ADDR = NOT (mask 12)"
  by (simp add: PTE_ADDR_def mask_eq_exp_minus_1)

lemma PTE_flags_exp:
  "PTE_P = 2 ^ 0" "PTE_W = 2 ^ 1" "PTE_U = 2 ^ 2" "PTE_A = 2 ^ 5" "PTE_D = 2 ^ 6"
  by (simp_all add: PTE_P_def PTE_W_def PTE_U_def PTE_A_def PTE_D_def)

lemma bit_PTE_flags [word_simps]:
  "bit PTE_P n \<longleftrightarrow> n = 0" "bit PTE_W n \<longleftrightarrow> n = 1" "bit PTE_U n \<longleftrightarrow> n = 2"
  "bit PTE_A n \<longleftrightarrow> n = 5" "bit PTE_D n \<longleftrightarrow> n = 6"
  unfolding PTE_flags_exp bit_exp_iff possible_bit_word by auto

lemma flag_set_iff [word_simps]:
  "w AND PTE_P \<noteq> 0 \<longleftrightarrow> bit w 0" "w AND PTE_W \<noteq> 0 \<longleftrightarrow> bit w 1" "w AND PTE_U \<noteq> 0 \<longleftrightarrow> bit w 2"
  "w AND PTE_A \<noteq> 0 \<longleftrightarrow> bit w 5" "w AND PTE_D \<noteq> 0 \<longleftrightarrow> bit w 6"
  unfolding PTE_flags_exp and_exp_eq_0_iff_not_bit by (rule not_not)+

lemma pg_ofs_take_bit: "pg_ofs va = take_bit 12 va"
  by (simp add: pg_ofs_def PGMASK_mask take_bit_eq_mask)

lemma pg_round_down_bit:
  "bit (pg_round_down va) n \<longleftrightarrow> 12 \<le> n \<and> bit va n"
  by (auto simp: pg_round_down_def PGMASK_mask bit_simps dest: bit_imp_le_length)

lemma unat_pg_ofs [word_simps]: "unat (pg_ofs va) = unat va mod PGSIZE"
  by (simp add: pg_ofs_take_bit unsigned_take_bit_eq PGSIZE_eq take_bit_eq_mod unat_mod_distrib)

lemma unat_pg_no [word_simps]: "unat (pg_no va) = unat va div PGSIZE"
  by (simp add: pg_no_def PGBITS_def PGSIZE_eq unat_drop_bit_eq drop_bit_eq_div unat_div_distrib)

lemma pg_round_down_sub: "pg_round_down va = va - pg_ofs va"
proof -
  have "pg_round_down va + pg_ofs va = pg_round_down va OR pg_ofs va"
    by (rule disjunctive_add_eq_or, rule bit_word_eqI)
      (auto simp: pg_round_down_bit pg_ofs_take_bit bit_simps)
  also have "\<dots> = va"
    by (rule bit_word_eqI) (auto simp: pg_round_down_bit pg_ofs_take_bit bit_simps)
  finally show ?thesis by (metis add_diff_cancel_right')
qed

lemma pg_ofs_le: "pg_ofs va \<le> va"
  by (simp add: word_le_nat_alt unat_pg_ofs)

lemma unat_pg_round_down [word_simps]: "unat (pg_round_down va) = unat va div PGSIZE * PGSIZE"
proof -
  have "unat (pg_round_down va) = unat va - unat (pg_ofs va)"
    using pg_ofs_le by (simp add: pg_round_down_sub unat_sub)
  then show ?thesis by (simp add: unat_pg_ofs minus_mod_eq_div_mult)
qed

lemma pg_ofs_pg_round_down [simp]: "pg_ofs (pg_round_down va) = 0"
  by (rule bit_word_eqI) (simp add: pg_ofs_take_bit bit_simps pg_round_down_bit)

lemma pg_round_down_aligned: "pg_ofs va = 0 \<Longrightarrow> pg_round_down va = va"
  by (simp add: pg_round_down_sub)

lemma pg_round_down_idem [simp]: "pg_round_down (pg_round_down va) = pg_round_down va"
  by (simp add: pg_round_down_aligned)

lemma user_page_start: "is_user_vaddr va \<Longrightarrow> is_user_vaddr (pg_round_down va)"
  unfolding is_user_vaddr_def
  by (metis div_times_less_eq_dividend dual_order.strict_trans2 unat_pg_round_down word_less_nat_alt)

lemma pg_no_round_down [simp]: "pg_no (pg_round_down va) = pg_no va"
  by (rule word_unat_eq_iff [THEN iffD2]) (simp add: unat_pg_no unat_pg_round_down PGSIZE_eq)

lemma pd_no_round_down [simp]: "pd_no (pg_round_down va) = pd_no va"
  by (rule bit_word_eqI) (simp add: pd_no_def PDSHIFT_def PGBITS_def PTBITS_def bit_simps pg_round_down_bit)

lemma pt_no_round_down [simp]: "pt_no (pg_round_down va) = pt_no va"
  by (rule bit_word_eqI)
    (auto simp: pt_no_def PGBITS_def PTMASK_mask bit_simps pg_round_down_bit)

lemma user_or_kernel: "is_kernel_vaddr va \<longleftrightarrow> \<not> is_user_vaddr va"
  by (simp add: is_user_vaddr_def is_kernel_vaddr_def not_less)

lemma vtop_kernel: "is_kernel_vaddr va \<Longrightarrow> vtop va = Inr (va - PHYS_BASE)"
  by (simp add: vtop_def)

lemma phys_bound: "is_kernel_vaddr va \<Longrightarrow> va - PHYS_BASE < 0x40000000"
  by (simp add: is_kernel_vaddr_def PHYS_BASE_def word_less_nat_alt word_le_nat_alt unat_sub)
    (use unsigned_less [of va, where ?'a = nat] in simp)

lemma phys_user: "is_kernel_vaddr va \<Longrightarrow> va - PHYS_BASE < PHYS_BASE"
  using phys_bound by (rule order.strict_trans) (simp_all add: PHYS_BASE_def)

lemma ptov_phys: "is_kernel_vaddr va \<Longrightarrow> ptov (va - PHYS_BASE) = Inr va"
  by (simp add: ptov_def phys_user)

lemma pg_ofs_zero_iff: "pg_ofs va = 0 \<longleftrightarrow> PGSIZE dvd unat va"
  by (simp add: word_unat_eq_iff unat_pg_ofs dvd_eq_mod_eq_0)

lemma pg_ofs_phys:
  assumes "is_kernel_vaddr va" and "pg_ofs va = 0"
  shows "pg_ofs (va - PHYS_BASE) = 0"
proof -
  have "unat (va - PHYS_BASE) = unat va - 786432 * PGSIZE"
    using assms(1) by (simp add: is_kernel_vaddr_def unat_sub PHYS_BASE_def PGSIZE_eq)
  then show ?thesis using assms(2) by (simp add: pg_ofs_zero_iff dvd_diff_nat)
qed

subsection \<open>Indices of an address\<close>

lemma pd_no_bound: "unat (pd_no va) < 1024"
  by (simp add: pd_no_def PDSHIFT_def PGBITS_def PTBITS_def unat_drop_bit_eq drop_bit_eq_div unat_div_distrib)
    (use unsigned_less [of va, where ?'a = nat] in simp)

lemma unat_pd_no: "unat (pd_no va) = unat va div (PGSIZE * 1024)"
  by (simp add: pd_no_def PDSHIFT_def PGBITS_def PTBITS_def PGSIZE_eq unat_drop_bit_eq drop_bit_eq_div unat_div_distrib)

lemma pt_no_alt: "pt_no va = take_bit 10 (pg_no va)"
  by (rule bit_word_eqI) (auto simp: pt_no_def pg_no_def PGBITS_def PTMASK_mask bit_simps)

lemma unat_pt_no: "unat (pt_no va) = unat va div PGSIZE mod 1024"
  by (simp add: pt_no_alt unsigned_take_bit_eq take_bit_eq_mod unat_mod_distrib unat_pg_no)

lemma pt_no_bound: "unat (pt_no va) < 1024"
  by (simp add: unat_pt_no)

lemma user_pd_no: "is_user_vaddr va \<Longrightarrow> pd_no va < pd_no PHYS_BASE"
  by (simp add: is_user_vaddr_def word_less_nat_alt unat_pd_no PGSIZE_eq PHYS_BASE_def)

lemma same_page_iff:
  "pg_round_down a = pg_round_down b \<longleftrightarrow> pd_no a = pd_no b \<and> pt_no a = pt_no b"
proof
  assume "pd_no a = pd_no b \<and> pt_no a = pt_no b"
  then have "unat a div PGSIZE = unat b div PGSIZE"
    by (metis div_mult2_eq div_mult_mod_eq unat_pd_no unat_pt_no)
  then show "pg_round_down a = pg_round_down b"
    by (intro word_unat_eq_iff [THEN iffD2]) (simp add: unat_pg_round_down)
qed (metis pd_no_round_down pt_no_round_down)

lemma aligned_low_bits:
  assumes "is_kernel_vaddr page" "pg_ofs page = 0" "n < 12"
  shows "\<not> bit (page - PHYS_BASE) n"
proof -
  have "\<not> bit (pg_ofs (page - PHYS_BASE)) n" using assms by (simp add: pg_ofs_phys)
  then show ?thesis using assms(3) by (simp add: pg_ofs_take_bit bit_simps)
qed

lemma flags_off_address:
  assumes "is_kernel_vaddr page" "pg_ofs page = 0" "\<And>n. bit f n \<Longrightarrow> n < 12"
  shows "((page - PHYS_BASE) OR f) AND PTE_ADDR = page - PHYS_BASE"
  by (rule bit_word_eqI)
    (use aligned_low_bits [OF assms(1,2)] assms(3) in \<open>auto simp: PTE_ADDR_mask bit_simps not_le\<close>)

lemma pde_roundtrip:
  assumes "pg_ofs pt = 0" "is_kernel_vaddr pt"
  shows "\<exists>pde. pde_create pt = Inr pde \<and> bit pde 0 \<and> pde \<noteq> 0 \<and> (pde AND PTE_ADDR) + PHYS_BASE = pt"
proof -
  let ?f = "PTE_U OR PTE_P OR PTE_W"
  let ?e = "(pt - PHYS_BASE) OR ?f"
  have "bit ?e 0" by (simp add: bit_or_iff bit_PTE_flags)
  moreover from this have "?e \<noteq> 0" by auto
  moreover have "?e AND PTE_ADDR = pt - PHYS_BASE"
    by (rule flags_off_address) (use assms in \<open>auto simp: bit_or_iff bit_PTE_flags\<close>)
  moreover have "pde_create pt = Inr ?e" using assms by (simp add: pde_create_def vtop_kernel)
  ultimately show ?thesis by simp
qed

subsection \<open>Properties\<close>

text \<open>C22: A virtual address is its page directory index, page table index and page offset, and
  the two indices fit the 1024-entry tables: nothing of the address is lost or shared between
  the three fields the MMU uses.\<close>

theorem vaddr_decomposition:
  "unat va = (unat (pd_no va) * 1024 + unat (pt_no va)) * PGSIZE + unat (pg_ofs va)
   \<and> unat (pd_no va) < 1024 \<and> unat (pt_no va) < 1024 \<and> unat (pg_ofs va) < PGSIZE"
proof -
  have "unat va div PGSIZE div 1024 * 1024 + unat va div PGSIZE mod 1024 = unat va div PGSIZE"
    by simp
  then have "(unat (pd_no va) * 1024 + unat (pt_no va)) * PGSIZE + unat (pg_ofs va) = unat va"
    by (simp add: unat_pd_no unat_pt_no unat_pg_ofs div_mult2_eq)
  then show ?thesis
    using pd_no_bound pt_no_bound by (simp add: unat_pg_ofs PGSIZE_eq)
qed

lemma pte_user_entry:
  assumes "pg_ofs page = 0" and "is_kernel_vaddr page"
  shows "\<exists>pte. pte_create_user page writable = Inr pte \<and> pte_get_page pte = Inr page
    \<and> pte AND PTE_P \<noteq> 0 \<and> pte AND PTE_U \<noteq> 0 \<and> (pte AND PTE_W \<noteq> 0 \<longleftrightarrow> writable)
    \<and> pte AND PTE_A = 0 \<and> pte AND PTE_D = 0"
proof -
  let ?p = "page - PHYS_BASE"
  let ?pte = "(?p OR PTE_P OR (if writable then PTE_W else 0)) OR PTE_U"
  note low = aligned_low_bits [OF assms(2,1)]
  have "(?p OR ((PTE_P OR (if writable then PTE_W else 0)) OR PTE_U)) AND PTE_ADDR = ?p"
    by (rule flags_off_address) (use assms in \<open>auto simp: bit_or_iff bit_PTE_flags split: if_splits\<close>)
  then have "?pte AND PTE_ADDR = ?p" by (simp add: or.assoc)
  then have page: "pte_get_page ?pte = Inr page"
    using assms(2) by (simp add: pte_get_page_def ptov_phys)
  have create: "pte_create_user page writable = Inr ?pte"
    using assms by (simp add: pte_create_user_def pte_create_kernel_def vtop_kernel)
  have "bit ?pte 0" "bit ?pte 2" "bit ?pte 1 \<longleftrightarrow> writable" "\<not> bit ?pte 5" "\<not> bit ?pte 6"
    using low by (auto simp: bit_or_iff bit_PTE_flags)
  with create page show ?thesis
    using flag_set_iff [of ?pte] by blast
qed

text \<open>C23: A user page table entry made for a page-aligned kernel address is present and
  user-accessible, is writable exactly when asked, starts out neither accessed nor dirty, and
  leads back to the very page it was made from.\<close>

theorem pte_user_roundtrip:
  assumes "pg_ofs page = 0" and "is_kernel_vaddr page"
  shows "\<exists>pte. pte_create_user page writable = Inr pte \<and> pte_get_page pte = Inr page
    \<and> pte AND PTE_P \<noteq> 0 \<and> pte AND PTE_U \<noteq> 0 \<and> (pte AND PTE_W \<noteq> 0 \<longleftrightarrow> writable)
    \<and> pte AND PTE_A = 0 \<and> pte AND PTE_D = 0"
  by (rule pte_user_entry [OF assms])

theorem pte_user_witness:
  "\<exists>pte. pte_create_user 0xc0101000 True = Inr pte \<and> pte_get_page pte = Inr 0xc0101000
    \<and> pte AND PTE_P \<noteq> 0 \<and> pte AND PTE_U \<noteq> 0 \<and> pte AND PTE_W \<noteq> 0
    \<and> pte AND PTE_A = 0 \<and> pte AND PTE_D = 0"
proof -
  have "pg_ofs 0xc0101000 = 0" and "is_kernel_vaddr 0xc0101000"
    by (simp_all add: pg_ofs_def PGMASK_def BITMASK_def PGBITS_def is_kernel_vaddr_def PHYS_BASE_def
        push_bit_eq_mult)
  then show ?thesis using pte_user_roundtrip [of "0xc0101000" True] by simp
qed

end
