(* ===== verification/Memory.thy ===== *)
theory Memory
  imports Vaddr
begin

unbundle bit_operations_syntax

text \<open>
  Byte-addressed memory. The kernel maps physical memory linearly from \<open>PHYS_BASE\<close> up, so the
  kernel's view is one function from 32-bit addresses to bytes; a 32-bit object is four bytes,
  least significant first, as on the x86. A block of \<open>n\<close> bytes at \<open>a\<close> is the set of addresses
  \<open>x\<close> with \<open>x - a < n\<close> in 32-bit arithmetic.
\<close>

type_synonym memory = "u32 \<Rightarrow> u8"

definition u32_bytes :: "u32 \<Rightarrow> u8 list" where
  "u32_bytes w = [ucast w, ucast (drop_bit 8 w), ucast (drop_bit 16 w), ucast (drop_bit 24 w)]"

definition bytes_u32 :: "u8 \<Rightarrow> u8 \<Rightarrow> u8 \<Rightarrow> u8 \<Rightarrow> u32" where
  "bytes_u32 a b c d = ucast a OR push_bit 8 (ucast b) OR push_bit 16 (ucast c) OR push_bit 24 (ucast d)"

definition load32 :: "memory \<Rightarrow> u32 \<Rightarrow> u32" where
  "load32 m a = bytes_u32 (m a) (m (a + 1)) (m (a + 2)) (m (a + 3))"

definition store32 :: "memory \<Rightarrow> u32 \<Rightarrow> u32 \<Rightarrow> memory" where
  "store32 m a w = m(a := ucast w, a + 1 := ucast (drop_bit 8 w),
                     a + 2 := ucast (drop_bit 16 w), a + 3 := ucast (drop_bit 24 w))"

definition in_block :: "u32 \<Rightarrow> nat \<Rightarrow> u32 \<Rightarrow> bool" where
  "in_block a n x \<longleftrightarrow> unat (x - a) < n"

text \<open>\<open>memset (a, v, n)\<close> and \<open>memcpy (dst, src, n)\<close> on the kernel's memory; copying a list of bytes
  into memory and reading a block as a list.\<close>

definition mem_fill :: "memory \<Rightarrow> u32 \<Rightarrow> u8 \<Rightarrow> nat \<Rightarrow> memory" where
  "mem_fill m a v n = (\<lambda>x. if in_block a n x then v else m x)"

definition mem_copy :: "memory \<Rightarrow> u32 \<Rightarrow> u32 \<Rightarrow> nat \<Rightarrow> memory" where
  "mem_copy m dst src n = (\<lambda>x. if in_block dst n x then m (src + (x - dst)) else m x)"

definition mem_put :: "memory \<Rightarrow> u32 \<Rightarrow> u8 list \<Rightarrow> memory" where
  "mem_put m a bs = (\<lambda>x. if in_block a (length bs) x then bs ! unat (x - a) else m x)"

definition mem_get :: "memory \<Rightarrow> u32 \<Rightarrow> nat \<Rightarrow> u8 list" where
  "mem_get m a n = map (\<lambda>i. m (a + of_nat i)) [0..<n]"

subsection \<open>Words and their bytes\<close>

lemma ucast_byte_bit: "bit (ucast (b::u8) :: u32) n \<longleftrightarrow> n < 8 \<and> bit b n"
  by (auto simp: bit_ucast_iff dest: bit_imp_le_length)

lemma bit_bytes_u32:
  "bit (bytes_u32 a b c d) n \<longleftrightarrow> n < 8 \<and> bit a n \<or> 8 \<le> n \<and> n < 16 \<and> bit b (n - 8)
     \<or> 16 \<le> n \<and> n < 24 \<and> bit c (n - 16) \<or> 24 \<le> n \<and> n < 32 \<and> bit d (n - 24)"
  by (auto simp: bytes_u32_def bit_or_iff bit_push_bit_iff ucast_byte_bit dest: bit_imp_le_length)

lemma bytes_u32_of [simp]:
  "bytes_u32 (ucast w) (ucast (drop_bit 8 w)) (ucast (drop_bit 16 w)) (ucast (drop_bit 24 w)) = w"
proof (rule bit_word_eqI)
  fix n
  assume "n < LENGTH(32)"
  then consider "n < 8" | "8 \<le> n" "n < 16" | "16 \<le> n" "n < 24" | "24 \<le> n" "n < 32" by fastforce
  then show "bit (bytes_u32 (ucast w) (ucast (drop_bit 8 w)) (ucast (drop_bit 16 w)) (ucast (drop_bit 24 w))) n = bit w n"
    by cases (auto simp: bit_bytes_u32 bit_ucast_iff bit_drop_bit_eq)
qed

lemma u32_bytes_of [simp]: "u32_bytes (bytes_u32 a b c d) = [a, b, c, d]"
proof -
  have "ucast (bytes_u32 a b c d) = a" "ucast (drop_bit 8 (bytes_u32 a b c d)) = b"
    "ucast (drop_bit 16 (bytes_u32 a b c d)) = c" "ucast (drop_bit 24 (bytes_u32 a b c d)) = d"
    by (rule bit_word_eqI; auto simp: bit_bytes_u32 bit_ucast_iff bit_drop_bit_eq)+
  then show ?thesis by (simp add: u32_bytes_def)
qed

lemma small_offsets [simp]: "(a::u32) + 1 \<noteq> a" "a + 2 \<noteq> a" "a + 3 \<noteq> a" "a \<noteq> a + 1" "a \<noteq> a + 2" "a \<noteq> a + 3"
  by simp_all

lemma load32_store32 [simp]: "load32 (store32 m a w) a = w"
  by (simp add: load32_def store32_def)

lemma store32_outside: "\<not> in_block a 4 x \<Longrightarrow> store32 m a w x = m x"
proof -
  assume "\<not> in_block a 4 x"
  then have "x - a \<noteq> 0" "x - a \<noteq> 1" "x - a \<noteq> 2" "x - a \<noteq> 3" by (auto simp: in_block_def)
  then have "x \<noteq> a" "x \<noteq> a + 1" "x \<noteq> a + 2" "x \<noteq> a + 3" by auto
  then show ?thesis by (simp add: store32_def)
qed

lemma load32_cong:
  assumes "\<And>x. in_block a 4 x \<Longrightarrow> m' x = m x"
  shows "load32 m' a = load32 m a"
  by (simp add: load32_def assms in_block_def)

text \<open>A block that does not wrap around the address space is an interval.\<close>

lemma in_block_interval:
  assumes "unat a + n \<le> 2 ^ 32"
  shows "in_block a n x \<longleftrightarrow> unat a \<le> unat x \<and> unat x < unat a + n"
proof -
  have "unat x < 2 ^ 32" "unat a < 2 ^ 32"
    using unsigned_less [of x, where ?'a = nat] unsigned_less [of a, where ?'a = nat] by simp_all
  then show ?thesis
    using assms by (auto simp: in_block_def unat_sub_if')
qed

text \<open>Two words at addresses that are multiples of four do not overlap.\<close>

lemma aligned_room: "4 dvd unat (a::u32) \<Longrightarrow> unat a + 4 \<le> 2 ^ 32"
  using unsigned_less [of a, where ?'a = nat] by (auto elim!: dvdE)

lemma aligned_disjoint:
  assumes "4 dvd unat a" "4 dvd unat b" "a \<noteq> b" "in_block a 4 x"
  shows "\<not> in_block b 4 x"
proof
  assume "in_block b 4 x"
  have "unat x div 4 = unat c div 4" if "4 dvd unat c" "in_block c 4 x" for c
    using that in_block_interval [OF aligned_room [OF that(1)], of x] by (auto elim!: dvdE)
  then have "unat a div 4 = unat b div 4" using assms \<open>in_block b 4 x\<close> by metis
  with assms show False by (metis dvd_div_eq_cancel word_unat_eq_iff)
qed

lemma load32_store32_other:
  assumes "4 dvd unat a" "4 dvd unat b" "a \<noteq> b"
  shows "load32 (store32 m b w) a = load32 m a"
  by (rule load32_cong) (use aligned_disjoint [OF assms] store32_outside in blast)

subsection \<open>Blocks\<close>

lemma mem_fill_get: "mem_fill m a v n x = (if in_block a n x then v else m x)"
  by (simp add: mem_fill_def)

lemma length_mem_get [simp]: "length (mem_get m a n) = n"
  by (simp add: mem_get_def)

lemma mem_get_nth [simp]: "i < n \<Longrightarrow> mem_get m a n ! i = m (a + of_nat i)"
  by (simp add: mem_get_def)

lemma mem_get_cong: "(\<And>x. in_block a n x \<Longrightarrow> m' x = m x) \<Longrightarrow> n \<le> 2 ^ 32 \<Longrightarrow> mem_get m' a n = mem_get m a n"
  by (rule nth_equalityI) (auto simp: in_block_def unat_of_nat)

lemma mem_get_put: "length bs \<le> 2 ^ 32 \<Longrightarrow> mem_get (mem_put m a bs) a (length bs) = bs"
  by (rule nth_equalityI) (auto simp: mem_put_def in_block_def unat_of_nat)

lemma mem_get_fill: "n \<le> 2 ^ 32 \<Longrightarrow> mem_get (mem_fill m a v n) a n = replicate n v"
  by (rule nth_equalityI) (auto simp: mem_fill_def in_block_def unat_of_nat)

lemma load32_fill_zero:
  assumes "\<And>x. in_block b 4 x \<Longrightarrow> in_block a n x"
  shows "load32 (mem_fill m a 0 n) b = 0"
proof -
  have "in_block b 4 b" "in_block b 4 (b + 1)" "in_block b 4 (b + 2)" "in_block b 4 (b + 3)"
    by (simp_all add: in_block_def)
  then have "in_block a n b" "in_block a n (b + 1)" "in_block a n (b + 2)" "in_block a n (b + 3)"
    using assms by blast+
  then show ?thesis by (simp add: load32_def mem_fill_def bytes_u32_def)
qed

end
