(* ===== verification/Cstring.thy ===== *)
theory Cstring
  imports Memory
begin

text \<open>
  The memory and string routines of \<^verbatim>\<open>lib/string.c\<close>, on the byte-addressed memory. A routine that
  writes is an operation on the memory; one that only reads takes the memory as an argument. A
  pointer that runs through a block or a string is a 32-bit address, and the null pointer is zero.
  The saved position of \<open>strtok_r\<close> is passed and returned by value, so the assertion that the caller gives
  a place to keep it has no counterpart.
  A loop that looks for the end of a string takes a bound on its steps; \<open>cstr m a bs\<close> says that the
  bytes \<open>bs\<close> and a terminator lie at \<open>a\<close>, and any bound above the length of \<open>bs\<close> is enough.

  The lemmas show what each routine computes on terminated strings: the copies are exact also for
  overlapping blocks in \<open>memmove\<close>, \<open>strlcpy\<close> always leaves a terminated prefix, and calling \<open>strtok_r\<close>
  until it returns null yields the nonempty pieces between delimiters in order.
\<close>

fun copy_up :: "nat \<Rightarrow> u32 \<Rightarrow> u32 \<Rightarrow> memory \<Rightarrow> memory" where
  "copy_up 0 dst src m = m"
| "copy_up (Suc n) dst src m = copy_up n (dst + 1) (src + 1) (m(dst := m src))"

fun copy_down :: "nat \<Rightarrow> u32 \<Rightarrow> u32 \<Rightarrow> memory \<Rightarrow> memory" where
  "copy_down 0 dst src m = m"
| "copy_down (Suc n) dst src m = copy_down n (dst - 1) (src - 1) (m(dst - 1 := m (src - 1)))"

definition memcpy :: "u32 \<Rightarrow> u32 \<Rightarrow> nat \<Rightarrow> (memory, u32) op" where
  "memcpy dst src n =
     bnd (ensure (dst \<noteq> 0 \<or> n = 0)) (\<lambda>_.
     bnd (ensure (src \<noteq> 0 \<or> n = 0)) (\<lambda>_.
     bnd (modify (copy_up n dst src)) (\<lambda>_. ret dst)))"

definition memmove :: "u32 \<Rightarrow> u32 \<Rightarrow> nat \<Rightarrow> (memory, u32) op" where
  "memmove dst src n =
     bnd (ensure (dst \<noteq> 0 \<or> n = 0)) (\<lambda>_.
     bnd (ensure (src \<noteq> 0 \<or> n = 0)) (\<lambda>_.
     if dst < src
     then bnd (modify (copy_up n dst src)) (\<lambda>_. ret (dst + of_nat n))
     else bnd (modify (copy_down n (dst + of_nat n) (src + of_nat n))) (\<lambda>_. ret (dst + of_nat n - of_nat n))))"

fun memcmp_loop :: "nat \<Rightarrow> memory \<Rightarrow> u32 \<Rightarrow> u32 \<Rightarrow> int" where
  "memcmp_loop 0 m a b = 0"
| "memcmp_loop (Suc n) m a b =
     (if m a \<noteq> m b then if m a > m b then 1 else - 1 else memcmp_loop n m (a + 1) (b + 1))"

definition memcmp :: "memory \<Rightarrow> u32 \<Rightarrow> u32 \<Rightarrow> nat \<Rightarrow> int res" where
  "memcmp m a b n = rassert (a \<noteq> 0 \<or> n = 0) (rassert (b \<noteq> 0 \<or> n = 0) (Inr (memcmp_loop n m a b)))"

fun strcmp_loop :: "nat \<Rightarrow> memory \<Rightarrow> u32 \<Rightarrow> u32 \<Rightarrow> int res" where
  "strcmp_loop 0 m a b = Inl OutOfFuel"
| "strcmp_loop (Suc n) m a b =
     (if m a \<noteq> 0 \<and> m a = m b then strcmp_loop n m (a + 1) (b + 1)
      else Inr (if m a < m b then - 1 else if m a > m b then 1 else 0))"

definition strcmp :: "nat \<Rightarrow> memory \<Rightarrow> u32 \<Rightarrow> u32 \<Rightarrow> int res" where
  "strcmp fuel m a b = rassert (a \<noteq> 0) (rassert (b \<noteq> 0) (strcmp_loop fuel m a b))"

fun memchr_loop :: "nat \<Rightarrow> memory \<Rightarrow> u32 \<Rightarrow> u8 \<Rightarrow> u32" where
  "memchr_loop 0 m block ch = 0"
| "memchr_loop (Suc n) m block ch = (if m block = ch then block else memchr_loop n m (block + 1) ch)"

definition memchr :: "memory \<Rightarrow> u32 \<Rightarrow> int \<Rightarrow> nat \<Rightarrow> u32 res" where
  "memchr m block ch n = rassert (block \<noteq> 0 \<or> n = 0) (Inr (memchr_loop n m block (word_of_int ch)))"

fun strchr_loop :: "nat \<Rightarrow> memory \<Rightarrow> u32 \<Rightarrow> u8 \<Rightarrow> u32 res" where
  "strchr_loop 0 m s c = Inl OutOfFuel"
| "strchr_loop (Suc n) m s c = (if m s = c then Inr s else if m s = 0 then Inr 0 else strchr_loop n m (s + 1) c)"

definition strchr :: "nat \<Rightarrow> memory \<Rightarrow> u32 \<Rightarrow> u8 \<Rightarrow> u32 res" where
  "strchr fuel m s c = rassert (s \<noteq> 0) (strchr_loop fuel m s c)"

fun strcspn_loop :: "nat \<Rightarrow> nat \<Rightarrow> memory \<Rightarrow> u32 \<Rightarrow> u32 \<Rightarrow> nat \<Rightarrow> nat res" where
  "strcspn_loop 0 fuel m s stop n = Inl OutOfFuel"
| "strcspn_loop (Suc k) fuel m s stop n =
     (if m (s + of_nat n) = 0 then Inr n
      else rbind (strchr fuel m stop (m (s + of_nat n))) (\<lambda>p.
           if p \<noteq> 0 then Inr n else strcspn_loop k fuel m s stop (n + 1)))"

definition strcspn :: "nat \<Rightarrow> memory \<Rightarrow> u32 \<Rightarrow> u32 \<Rightarrow> nat res" where
  "strcspn fuel m s stop = strcspn_loop fuel fuel m s stop 0"

fun strpbrk_loop :: "nat \<Rightarrow> nat \<Rightarrow> memory \<Rightarrow> u32 \<Rightarrow> u32 \<Rightarrow> u32 res" where
  "strpbrk_loop 0 fuel m s stop = Inl OutOfFuel"
| "strpbrk_loop (Suc k) fuel m s stop =
     (if m s = 0 then Inr 0
      else rbind (strchr fuel m stop (m s)) (\<lambda>p. if p \<noteq> 0 then Inr s else strpbrk_loop k fuel m (s + 1) stop))"

definition strpbrk :: "nat \<Rightarrow> memory \<Rightarrow> u32 \<Rightarrow> u32 \<Rightarrow> u32 res" where
  "strpbrk fuel m s stop = strpbrk_loop fuel fuel m s stop"

fun strrchr_loop :: "nat \<Rightarrow> memory \<Rightarrow> u32 \<Rightarrow> u8 \<Rightarrow> u32 \<Rightarrow> u32 res" where
  "strrchr_loop 0 m s c p = Inl OutOfFuel"
| "strrchr_loop (Suc k) m s c p =
     (if m s = 0 then Inr p else strrchr_loop k m (s + 1) c (if m s = c then s else p))"

definition strrchr :: "nat \<Rightarrow> memory \<Rightarrow> u32 \<Rightarrow> u8 \<Rightarrow> u32 res" where
  "strrchr fuel m s c = strrchr_loop fuel m s c 0"

fun strspn_loop :: "nat \<Rightarrow> nat \<Rightarrow> memory \<Rightarrow> u32 \<Rightarrow> u32 \<Rightarrow> nat \<Rightarrow> nat res" where
  "strspn_loop 0 fuel m s skip n = Inl OutOfFuel"
| "strspn_loop (Suc k) fuel m s skip n =
     (if m (s + of_nat n) = 0 then Inr n
      else rbind (strchr fuel m skip (m (s + of_nat n))) (\<lambda>p.
           if p = 0 then Inr n else strspn_loop k fuel m s skip (n + 1)))"

definition strspn :: "nat \<Rightarrow> memory \<Rightarrow> u32 \<Rightarrow> u32 \<Rightarrow> nat res" where
  "strspn fuel m s skip = strspn_loop fuel fuel m s skip 0"

fun strlen_loop :: "nat \<Rightarrow> memory \<Rightarrow> u32 \<Rightarrow> u32 res" where
  "strlen_loop 0 m p = Inl OutOfFuel"
| "strlen_loop (Suc k) m p = (if m p = 0 then Inr p else strlen_loop k m (p + 1))"

definition strlen :: "nat \<Rightarrow> memory \<Rightarrow> u32 \<Rightarrow> nat res" where
  "strlen fuel m s = rassert (s \<noteq> 0) (rbind (strlen_loop fuel m s) (\<lambda>p. Inr (unat (p - s))))"

fun strstr_loop :: "nat \<Rightarrow> memory \<Rightarrow> u32 \<Rightarrow> u32 \<Rightarrow> nat \<Rightarrow> nat \<Rightarrow> u32 res" where
  "strstr_loop 0 m haystack needle needle_len i = Inr 0"
| "strstr_loop (Suc k) m haystack needle needle_len i =
     rbind (memcmp m (haystack + of_nat i) needle needle_len) (\<lambda>c.
       if c = 0 then Inr (haystack + of_nat i) else strstr_loop k m haystack needle needle_len (i + 1))"

definition strstr :: "nat \<Rightarrow> memory \<Rightarrow> u32 \<Rightarrow> u32 \<Rightarrow> u32 res" where
  "strstr fuel m haystack needle =
     rbind (strlen fuel m haystack) (\<lambda>haystack_len.
     rbind (strlen fuel m needle) (\<lambda>needle_len.
       if haystack_len \<ge> needle_len
       then strstr_loop (haystack_len - needle_len + 1) m haystack needle needle_len 0
       else Inr 0))"

text \<open>The two loops of \<open>strtok_r\<close>. The first stops at the end of the string, reported by \<open>True\<close>, or at
  the first byte that is no delimiter.\<close>

fun skip_delimiters :: "nat \<Rightarrow> nat \<Rightarrow> memory \<Rightarrow> u32 \<Rightarrow> u32 \<Rightarrow> (bool \<times> u32) res" where
  "skip_delimiters 0 fuel m delimiters s = Inl OutOfFuel"
| "skip_delimiters (Suc k) fuel m delimiters s =
     rbind (strchr fuel m delimiters (m s)) (\<lambda>p.
       if p = 0 then Inr (False, s)
       else if m s = 0 then Inr (True, s)
       else skip_delimiters k fuel m delimiters (s + 1))"

fun find_delimiter :: "nat \<Rightarrow> nat \<Rightarrow> memory \<Rightarrow> u32 \<Rightarrow> u32 \<Rightarrow> u32 res" where
  "find_delimiter 0 fuel m delimiters s = Inl OutOfFuel"
| "find_delimiter (Suc k) fuel m delimiters s =
     rbind (strchr fuel m delimiters (m s)) (\<lambda>p.
       if p = 0 then find_delimiter k fuel m delimiters (s + 1) else Inr s)"

text \<open>\<open>save_ptr\<close> is the value of the caller's variable; the new value is returned beside the token.\<close>

definition strtok_r :: "nat \<Rightarrow> u32 \<Rightarrow> u32 \<Rightarrow> u32 \<Rightarrow> (memory, u32 \<times> u32) op" where
  "strtok_r fuel s delimiters save_ptr =
     bnd (ensure (delimiters \<noteq> 0)) (\<lambda>_.
     let s = (if s = 0 then save_ptr else s) in
     bnd (ensure (s \<noteq> 0)) (\<lambda>_.
     bnd (gets (\<lambda>m. m)) (\<lambda>m.
     bnd (lift_res (skip_delimiters fuel fuel m delimiters s)) (\<lambda>(ended, s).
       if ended then ret (0, s)
       else
         let token = s in
         bnd (lift_res (find_delimiter fuel fuel m delimiters s)) (\<lambda>s.
           if m s \<noteq> 0
           then bnd (modify (\<lambda>m. m(s := 0))) (\<lambda>_. ret (token, s + 1))
           else ret (token, s))))))"

fun memset_loop :: "nat \<Rightarrow> u32 \<Rightarrow> u8 \<Rightarrow> memory \<Rightarrow> memory" where
  "memset_loop 0 dst v m = m"
| "memset_loop (Suc n) dst v m = memset_loop n (dst + 1) v (m(dst := v))"

definition memset :: "u32 \<Rightarrow> int \<Rightarrow> nat \<Rightarrow> (memory, u32) op" where
  "memset dst v n =
     bnd (ensure (dst \<noteq> 0 \<or> n = 0)) (\<lambda>_.
     bnd (modify (memset_loop n dst (word_of_int v))) (\<lambda>_. ret dst))"

fun strnlen_loop :: "nat \<Rightarrow> memory \<Rightarrow> u32 \<Rightarrow> nat \<Rightarrow> nat" where
  "strnlen_loop 0 m s n = n"
| "strnlen_loop (Suc k) m s n = (if m (s + of_nat n) = 0 then n else strnlen_loop k m s (n + 1))"

definition strnlen :: "memory \<Rightarrow> u32 \<Rightarrow> nat \<Rightarrow> nat" where
  "strnlen m s maxlen = strnlen_loop maxlen m s 0"

definition strlcpy :: "nat \<Rightarrow> u32 \<Rightarrow> u32 \<Rightarrow> nat \<Rightarrow> (memory, nat) op" where
  "strlcpy fuel dst src n =
     bnd (ensure (dst \<noteq> 0)) (\<lambda>_.
     bnd (ensure (src \<noteq> 0)) (\<lambda>_.
     bnd (gets (\<lambda>m. strlen fuel m src)) (\<lambda>r.
     bnd (lift_res r) (\<lambda>src_len.
     if n > 0
     then let dst_len = (if src_len < n - 1 then src_len else n - 1) in
          bnd (memcpy dst src dst_len) (\<lambda>_.
          bnd (modify (\<lambda>m. m(dst + of_nat dst_len := 0))) (\<lambda>_. ret src_len))
     else ret src_len))))"

definition strlcat :: "nat \<Rightarrow> u32 \<Rightarrow> u32 \<Rightarrow> nat \<Rightarrow> (memory, nat) op" where
  "strlcat fuel dst src n =
     bnd (ensure (dst \<noteq> 0)) (\<lambda>_.
     bnd (ensure (src \<noteq> 0)) (\<lambda>_.
     bnd (gets (\<lambda>m. strlen fuel m src)) (\<lambda>r. bnd (lift_res r) (\<lambda>src_len.
     bnd (gets (\<lambda>m. strlen fuel m dst)) (\<lambda>r. bnd (lift_res r) (\<lambda>dst_len.
     if n > 0 \<and> dst_len < n
     then let copy_cnt = (if src_len < n - dst_len - 1 then src_len else n - dst_len - 1) in
          bnd (memcpy (dst + of_nat dst_len) src copy_cnt) (\<lambda>_.
          bnd (modify (\<lambda>m. m(dst + of_nat (dst_len + copy_cnt) := 0))) (\<lambda>_. ret (sz (src_len + dst_len))))
     else ret (sz (src_len + dst_len))))))))"

subsection \<open>Blocks\<close>

lemma in_block_first: "n < 2 ^ 32 \<Longrightarrow> in_block a (Suc n) x \<longleftrightarrow> x = a \<or> in_block (a + 1) n x"
proof -
  assume n: "n < 2 ^ 32"
  have e: "x - (a + 1) = (x - a) - 1" by simp
  have "x \<noteq> a \<Longrightarrow> unat (x - (a + 1)) = unat (x - a) - 1" unfolding e by (rule unat_minus_one) simp
  moreover have "x \<noteq> a \<Longrightarrow> 0 < unat (x - a)" by (simp add: unat_gt_0)
  moreover have "x = a \<Longrightarrow> in_block a (Suc n) x" by (simp add: in_block_def)
  ultimately show ?thesis unfolding in_block_def by (cases "x = a") auto
qed

lemma in_block_last: "n < 2 ^ 32 \<Longrightarrow> in_block a (Suc n) x \<longleftrightarrow> x = a + of_nat n \<or> in_block a n x"
proof -
  assume n: "n < 2 ^ 32"
  have "unat (x - a) = n \<longleftrightarrow> x = a + of_nat n"
  proof
    assume "unat (x - a) = n"
    then have "x - a = of_nat n" by auto
    then show "x = a + of_nat n" by (simp add: algebra_simps)
  qed (use n in \<open>simp add: unat_of_nat\<close>)
  then show ?thesis unfolding in_block_def by (auto simp: less_Suc_eq)
qed

lemma copy_up_ok:
  assumes "n \<le> 2 ^ 32" "\<And>i j. i < j \<Longrightarrow> j < n \<Longrightarrow> dst + of_nat i \<noteq> src + of_nat j"
  shows "copy_up n dst src m = mem_copy m dst src n"
  using assms
proof (induction n arbitrary: dst src m)
  case 0
  then show ?case by (simp add: mem_copy_def in_block_def)
next
  case (Suc n)
  let ?m = "m(dst := m src)"
  have "copy_up n (dst + 1) (src + 1) ?m = mem_copy ?m (dst + 1) (src + 1) n"
  proof (rule Suc.IH)
    show "dst + 1 + of_nat i \<noteq> src + 1 + of_nat j" if "i < j" "j < n" for i j
      using Suc.prems(2) [of "Suc i" "Suc j"] that by (simp add: algebra_simps)
  qed (use Suc.prems(1) in simp)
  moreover have "mem_copy ?m (dst + 1) (src + 1) n x = mem_copy m dst src (Suc n) x" for x
  proof (cases "in_block (dst + 1) n x")
    case True
    let ?j = "Suc (unat (x - (dst + 1)))"
    have "?j < Suc n" using True by (simp add: in_block_def)
    then have "dst \<noteq> src + of_nat ?j" using Suc.prems(2) [of 0 ?j] by simp
    moreover have "src + of_nat ?j = src + (x - dst)" by (simp add: algebra_simps)
    moreover have "src + 1 + (x - (dst + 1)) = src + (x - dst)" by simp
    ultimately show ?thesis using True Suc.prems(1) by (simp add: mem_copy_def in_block_first)
  next
    case False
    then show ?thesis using Suc.prems(1) by (auto simp: mem_copy_def in_block_first)
  qed
  ultimately show ?case by (simp add: fun_eq_iff)
qed

lemma copy_down_ok:
  assumes "n \<le> 2 ^ 32" "\<And>i j. i < j \<Longrightarrow> j < n \<Longrightarrow> a + of_nat j \<noteq> b + of_nat i"
  shows "copy_down n (a + of_nat n) (b + of_nat n) m = mem_copy m a b n"
  using assms
proof (induction n arbitrary: m)
  case 0
  then show ?case by (simp add: mem_copy_def in_block_def)
next
  case (Suc n)
  let ?m = "m(a + of_nat n := m (b + of_nat n))"
  have "copy_down n (a + of_nat n) (b + of_nat n) ?m = mem_copy ?m a b n"
    by (rule Suc.IH) (use Suc.prems in auto)
  moreover have "mem_copy ?m a b n x = mem_copy m a b (Suc n) x" for x
  proof (cases "in_block a n x")
    case True
    let ?i = "unat (x - a)"
    have "a + of_nat n \<noteq> b + of_nat ?i" using True Suc.prems(2) [of ?i n] by (simp add: in_block_def)
    then have "a + of_nat n \<noteq> b + (x - a)" by simp
    then show ?thesis using True Suc.prems(1) by (simp add: mem_copy_def in_block_last)
  next
    case False
    then show ?thesis using Suc.prems(1) by (auto simp: mem_copy_def in_block_last)
  qed
  ultimately show ?case by (simp add: fun_eq_iff algebra_simps)
qed

lemma memset_loop_ok: "n \<le> 2 ^ 32 \<Longrightarrow> memset_loop n dst v m = mem_fill m dst v n"
proof (induction n arbitrary: dst m)
  case (Suc n)
  then show ?case by (auto simp: mem_fill_def in_block_first fun_eq_iff)
qed (simp add: mem_fill_def in_block_def)

text \<open>Two indices into blocks that do not wrap around.\<close>

lemma unat_plus_index: "unat (a::u32) + i < 2 ^ 32 \<Longrightarrow> unat (a + of_nat i) = unat a + i"
  by (simp add: unat_word_ariths unat_of_nat)

text \<open>C28: \<open>memmove\<close> copies a block as if through a buffer: also when the two blocks overlap, every byte of
  the destination becomes the byte that was at the same place of the source before the call, and
  no other byte changes. The value returned is the destination only when it does not lie below
  the source; otherwise it is the end of the destination.\<close>

theorem memmove_exact:
  assumes "dst \<noteq> 0" and "src \<noteq> 0" and "unat dst + n \<le> 2 ^ 32" and "unat src + n \<le> 2 ^ 32"
  shows "memmove dst src n m = (Inr (if dst < src then dst + of_nat n else dst), mem_copy m dst src n)"
proof -
  have n: "n \<le> 2 ^ 32" using assms(3) by simp
  have d: "unat (dst + of_nat i) = unat dst + i" "unat (src + of_nat i) = unat src + i" if "i < n" for i
    using that assms(3,4) by (simp_all add: unat_plus_index)
  show ?thesis
  proof (cases "dst < src")
    case True
    have "dst + of_nat i \<noteq> src + of_nat j" if "i < j" "j < n" for i j
      using d [of i] d [of j] that True by (auto simp: word_unat_eq_iff word_less_nat_alt)
    then show ?thesis using True assms(1,2) copy_up_ok [OF n, of dst src m] by (simp add: memmove_def)
  next
    case False
    have "dst + of_nat j \<noteq> src + of_nat i" if "i < j" "j < n" for i j
      using d [of i] d [of j] that False by (auto simp: word_unat_eq_iff word_less_nat_alt)
    then show ?thesis using False assms(1,2) copy_down_ok [OF n, of dst src m] by (simp add: memmove_def)
  qed
qed

theorem memmove_witness:
  "memmove 100 102 4 (\<lambda>x. ucast x) = (Inr 104, mem_copy (\<lambda>x. ucast x) 100 102 4)"
  using memmove_exact [of 100 102 4 "\<lambda>x. ucast x"] by simp

subsection \<open>Terminated strings\<close>

fun cstr :: "memory \<Rightarrow> u32 \<Rightarrow> u8 list \<Rightarrow> bool" where
  "cstr m a [] \<longleftrightarrow> a \<noteq> 0 \<and> m a = 0"
| "cstr m a (b # bs) \<longleftrightarrow> a \<noteq> 0 \<and> b \<noteq> 0 \<and> m a = b \<and> cstr m (a + 1) bs"

lemma cstr_nonnull: "cstr m a bs \<Longrightarrow> a \<noteq> 0"
  by (cases bs) auto

lemma unat_next: "a + 1 \<noteq> 0 \<Longrightarrow> unat (a + 1 :: u32) = unat a + 1"
proof -
  assume "a + 1 \<noteq> 0"
  then have "unat (a + 1 - 1) = unat (a + 1) - 1" "0 < unat (a + 1)" by (rule unat_minus_one) (use \<open>a + 1 \<noteq> 0\<close> in \<open>simp add: unat_gt_0\<close>)
  then show ?thesis by simp
qed

lemma cstr_fits: "cstr m a bs \<Longrightarrow> unat a + length bs < 2 ^ 32"
proof (induction bs arbitrary: a)
  case Nil
  show ?case using unsigned_less [of a, where ?'a = nat] by simp
next
  case (Cons b bs)
  then have "unat (a + 1) + length bs < 2 ^ 32" "a + 1 \<noteq> 0" using cstr_nonnull by auto
  then show ?case by (simp add: unat_next)
qed

lemma cstr_append:
  "cstr m a (xs @ ys) \<longleftrightarrow> (\<forall>i < length xs. a + of_nat i \<noteq> 0 \<and> xs ! i \<noteq> 0 \<and> m (a + of_nat i) = xs ! i)
     \<and> cstr m (a + of_nat (length xs)) ys"
proof (induction xs arbitrary: a)
  case (Cons x xs)
  have "(\<forall>i < length (x # xs). a + of_nat i \<noteq> 0 \<and> (x # xs) ! i \<noteq> 0 \<and> m (a + of_nat i) = (x # xs) ! i)
      \<longleftrightarrow> (a \<noteq> 0 \<and> x \<noteq> 0 \<and> m a = x)
        \<and> (\<forall>i < length xs. a + 1 + of_nat i \<noteq> 0 \<and> xs ! i \<noteq> 0 \<and> m (a + 1 + of_nat i) = xs ! i)"
    unfolding length_Cons All_less_Suc2 by (simp add: add.assoc)
  then show ?case using Cons.IH [of "a + 1"] by (simp add: add.assoc)
qed simp

lemma cstr_iff:
  "cstr m a bs \<longleftrightarrow> a \<noteq> 0 \<and> unat a + length bs < 2 ^ 32
     \<and> (\<forall>i < length bs. bs ! i \<noteq> 0 \<and> m (a + of_nat i) = bs ! i) \<and> m (a + of_nat (length bs)) = 0"
proof
  assume c: "cstr m a bs"
  then show "a \<noteq> 0 \<and> unat a + length bs < 2 ^ 32
     \<and> (\<forall>i < length bs. bs ! i \<noteq> 0 \<and> m (a + of_nat i) = bs ! i) \<and> m (a + of_nat (length bs)) = 0"
    using cstr_append [of m a bs "[]"] cstr_nonnull [OF c] cstr_fits [OF c] by simp
next
  assume h: "a \<noteq> 0 \<and> unat a + length bs < 2 ^ 32
     \<and> (\<forall>i < length bs. bs ! i \<noteq> 0 \<and> m (a + of_nat i) = bs ! i) \<and> m (a + of_nat (length bs)) = 0"
  have "a + of_nat i \<noteq> 0" if "i \<le> length bs" for i
    using h that unat_plus_index [of a i] by (auto simp: word_unat_eq_iff)
  then show "cstr m a bs" using h cstr_append [of m a bs "[]"] by simp
qed

lemma cstr_cong:
  assumes "cstr m a bs" "\<And>i. i \<le> length bs \<Longrightarrow> m' (a + of_nat i) = m (a + of_nat i)"
  shows "cstr m' a bs"
  using assms by (simp add: cstr_iff)

lemma strlen_loop_ok: "cstr m a bs \<Longrightarrow> length bs < fuel \<Longrightarrow> strlen_loop fuel m a = Inr (a + of_nat (length bs))"
proof (induction bs arbitrary: a fuel)
  case (Cons b bs)
  then show ?case by (cases fuel) (auto simp: algebra_simps)
next
  case Nil
  then show ?case by (cases fuel) auto
qed

lemma strlen_ok: "cstr m a bs \<Longrightarrow> length bs < fuel \<Longrightarrow> strlen fuel m a = Inr (length bs)"
  using cstr_fits [of m a bs] by (simp add: strlen_def strlen_loop_ok cstr_nonnull unat_of_nat)

lemma strchr_ok:
  "cstr m a bs \<Longrightarrow> length bs < fuel \<Longrightarrow> \<exists>p. strchr fuel m a c = Inr p \<and> (p \<noteq> 0 \<longleftrightarrow> c = 0 \<or> c \<in> set bs)"
proof -
  have "\<exists>p. strchr_loop fuel m a c = Inr p \<and> (p \<noteq> 0 \<longleftrightarrow> c = 0 \<or> c \<in> set bs)"
    if "cstr m a bs" "length bs < fuel"
    using that
  proof (induction bs arbitrary: a fuel)
    case (Cons b bs)
    then obtain k where "fuel = Suc k" by (cases fuel) auto
    with Cons show ?case by auto
  next
    case Nil
    then show ?case by (cases fuel) auto
  qed
  then show "cstr m a bs \<Longrightarrow> length bs < fuel \<Longrightarrow> \<exists>p. strchr fuel m a c = Inr p \<and> (p \<noteq> 0 \<longleftrightarrow> c = 0 \<or> c \<in> set bs)"
    by (simp add: strchr_def cstr_nonnull)
qed

lemma memcpy_apart:
  assumes "dst \<noteq> 0" "src \<noteq> 0" "n \<le> 2 ^ 32" "\<And>i j. i < n \<Longrightarrow> j < n \<Longrightarrow> dst + of_nat i \<noteq> src + of_nat j"
  shows "memcpy dst src n m = (Inr dst, mem_copy m dst src n)"
  using assms copy_up_ok [of n dst src m] by (simp add: memcpy_def)

text \<open>C29: \<open>strlcpy\<close> into a buffer of \<open>n > 0\<close> bytes apart from the source always leaves a terminated string, the
  first \<open>n - 1\<close> bytes of the source at most, changes no byte outside the buffer, and returns the
  length of the source.\<close>

theorem strlcpy_terminated:
  assumes "cstr m src bs" and "length bs < fuel" and "dst \<noteq> 0" and "0 < n" and "unat dst + n \<le> 2 ^ 32"
    and "\<And>i j. i \<le> length bs \<Longrightarrow> j < n \<Longrightarrow> dst + of_nat j \<noteq> src + of_nat i"
  shows "\<exists>m'. strlcpy fuel dst src n m = (Inr (length bs), m') \<and> cstr m' dst (take (n - 1) bs)
    \<and> cstr m' src bs \<and> (\<forall>x. \<not> in_block dst n x \<longrightarrow> m' x = m x)"
proof -
  define k where "k = (if length bs < n - 1 then length bs else n - 1)"
  let ?m = "(mem_copy m dst src k)(dst + of_nat k := 0)"
  have k: "k < n" "k \<le> length bs" "take (n - 1) bs = take k bs" using assms(4) by (auto simp: k_def)
  have idx: "unat (dst + of_nat i - dst) = i" if "i \<le> k" for i
  proof -
    have "i < 2 ^ 32" using that k(1) assms(5) by linarith
    then show ?thesis by (simp add: unat_of_nat)
  qed
  have cp: "memcpy dst src k m = (Inr dst, mem_copy m dst src k)"
  proof (rule memcpy_apart)
    show "dst + of_nat i \<noteq> src + of_nat j" if "i < k" "j < k" for i j
      by (rule assms(6)) (use that k in linarith)+
  qed (use assms(3,5) cstr_nonnull [OF assms(1)] k(1) in linarith)+
  have run: "strlcpy fuel dst src n m = (Inr (length bs), ?m)"
    using assms(3,4) cstr_nonnull [OF assms(1)] cp
    by (cases "length bs < n - 1") (simp_all add: strlcpy_def Let_def strlen_ok [OF assms(1,2)] k_def)
  have out: "?m x = m x" if x: "\<not> in_block dst n x" for x
  proof -
    have "\<not> in_block dst k x" using x k(1) unfolding in_block_def by linarith
    moreover have "x \<noteq> dst + of_nat k" using x k(1) idx [OF order_refl] unfolding in_block_def by auto
    ultimately show ?thesis by (simp add: mem_copy_def)
  qed
  have "cstr ?m dst (take k bs)"
    unfolding cstr_iff
  proof (intro conjI allI impI)
    show "unat dst + length (take k bs) < 2 ^ 32" using k assms(5) by simp
    show "?m (dst + of_nat (length (take k bs))) = 0" using k(2) by (simp add: min_absorb2)
    fix i assume "i < length (take k bs)"
    then have i: "i < k" "i < length bs" by simp_all
    have "dst + of_nat i \<noteq> dst + of_nat k" using i(1) idx [of i] idx [of k] by (metis less_imp_le less_irrefl order_refl)
    moreover have "in_block dst k (dst + of_nat i)" using i(1) idx [of i] by (simp add: in_block_def)
    moreover have "bs ! i \<noteq> 0" "m (src + of_nat i) = bs ! i" using i(2) assms(1) unfolding cstr_iff by blast+
    ultimately show "?m (dst + of_nat i) = take k bs ! i" "take k bs ! i \<noteq> 0"
      using i(1) by (simp_all add: mem_copy_def)
  qed (use assms(3) in simp)
  moreover have "cstr ?m src bs"
  proof (rule cstr_cong [OF assms(1)])
    fix i assume "i \<le> length bs"
    then have "\<not> in_block dst n (src + of_nat i)"
      using assms(6) [of i "unat (src + of_nat i - dst)"] by (auto simp: in_block_def)
    then show "?m (src + of_nat i) = m (src + of_nat i)" by (rule out)
  qed
  ultimately show ?thesis using run out k(3) by metis
qed

definition ex_memory :: memory where
  "ex_memory = (\<lambda>_. 0)(50 := 32, 100 := 97, 101 := 98, 102 := 32, 103 := 32, 104 := 99)"

lemma ex_memory_strings: "cstr ex_memory 100 [97, 98, 32, 32, 99]" "cstr ex_memory 50 [32]"
  by (simp_all add: ex_memory_def)

theorem strlcpy_witness:
  "\<exists>m'. strlcpy 6 200 100 4 ex_memory = (Inr 5, m') \<and> cstr m' 200 [97, 98, 32]
    \<and> cstr m' 100 [97, 98, 32, 32, 99] \<and> (\<forall>x. \<not> in_block 200 4 x \<longrightarrow> m' x = ex_memory x)"
proof -
  have "(200::u32) + of_nat j \<noteq> 100 + of_nat i" if "i \<le> 5" "j < 4" for i j
  proof -
    have "unat (200 + of_nat j :: u32) = 200 + j" "unat (100 + of_nat i :: u32) = 100 + i"
      using that by (simp_all add: unat_plus_index)
    with that show ?thesis by (auto simp: word_unat_eq_iff)
  qed
  then have "\<exists>m'. strlcpy 6 200 100 4 ex_memory = (Inr (length [97, 98, 32, 32, 99 :: u8]), m')
      \<and> cstr m' 200 (take (4 - 1) [97, 98, 32, 32, 99]) \<and> cstr m' 100 [97, 98, 32, 32, 99]
      \<and> (\<forall>x. \<not> in_block 200 4 x \<longrightarrow> m' x = ex_memory x)"
    by (intro strlcpy_terminated [OF ex_memory_strings(1)]) simp_all
  moreover have "length [97, 98, 32, 32, 99 :: u8] = 5" "take (4 - 1) [97, 98, 32, 32, 99 :: u8] = [97, 98, 32]"
    by simp_all
  ultimately show ?thesis by (simp only:)
qed

subsection \<open>Tokens\<close>

lemma skip_delimiters_ok:
  assumes "cstr m ds dbs" "length dbs < fuel"
  shows "cstr m s bs \<Longrightarrow> length bs < k \<Longrightarrow> skip_delimiters k fuel m ds s
    = Inr (dropWhile (\<lambda>b. b \<in> set dbs) bs = [], s + of_nat (length (takeWhile (\<lambda>b. b \<in> set dbs) bs)))"
proof (induction bs arbitrary: s k)
  case Nil
  then show ?case using strchr_ok [OF assms, of 0] by (cases k) auto
next
  case (Cons b bs)
  then obtain j where "k = Suc j" by (cases k) auto
  moreover obtain p where "strchr fuel m ds b = Inr p" "p \<noteq> 0 \<longleftrightarrow> b \<in> set dbs"
    using strchr_ok [OF assms, of b] Cons.prems(1) by auto
  ultimately show ?case using Cons by (auto simp: algebra_simps)
qed

lemma find_delimiter_ok:
  assumes "cstr m ds dbs" "length dbs < fuel"
  shows "cstr m s bs \<Longrightarrow> length bs < k \<Longrightarrow> find_delimiter k fuel m ds s
    = Inr (s + of_nat (length (takeWhile (\<lambda>b. b \<notin> set dbs) bs)))"
proof (induction bs arbitrary: s k)
  case Nil
  then show ?case using strchr_ok [OF assms, of 0] by (cases k) auto
next
  case (Cons b bs)
  then obtain j where "k = Suc j" by (cases k) auto
  moreover obtain p where "strchr fuel m ds b = Inr p" "p \<noteq> 0 \<longleftrightarrow> b \<in> set dbs"
    using strchr_ok [OF assms, of b] Cons.prems(1) by auto
  ultimately show ?case using Cons by (auto simp: algebra_simps)
qed

text \<open>What one call of \<open>strtok_r\<close> finds in a string: nothing, or a token and what is left to scan.\<close>

definition next_token :: "u8 set \<Rightarrow> u8 list \<Rightarrow> (u8 list \<times> u8 list) option" where
  "next_token D bs =
    (let ws = dropWhile (\<lambda>b. b \<in> D) bs in
     if ws = [] then None
     else Some (takeWhile (\<lambda>b. b \<notin> D) ws, tl (dropWhile (\<lambda>b. b \<notin> D) ws)))"

definition apart :: "u32 \<Rightarrow> nat \<Rightarrow> u32 \<Rightarrow> nat \<Rightarrow> bool" where
  "apart a n b k \<longleftrightarrow> (\<forall>i \<le> n. \<forall>j \<le> k. a + of_nat i \<noteq> b + of_nat j)"

lemma strtok_none:
  assumes "cstr m ds dbs" "cstr m a bs" "length dbs < fuel" "length bs < fuel" "next_token (set dbs) bs = None"
    "a = (if s = 0 then save else s)"
  shows "\<exists>p. strtok_r fuel s ds save m = (Inr (0, p), m)"
  using assms skip_delimiters_ok [OF assms(1,3,2,4)] cstr_nonnull [OF assms(1)] cstr_nonnull [OF assms(2)]
  by (auto simp: strtok_r_def next_token_def Let_def split: if_splits)

lemma cstr_truncate:
  assumes "cstr m a (xs @ ys)"
  shows "cstr (m(a + of_nat (length xs) := 0)) a xs"
proof -
  have "a + of_nat i \<noteq> a + of_nat (length xs)" if "i < length xs" for i
    using that cstr_fits [OF assms] unat_plus_index [of a i] unat_plus_index [of a "length xs"]
    by (auto simp: word_unat_eq_iff)
  moreover have "xs ! i \<noteq> 0 \<and> m (a + of_nat i) = xs ! i" if "i < length xs" for i
    using that assms cstr_append [of m a xs ys] by blast
  ultimately show ?thesis
    using cstr_nonnull [OF assms] cstr_fits [OF assms] unfolding cstr_iff by (auto simp del: of_nat_add)
qed

lemma next_token_split:
  assumes "next_token D bs = Some (t, rest)"
  obtains pre rs where "bs = pre @ t @ rs" "rest = tl rs" "takeWhile (\<lambda>b. b \<in> D) bs = pre"
    "dropWhile (\<lambda>b. b \<in> D) bs = t @ rs" "t @ rs \<noteq> []" "takeWhile (\<lambda>b. b \<notin> D) (t @ rs) = t"
proof -
  let ?ws = "dropWhile (\<lambda>b. b \<in> D) bs"
  have "?ws \<noteq> []" and t: "t = takeWhile (\<lambda>b. b \<notin> D) ?ws" and "rest = tl (dropWhile (\<lambda>b. b \<notin> D) ?ws)"
    using assms by (auto simp: next_token_def Let_def split: if_splits)
  moreover have "t @ dropWhile (\<lambda>b. b \<notin> D) ?ws = ?ws" unfolding t by simp
  ultimately show thesis
    using that [of "takeWhile (\<lambda>b. b \<in> D) bs" "dropWhile (\<lambda>b. b \<notin> D) ?ws"] by (simp only: takeWhile_dropWhile_id) simp
qed

lemma strtok_found:
  assumes "skip_delimiters fuel fuel m ds a = Inr (False, p)" "find_delimiter fuel fuel m ds p = Inr e"
    "ds \<noteq> 0" "a \<noteq> 0" "a = (if s = 0 then save else s)"
  shows "strtok_r fuel s ds save m = (if m e \<noteq> 0 then (Inr (p, e + 1), m(e := 0)) else (Inr (p, e), m))"
  unfolding strtok_r_def assms(5) [symmetric] Let_def using assms(1-4) by simp

lemma strtok_some:
  assumes "cstr m ds dbs" "cstr m a bs" "length dbs < fuel" "length bs < fuel"
    "next_token (set dbs) bs = Some (t, rest)" "a = (if s = 0 then save else s)"
  shows "\<exists>o1 o2 m'. strtok_r fuel s ds save m = (Inr (a + of_nat o1, a + of_nat o2), m')
    \<and> o1 + length t \<le> o2 \<and> o2 + length rest = length bs \<and> (o2 = o1 + length t \<longrightarrow> rest = [])
    \<and> cstr m' (a + of_nat o1) t \<and> cstr m' (a + of_nat o2) rest
    \<and> (\<forall>x. x \<noteq> a + of_nat (o1 + length t) \<longrightarrow> m' x = m x) \<and> m' (a + of_nat (o1 + length t)) = 0"
proof -
  obtain pre rs where sp: "bs = pre @ t @ rs" "rest = tl rs" "takeWhile (\<lambda>b. b \<in> set dbs) bs = pre"
      "dropWhile (\<lambda>b. b \<in> set dbs) bs = t @ rs" "t @ rs \<noteq> []" "takeWhile (\<lambda>b. b \<notin> set dbs) (t @ rs) = t"
    by (rule next_token_split [OF assms(5)])
  define p e where "p = a + of_nat (length pre)" and "e = p + of_nat (length t)"
  have pe: "e = a + of_nat (length pre + length t)" by (simp add: p_def e_def add.assoc)
  have ct: "cstr m p (t @ rs)" using assms(2) unfolding sp(1) p_def cstr_append [of m a pre] by (rule conjunct2)
  then have ce: "cstr m e rs" unfolding e_def cstr_append [of m p t] by (rule conjunct2)
  have sk: "skip_delimiters fuel fuel m ds a = Inr (False, p)"
    using skip_delimiters_ok [OF assms(1,3,2,4)] sp(5) unfolding sp(3,4) p_def by (simp only: simp_thms)
  have "length (t @ rs) < fuel" using assms(4) unfolding sp(1) by simp
  then have fi: "find_delimiter fuel fuel m ds p = Inr e"
    using find_delimiter_ok [OF assms(1,3) ct] unfolding sp(6) e_def by blast
  note run = strtok_found [OF sk fi cstr_nonnull [OF assms(1)] cstr_nonnull [OF assms(2)] assms(6)]
  have tok: "cstr (m(e := 0)) p t" using cstr_truncate [OF ct] unfolding e_def .
  show ?thesis
  proof (cases rs)
    case Nil
    then have z: "m e = 0" using ce by simp
    then have "m(e := 0) = m" by (rule fun_upd_idem)
    then show ?thesis using tok ce z Nil run unfolding sp(1,2) p_def pe
      by (intro exI [of _ "length pre"] exI [of _ "length pre + length t"] exI [of _ m]) simp
  next
    case (Cons d ys)
    then have d: "m e \<noteq> 0" "cstr m (e + 1) ys" using ce by auto
    have e1: "e + 1 = a + of_nat (Suc (length pre + length t))" by (simp add: pe algebra_simps)
    have "cstr (m(e := 0)) (e + 1) ys"
    proof (rule cstr_cong [OF d(2)])
      fix i assume "i \<le> length ys"
      then have "unat e + (1 + i) < 2 ^ 32" using cstr_fits [OF ce] Cons by simp
      then have "e + of_nat (1 + i) \<noteq> e" using unat_plus_index [of e "1 + i"] by (auto simp: word_unat_eq_iff)
      then show "(m(e := 0)) (e + 1 + of_nat i) = m (e + 1 + of_nat i)" by (simp add: add.assoc)
    qed
    then show ?thesis
      using tok d(1) Cons run unfolding sp(1,2) e1 unfolding p_def pe
      by (intro exI [of _ "length pre"] exI [of _ "Suc (length pre + length t)"]
            exI [of _ "m(a + of_nat (length pre + length t) := 0)"]) (simp del: of_nat_add of_nat_Suc)
  qed
qed

text \<open>The loop that every caller of \<open>strtok_r\<close> runs: the first call gets the string, the later ones the
  null pointer, until the null pointer comes back. \<open>words_of\<close> is the list of pieces it stands for.\<close>

fun strtok_all :: "nat \<Rightarrow> nat \<Rightarrow> u32 \<Rightarrow> u32 \<Rightarrow> u32 \<Rightarrow> (memory, u32 list) op" where
  "strtok_all 0 fuel s ds save = fail OutOfFuel"
| "strtok_all (Suc k) fuel s ds save =
     bnd (strtok_r fuel s ds save) (\<lambda>(token, save).
       if token = 0 then ret [] else bnd (strtok_all k fuel 0 ds save) (\<lambda>ts. ret (token # ts)))"

lemma next_token_shorter: "next_token D bs = Some (t, rest) \<Longrightarrow> length rest < length bs"
proof -
  assume "next_token D bs = Some (t, rest)"
  then have ws: "dropWhile (\<lambda>b. b \<in> D) bs \<noteq> []" "rest = tl (dropWhile (\<lambda>b. b \<notin> D) (dropWhile (\<lambda>b. b \<in> D) bs))"
    by (auto simp: next_token_def Let_def split: if_splits)
  then obtain b bs' where d: "dropWhile (\<lambda>b. b \<in> D) bs = b # bs'" by (cases "dropWhile (\<lambda>b. b \<in> D) bs") auto
  then have "b \<notin> D" by (metis hd_dropWhile list.sel(1) list.simps(3))
  then have "length rest \<le> length (dropWhile (\<lambda>b. b \<notin> D) bs')" using ws d by simp
  also have "\<dots> \<le> length bs'" by (rule length_dropWhile_le)
  also have "\<dots> < length bs" using d length_dropWhile_le [of "\<lambda>b. b \<in> D" bs] by simp
  finally show ?thesis .
qed

function tokens :: "u8 set \<Rightarrow> u8 list \<Rightarrow> u8 list list" where
  "tokens D bs = (case next_token D bs of None \<Rightarrow> [] | Some (t, rest) \<Rightarrow> t # tokens D rest)"
  by auto
termination by (relation "measure (\<lambda>(D, bs). length bs)") (auto dest: next_token_shorter)

declare tokens.simps [simp del]

text \<open>C15: Calling \<open>strtok_r\<close> until it returns null splits a string: the pointers returned are, in order, those of
  the maximal nonempty pieces of the string that contain no delimiter, each of them terminated in
  place, and no byte outside the string changes.\<close>

theorem strtok_splits:
  assumes "cstr m ds dbs" and "cstr m a bs" and "length dbs < fuel" and "length bs < fuel" and "length bs < k"
    and "apart ds (length dbs) a (length bs)" and "a = (if s = 0 then save else s)"
  shows "\<exists>ps m'. strtok_all k fuel s ds save m = (Inr ps, m') \<and> list_all2 (cstr m') ps (tokens (set dbs) bs)
    \<and> (\<forall>x. \<not> in_block a (length bs) x \<longrightarrow> m' x = m x)"
  using assms
proof (induction k arbitrary: m a bs s save)
  case (Suc k)
  show ?case
  proof (cases "next_token (set dbs) bs")
    case None
    then obtain p where "strtok_r fuel s ds save m = (Inr (0, p), m)"
      using strtok_none [OF Suc.prems(1-4) None Suc.prems(7)] by blast
    then show ?thesis using None by (simp add: tokens.simps)
  next
    case (Some tr)
    obtain t rest where tr: "next_token (set dbs) bs = Some (t, rest)" using Some by (cases tr) simp
    then obtain o1 o2 m1 where run: "strtok_r fuel s ds save m = (Inr (a + of_nat o1, a + of_nat o2), m1)"
        and o: "o1 + length t \<le> o2" "o2 + length rest = length bs" "o2 = o1 + length t \<longrightarrow> rest = []"
        and c: "cstr m1 (a + of_nat o1) t" "cstr m1 (a + of_nat o2) rest"
        and m1: "\<forall>x. x \<noteq> a + of_nat (o1 + length t) \<longrightarrow> m1 x = m x" "m1 (a + of_nat (o1 + length t)) = 0"
      using strtok_some [OF Suc.prems(1-4) tr Suc.prems(7)] by blast
    note len = next_token_shorter [OF tr]
    have fit: "unat a + length bs < 2 ^ 32" using cstr_fits [OF Suc.prems(2)] .
    have apart: "ds + of_nat i \<noteq> a + of_nat j" if "i \<le> length dbs" "j \<le> length bs" for i j
      using Suc.prems(6) that by (simp add: apart_def)
    have ap: "apart ds (length dbs) (a + of_nat o2) (length rest)"
      unfolding apart_def
    proof (intro allI impI)
      fix i j assume "i \<le> length dbs" "j \<le> length rest"
      then have "ds + of_nat i \<noteq> a + of_nat (o2 + j)" using apart [of i "o2 + j"] o(2) by simp
      then show "ds + of_nat i \<noteq> a + of_nat o2 + of_nat j" by (simp add: add.assoc)
    qed
    have ds: "cstr m1 ds dbs"
    proof (rule cstr_cong [OF Suc.prems(1)])
      fix i assume "i \<le> length dbs"
      then have "ds + of_nat i \<noteq> a + of_nat (o1 + length t)" using apart [of i "o1 + length t"] o(1,2) by simp
      then show "m1 (ds + of_nat i) = m (ds + of_nat i)" using m1(1) by blast
    qed
    obtain ps m' where IH: "strtok_all k fuel 0 ds (a + of_nat o2) m1 = (Inr ps, m')"
        "list_all2 (cstr m') ps (tokens (set dbs) rest)" "\<forall>x. \<not> in_block (a + of_nat o2) (length rest) x \<longrightarrow> m' x = m1 x"
      using Suc.IH [OF ds c(2) Suc.prems(3) _ _ ap, of 0 "a + of_nat o2"] len Suc.prems(4,5) by auto
    have o2: "unat (a + of_nat o2) = unat a + o2" using fit o(2) by (intro unat_plus_index) linarith
    have "cstr m' (a + of_nat o1) t"
    proof (rule cstr_cong [OF c(1)])
      fix i assume "i \<le> length t"
      have i: "unat (a + of_nat (o1 + i)) = unat a + (o1 + i)"
        using fit o \<open>i \<le> length t\<close> by (intro unat_plus_index) linarith
      have "\<not> in_block (a + of_nat o2) (length rest) (a + of_nat (o1 + i))"
      proof (cases "o2 = o1 + length t")
        case False
        then have "unat a + (o1 + i) < unat a + o2" using o \<open>i \<le> length t\<close> by linarith
        then show ?thesis using fit o(2) by (subst in_block_interval) (simp_all add: i o2 del: of_nat_add)
      qed (use o in \<open>simp add: in_block_def\<close>)
      then show "m' (a + of_nat o1 + of_nat i) = m1 (a + of_nat o1 + of_nat i)" using IH(3) by (simp add: add.assoc)
    qed
    moreover have "m' x = m x" if x: "\<not> in_block a (length bs) x" for x
    proof -
      have "\<not> in_block (a + of_nat o2) (length rest) x"
      proof
        assume "in_block (a + of_nat o2) (length rest) x"
        then have "in_block a (length bs) x"
          using fit o(2) in_block_interval [of "a + of_nat o2" "length rest" x] in_block_interval [of a "length bs" x]
          by (simp add: o2)
        with x show False by simp
      qed
      then have "m' x = m1 x" using IH(3) by blast
      also have "\<dots> = m x"
      proof (cases "x = a + of_nat (o1 + length t)")
        case True
        have e: "unat (x - a) = o1 + length t"
        proof -
          have "o1 + length t < 2 ^ 32" using fit o(1,2) by linarith
          then show ?thesis using True by (simp add: unat_of_nat del: of_nat_add)
        qed
        then have "o1 + length t = length bs" using x o(1,2) by (simp add: in_block_def)
        then have "m x = 0" using Suc.prems(2) True by (simp add: cstr_iff)
        then show ?thesis using True m1(2) by simp
      qed (use m1(1) in blast)
      finally show ?thesis .
    qed
    moreover have "a + of_nat o1 \<noteq> 0" using cstr_nonnull [OF c(1)] .
    ultimately show ?thesis
      using run IH(1,2) tr by (intro exI [of _ "(a + of_nat o1) # ps"] exI [of _ m']) (simp add: tokens.simps)
  qed
qed simp

lemma ex_tokens: "tokens {32} [97, 98, 32, 32, 99] = [[97, 98], [99]]"
proof -
  have "next_token {32} [97, 98, 32, 32, 99 :: u8] = Some ([97, 98], [32, 99])"
    "next_token {32} [32, 99 :: u8] = Some ([99], [])" "next_token {32} [] = None"
    by (simp_all add: next_token_def)
  then show ?thesis by (simp add: tokens.simps)
qed

theorem strtok_witness:
  "\<exists>ps m'. strtok_all 6 6 100 50 0 ex_memory = (Inr ps, m') \<and> list_all2 (cstr m') ps [[97, 98], [99]]
    \<and> (\<forall>x. \<not> in_block 100 5 x \<longrightarrow> m' x = ex_memory x)"
proof -
  have "apart 50 (length [32 :: u8]) 100 (length [97, 98, 32, 32, 99 :: u8])"
    unfolding apart_def
  proof (intro allI impI)
    fix i j assume "i \<le> length [32 :: u8]" "j \<le> length [97, 98, 32, 32, 99 :: u8]"
    then show "(50::u32) + of_nat i \<noteq> 100 + of_nat j"
      using unat_plus_index [of 50 i] unat_plus_index [of 100 j] by (auto simp: word_unat_eq_iff)
  qed
  then have "\<exists>ps m'. strtok_all 6 6 100 50 0 ex_memory = (Inr ps, m')
      \<and> list_all2 (cstr m') ps (tokens (set [32]) [97, 98, 32, 32, 99])
      \<and> (\<forall>x. \<not> in_block 100 (length [97, 98, 32, 32, 99 :: u8]) x \<longrightarrow> m' x = ex_memory x)"
    by (intro strtok_splits [OF ex_memory_strings(2,1)]) simp_all
  moreover have "length [97, 98, 32, 32, 99 :: u8] = 5" "set [32 :: u8] = {32}" by simp_all
  ultimately show ?thesis by (simp only: ex_tokens)
qed

subsection \<open>Comparison\<close>

text \<open>C30: \<open>strcmp\<close> orders strings as byte sequences: on two terminated strings it returns zero exactly when they
  are equal, and a negative number exactly when the first precedes the second in the lexicographic
  order of unsigned bytes.\<close>

theorem strcmp_lexicographic:
  assumes "cstr m a as" and "cstr m b bs" and "length as < fuel"
  shows "\<exists>r. strcmp fuel m a b = Inr r \<and> (r = 0 \<longleftrightarrow> as = bs)
    \<and> (r < 0 \<longleftrightarrow> (as, bs) \<in> lexord {(x, y). x < y})"
proof -
  have "\<exists>r. strcmp_loop fuel m a b = Inr r \<and> (r = 0 \<longleftrightarrow> as = bs) \<and> (r < 0 \<longleftrightarrow> (as, bs) \<in> lexord {(x, y). x < y})"
    using assms
  proof (induction as arbitrary: a b bs fuel)
    case Nil
    then show ?case by (cases fuel; cases bs) (auto simp: word_gt_0 word_less_nat_alt unat_gt_0)
  next
    case (Cons x as)
    obtain k where k: "fuel = Suc k" using Cons.prems(3) by (cases fuel) auto
    show ?case
    proof (cases bs)
      case Nil
      then show ?thesis using Cons.prems k by (auto simp: word_gt_0)
    next
      case (Cons y ys)
      then show ?thesis
        using Cons.IH [of "a + 1" "b + 1" ys k] Cons.prems k by (cases "x = y") auto
    qed
  qed
  then show ?thesis using cstr_nonnull [OF assms(1)] cstr_nonnull [OF assms(2)] by (simp add: strcmp_def)
qed

theorem strcmp_witness:
  "\<exists>r. strcmp 6 ex_memory 100 50 = Inr r \<and> (r = 0 \<longleftrightarrow> [97, 98, 32, 32, 99 :: u8] = [32])
    \<and> (r < 0 \<longleftrightarrow> ([97, 98, 32, 32, 99 :: u8], [32]) \<in> lexord {(x, y). x < y})"
  by (rule strcmp_lexicographic [OF ex_memory_strings]) simp

end
