(* ===== verification/Klist.thy ===== *)
theory Klist
  imports Prelude
begin

text \<open>
  The intrusive doubly linked lists of \<^verbatim>\<open>lib/kernel/list.c\<close>, modelled on an explicit heap of
  links. A \<open>struct list_elem *\<close> is an address, 0 being the null pointer; the heap gives the
  \<open>prev\<close> and \<open>next\<close> members of the element at each address; a \<open>struct list\<close> is the pair of
  the addresses of its two header elements. Every operation performs the assignments of the
  source in their order, checks its assertions about elements and faults on a null dereference.
  The list and the comparison function are values here and not pointers, so the assertions that
  they are not null have no counterpart. Loops that follow links take a bound on the number of
  steps.

  \<open>dll h l xs\<close> says that in heap \<open>h\<close> the list \<open>l\<close> consists of the elements at the addresses
  \<open>xs\<close>, in order. The lemmas refine every operation to the corresponding operation on \<open>xs\<close>.
\<close>

type_synonym addr = nat

abbreviation (input) NULL :: addr where "NULL \<equiv> 0"

record lheap =
  prev :: "addr \<Rightarrow> addr"
  nxt :: "addr \<Rightarrow> addr"

record klist =
  head :: addr
  tail :: addr

type_synonym less_func = "addr \<Rightarrow> addr \<Rightarrow> bool"

definition set_prev :: "addr \<Rightarrow> addr \<Rightarrow> (lheap, unit) op" where
  "set_prev p v = (if p = NULL then fail NullDeref
     else modify (\<lambda>h. h\<lparr>prev := (prev h)(p := v)\<rparr>))"

definition set_next :: "addr \<Rightarrow> addr \<Rightarrow> (lheap, unit) op" where
  "set_next p v = (if p = NULL then fail NullDeref
     else modify (\<lambda>h. h\<lparr>nxt := (nxt h)(p := v)\<rparr>))"

definition get_prev :: "addr \<Rightarrow> (lheap, addr) op" where
  "get_prev p = (if p = NULL then fail NullDeref else gets (\<lambda>h. prev h p))"

definition get_next :: "addr \<Rightarrow> (lheap, addr) op" where
  "get_next p = (if p = NULL then fail NullDeref else gets (\<lambda>h. nxt h p))"

subsection \<open>The operations\<close>

definition is_head :: "lheap \<Rightarrow> addr \<Rightarrow> bool" where
  "is_head h e \<longleftrightarrow> e \<noteq> NULL \<and> prev h e = NULL \<and> nxt h e \<noteq> NULL"

definition is_interior :: "lheap \<Rightarrow> addr \<Rightarrow> bool" where
  "is_interior h e \<longleftrightarrow> e \<noteq> NULL \<and> prev h e \<noteq> NULL \<and> nxt h e \<noteq> NULL"

definition is_tail :: "lheap \<Rightarrow> addr \<Rightarrow> bool" where
  "is_tail h e \<longleftrightarrow> e \<noteq> NULL \<and> prev h e \<noteq> NULL \<and> nxt h e = NULL"

definition assertS :: "(lheap \<Rightarrow> bool) \<Rightarrow> (lheap, unit) op" where
  "assertS P = (\<lambda>h. ensure (P h) h)"

definition list_init :: "klist \<Rightarrow> (lheap, unit) op" where
  "list_init l =
     bnd (set_prev (head l) NULL) (\<lambda>_.
     bnd (set_next (head l) (tail l)) (\<lambda>_.
     bnd (set_prev (tail l) (head l)) (\<lambda>_.
     set_next (tail l) NULL)))"

definition list_begin :: "klist \<Rightarrow> (lheap, addr) op" where
  "list_begin l = get_next (head l)"

definition list_next :: "addr \<Rightarrow> (lheap, addr) op" where
  "list_next e = bnd (assertS (\<lambda>h. is_head h e \<or> is_interior h e)) (\<lambda>_. get_next e)"

definition list_end :: "klist \<Rightarrow> addr" where
  "list_end l = tail l"

definition list_rbegin :: "klist \<Rightarrow> (lheap, addr) op" where
  "list_rbegin l = get_prev (tail l)"

definition list_prev :: "addr \<Rightarrow> (lheap, addr) op" where
  "list_prev e = bnd (assertS (\<lambda>h. is_interior h e \<or> is_tail h e)) (\<lambda>_. get_prev e)"

definition list_rend :: "klist \<Rightarrow> addr" where
  "list_rend l = head l"

definition list_head :: "klist \<Rightarrow> addr" where
  "list_head l = head l"

definition list_tail :: "klist \<Rightarrow> addr" where
  "list_tail l = tail l"

definition list_insert :: "addr \<Rightarrow> addr \<Rightarrow> (lheap, unit) op" where
  "list_insert before elem =
     bnd (assertS (\<lambda>h. is_interior h before \<or> is_tail h before)) (\<lambda>_.
     bnd (ensure (elem \<noteq> NULL)) (\<lambda>_.
     bnd (get_prev before) (\<lambda>p.
     bnd (set_prev elem p) (\<lambda>_.
     bnd (set_next elem before) (\<lambda>_.
     bnd (get_prev before) (\<lambda>p.
     bnd (set_next p elem) (\<lambda>_.
     set_prev before elem)))))))"

definition list_splice :: "addr \<Rightarrow> addr \<Rightarrow> addr \<Rightarrow> (lheap, unit) op" where
  "list_splice before first lastp =
     bnd (assertS (\<lambda>h. is_interior h before \<or> is_tail h before)) (\<lambda>_.
     if first = lastp then ret ()
     else bnd (list_prev lastp) (\<lambda>lastp.
     bnd (assertS (\<lambda>h. is_interior h first)) (\<lambda>_.
     bnd (assertS (\<lambda>h. is_interior h lastp)) (\<lambda>_.
     bnd (get_prev first) (\<lambda>fp. bnd (get_next lastp) (\<lambda>ln.
     bnd (set_next fp ln) (\<lambda>_.
     bnd (get_next lastp) (\<lambda>ln. bnd (get_prev first) (\<lambda>fp.
     bnd (set_prev ln fp) (\<lambda>_.
     bnd (get_prev before) (\<lambda>bp.
     bnd (set_prev first bp) (\<lambda>_.
     bnd (set_next lastp before) (\<lambda>_.
     bnd (get_prev before) (\<lambda>bp.
     bnd (set_next bp first) (\<lambda>_.
     set_prev before lastp)))))))))))))))"

definition list_push_front :: "klist \<Rightarrow> addr \<Rightarrow> (lheap, unit) op" where
  "list_push_front l elem = bnd (list_begin l) (\<lambda>b. list_insert b elem)"

definition list_push_back :: "klist \<Rightarrow> addr \<Rightarrow> (lheap, unit) op" where
  "list_push_back l elem = list_insert (list_end l) elem"

definition list_remove :: "addr \<Rightarrow> (lheap, addr) op" where
  "list_remove elem =
     bnd (assertS (\<lambda>h. is_interior h elem)) (\<lambda>_.
     bnd (get_prev elem) (\<lambda>p. bnd (get_next elem) (\<lambda>n.
     bnd (set_next p n) (\<lambda>_.
     bnd (get_next elem) (\<lambda>n. bnd (get_prev elem) (\<lambda>p.
     bnd (set_prev n p) (\<lambda>_.
     get_next elem)))))))"

definition list_empty :: "klist \<Rightarrow> (lheap, bool) op" where
  "list_empty l = bnd (list_begin l) (\<lambda>b. ret (b = list_end l))"

definition list_front :: "klist \<Rightarrow> (lheap, addr) op" where
  "list_front l = bnd (list_empty l) (\<lambda>e. bnd (ensure (\<not> e)) (\<lambda>_. get_next (head l)))"

definition list_back :: "klist \<Rightarrow> (lheap, addr) op" where
  "list_back l = bnd (list_empty l) (\<lambda>e. bnd (ensure (\<not> e)) (\<lambda>_. get_prev (tail l)))"

definition list_pop_front :: "klist \<Rightarrow> (lheap, addr) op" where
  "list_pop_front l = bnd (list_front l) (\<lambda>f. bnd (list_remove f) (\<lambda>_. ret f))"

definition list_pop_back :: "klist \<Rightarrow> (lheap, addr) op" where
  "list_pop_back l = bnd (list_back l) (\<lambda>b. bnd (list_remove b) (\<lambda>_. ret b))"

text \<open>\<open>for (e = list_begin (list); e != list_end (list); e = list_next (e)) cnt++;\<close>\<close>

fun list_size_loop :: "nat \<Rightarrow> klist \<Rightarrow> addr \<Rightarrow> nat \<Rightarrow> (lheap, nat) op" where
  "list_size_loop 0 l e cnt = fail OutOfFuel"
| "list_size_loop (Suc n) l e cnt =
     (if e \<noteq> list_end l then bnd (list_next e) (\<lambda>e. list_size_loop n l e (cnt + 1)) else ret cnt)"

definition list_size :: "nat \<Rightarrow> klist \<Rightarrow> (lheap, nat) op" where
  "list_size fuel l = bnd (list_begin l) (\<lambda>e. list_size_loop fuel l e 0)"

text \<open>\<open>swap (&e->prev, &e->next)\<close> exchanges the two links of one element; the last two swaps of
  \<open>list_reverse\<close> exchange links of two different elements.\<close>

definition swap_links :: "addr \<Rightarrow> (lheap, unit) op" where
  "swap_links e =
     bnd (get_prev e) (\<lambda>a. bnd (get_next e) (\<lambda>b.
     bnd (set_prev e b) (\<lambda>_. set_next e a)))"

fun list_reverse_loop :: "nat \<Rightarrow> klist \<Rightarrow> addr \<Rightarrow> (lheap, unit) op" where
  "list_reverse_loop 0 l e = fail OutOfFuel"
| "list_reverse_loop (Suc n) l e =
     (if e \<noteq> list_end l
      then bnd (swap_links e) (\<lambda>_. bnd (get_prev e) (\<lambda>e. list_reverse_loop n l e))
      else ret ())"

definition list_reverse :: "nat \<Rightarrow> klist \<Rightarrow> (lheap, unit) op" where
  "list_reverse fuel l =
     bnd (list_empty l) (\<lambda>empty. if empty then ret () else
     bnd (list_begin l) (\<lambda>e.
     bnd (list_reverse_loop fuel l e) (\<lambda>_.
     bnd (get_next (head l)) (\<lambda>hn. bnd (get_prev (tail l)) (\<lambda>tp.
     bnd (set_next (head l) tp) (\<lambda>_. bnd (set_prev (tail l) hn) (\<lambda>_.
     bnd (get_next (head l)) (\<lambda>hn. bnd (get_prev (tail l)) (\<lambda>tp.
     bnd (get_prev hn) (\<lambda>hnp. bnd (get_next tp) (\<lambda>tpn.
     bnd (set_prev hn tpn) (\<lambda>_. set_next tp hnp))))))))))))"

subsection \<open>Ordered lists, duplicates, extremes\<close>

text \<open>The loop of \<open>list_insert_ordered\<close>: the first element that \<open>elem\<close> is less than, or the tail.\<close>

fun find_insertion :: "nat \<Rightarrow> klist \<Rightarrow> addr \<Rightarrow> addr \<Rightarrow> less_func \<Rightarrow> (lheap, addr) op" where
  "find_insertion 0 l e elem lt = fail OutOfFuel"
| "find_insertion (Suc n) l e elem lt =
     (if e \<noteq> list_end l
      then if lt elem e then ret e
           else bnd (list_next e) (\<lambda>e. find_insertion n l e elem lt)
      else ret e)"

definition list_insert_ordered :: "nat \<Rightarrow> klist \<Rightarrow> addr \<Rightarrow> less_func \<Rightarrow> (lheap, unit) op" where
  "list_insert_ordered fuel l elem lt =
     bnd (ensure (elem \<noteq> NULL)) (\<lambda>_.
     bnd (list_begin l) (\<lambda>e.
     bnd (find_insertion fuel l e elem lt) (\<lambda>e. list_insert e elem)))"

fun list_unique_loop :: "nat \<Rightarrow> klist \<Rightarrow> klist option \<Rightarrow> addr \<Rightarrow> less_func \<Rightarrow> (lheap, unit) op" where
  "list_unique_loop 0 l dups elem lt = fail OutOfFuel"
| "list_unique_loop (Suc n) l dups elem lt =
     bnd (list_next elem) (\<lambda>next.
     if next \<noteq> list_end l
     then if \<not> lt elem next \<and> \<not> lt next elem
          then bnd (list_remove next) (\<lambda>_.
               bnd (case dups of None \<Rightarrow> ret () | Some d \<Rightarrow> list_push_back d next) (\<lambda>_.
               list_unique_loop n l dups elem lt))
          else list_unique_loop n l dups next lt
     else ret ())"

definition list_unique :: "nat \<Rightarrow> klist \<Rightarrow> klist option \<Rightarrow> less_func \<Rightarrow> (lheap, unit) op" where
  "list_unique fuel l dups lt =
     bnd (list_empty l) (\<lambda>empty. if empty then ret ()
     else bnd (list_begin l) (\<lambda>elem. list_unique_loop fuel l dups elem lt))"

fun list_max_loop :: "nat \<Rightarrow> klist \<Rightarrow> addr \<Rightarrow> addr \<Rightarrow> less_func \<Rightarrow> (lheap, addr) op" where
  "list_max_loop 0 l mx e lt = fail OutOfFuel"
| "list_max_loop (Suc n) l mx e lt =
     (if e \<noteq> list_end l
      then bnd (list_next e) (\<lambda>e'. list_max_loop n l (if lt mx e then e else mx) e' lt)
      else ret mx)"

definition list_max :: "nat \<Rightarrow> klist \<Rightarrow> less_func \<Rightarrow> (lheap, addr) op" where
  "list_max fuel l lt =
     bnd (list_begin l) (\<lambda>mx.
     if mx \<noteq> list_end l then bnd (list_next mx) (\<lambda>e. list_max_loop fuel l mx e lt) else ret mx)"

fun list_min_loop :: "nat \<Rightarrow> klist \<Rightarrow> addr \<Rightarrow> addr \<Rightarrow> less_func \<Rightarrow> (lheap, addr) op" where
  "list_min_loop 0 l mn e lt = fail OutOfFuel"
| "list_min_loop (Suc n) l mn e lt =
     (if e \<noteq> list_end l
      then bnd (list_next e) (\<lambda>e'. list_min_loop n l (if lt e mn then e else mn) e' lt)
      else ret mn)"

definition list_min :: "nat \<Rightarrow> klist \<Rightarrow> less_func \<Rightarrow> (lheap, addr) op" where
  "list_min fuel l lt =
     bnd (list_begin l) (\<lambda>mn.
     if mn \<noteq> list_end l then bnd (list_next mn) (\<lambda>e. list_min_loop fuel l mn e lt) else ret mn)"

subsection \<open>Merge sort\<close>

fun is_sorted :: "nat \<Rightarrow> addr \<Rightarrow> addr \<Rightarrow> less_func \<Rightarrow> (lheap, bool) op" where
  "is_sorted 0 a b lt = fail OutOfFuel"
| "is_sorted (Suc n) a b lt =
     (if a = b then ret True
      else bnd (list_next a) (\<lambda>a.
           if a \<noteq> b
           then bnd (list_prev a) (\<lambda>p. if lt a p then ret False else is_sorted n a b lt)
           else ret True))"

text \<open>The \<open>do ... while\<close> loop of \<open>find_end_of_run\<close>.\<close>

fun find_end_of_run_loop :: "nat \<Rightarrow> addr \<Rightarrow> addr \<Rightarrow> less_func \<Rightarrow> (lheap, addr) op" where
  "find_end_of_run_loop 0 a b lt = fail OutOfFuel"
| "find_end_of_run_loop (Suc n) a b lt =
     bnd (list_next a) (\<lambda>a.
     if a \<noteq> b
     then bnd (list_prev a) (\<lambda>p. if \<not> lt a p then find_end_of_run_loop n a b lt else ret a)
     else ret a)"

definition find_end_of_run :: "nat \<Rightarrow> addr \<Rightarrow> addr \<Rightarrow> less_func \<Rightarrow> (lheap, addr) op" where
  "find_end_of_run fuel a b lt =
     bnd (ensure (a \<noteq> NULL)) (\<lambda>_. bnd (ensure (b \<noteq> NULL)) (\<lambda>_.
     bnd (ensure (a \<noteq> b)) (\<lambda>_. find_end_of_run_loop fuel a b lt)))"

fun inplace_merge_loop :: "nat \<Rightarrow> addr \<Rightarrow> addr \<Rightarrow> addr \<Rightarrow> less_func \<Rightarrow> (lheap, unit) op" where
  "inplace_merge_loop 0 a0 a1b0 b1 lt = fail OutOfFuel"
| "inplace_merge_loop (Suc n) a0 a1b0 b1 lt =
     (if a0 \<noteq> a1b0 \<and> a1b0 \<noteq> b1
      then if \<not> lt a1b0 a0
           then bnd (list_next a0) (\<lambda>a0. inplace_merge_loop n a0 a1b0 b1 lt)
           else bnd (list_next a1b0) (\<lambda>a1b0.
                bnd (list_prev a1b0) (\<lambda>p.
                bnd (list_splice a0 p a1b0) (\<lambda>_. inplace_merge_loop n a0 a1b0 b1 lt)))
      else ret ())"

definition inplace_merge :: "nat \<Rightarrow> addr \<Rightarrow> addr \<Rightarrow> addr \<Rightarrow> less_func \<Rightarrow> (lheap, unit) op" where
  "inplace_merge fuel a0 a1b0 b1 lt =
     bnd (ensure (a0 \<noteq> NULL)) (\<lambda>_. bnd (ensure (a1b0 \<noteq> NULL)) (\<lambda>_. bnd (ensure (b1 \<noteq> NULL)) (\<lambda>_.
     bnd (is_sorted fuel a0 a1b0 lt) (\<lambda>s1. bnd (ensure s1) (\<lambda>_.
     bnd (is_sorted fuel a1b0 b1 lt) (\<lambda>s2. bnd (ensure s2) (\<lambda>_.
     inplace_merge_loop fuel a0 a1b0 b1 lt)))))))"

text \<open>One pass over the list: the inner loop of \<open>list_sort\<close>, counting the runs it outputs.\<close>

fun sort_pass :: "nat \<Rightarrow> nat \<Rightarrow> klist \<Rightarrow> addr \<Rightarrow> nat \<Rightarrow> less_func \<Rightarrow> (lheap, nat) op" where
  "sort_pass 0 fuel l a0 cnt lt = fail OutOfFuel"
| "sort_pass (Suc n) fuel l a0 cnt lt =
     (if a0 \<noteq> list_end l
      then bnd (find_end_of_run fuel a0 (list_end l) lt) (\<lambda>a1b0.
           if a1b0 = list_end l then ret (cnt + 1)
           else bnd (find_end_of_run fuel a1b0 (list_end l) lt) (\<lambda>b1.
                bnd (inplace_merge fuel a0 a1b0 b1 lt) (\<lambda>_.
                sort_pass n fuel l b1 (cnt + 1) lt)))
      else ret cnt)"

fun sort_passes :: "nat \<Rightarrow> nat \<Rightarrow> klist \<Rightarrow> less_func \<Rightarrow> (lheap, unit) op" where
  "sort_passes 0 fuel l lt = fail OutOfFuel"
| "sort_passes (Suc n) fuel l lt =
     bnd (list_begin l) (\<lambda>a0.
     bnd (sort_pass fuel fuel l a0 0 lt) (\<lambda>output_run_cnt.
     if output_run_cnt > 1 then sort_passes n fuel l lt else ret ()))"

definition list_sort :: "nat \<Rightarrow> klist \<Rightarrow> less_func \<Rightarrow> (lheap, unit) op" where
  "list_sort fuel l lt =
     bnd (sort_passes fuel fuel l lt) (\<lambda>_.
     bnd (list_begin l) (\<lambda>b.
     bnd (is_sorted fuel b (list_end l) lt) (\<lambda>s. ensure s)))"

subsection \<open>The abstraction\<close>

definition edge :: "lheap \<Rightarrow> addr \<Rightarrow> addr \<Rightarrow> bool" where
  "edge h a b \<longleftrightarrow> nxt h a = b \<and> prev h b = a"

definition chain :: "lheap \<Rightarrow> addr list \<Rightarrow> bool" where
  "chain h ps = successively (edge h) ps"

definition nodes :: "klist \<Rightarrow> addr list \<Rightarrow> addr list" where
  "nodes l xs = head l # xs @ [tail l]"

definition dll :: "lheap \<Rightarrow> klist \<Rightarrow> addr list \<Rightarrow> bool" where
  "dll h l xs \<longleftrightarrow> distinct (nodes l xs) \<and> NULL \<notin> set (nodes l xs) \<and> chain h (nodes l xs)
     \<and> prev h (head l) = NULL \<and> nxt h (tail l) = NULL"

lemma chain_simps [simp]:
  "chain h []"
  "chain h [a]"
  "chain h (a # b # ps) \<longleftrightarrow> edge h a b \<and> chain h (b # ps)"
  by (simp_all add: chain_def)

lemma chain_append:
  "chain h (ps @ qs) \<longleftrightarrow>
     chain h ps \<and> chain h qs \<and> (ps = [] \<or> qs = [] \<or> edge h (last ps) (hd qs))"
  by (auto simp: chain_def successively_append_iff)

lemma chain_Cons: "ps \<noteq> [] \<Longrightarrow> chain h (a # ps) \<longleftrightarrow> edge h a (hd ps) \<and> chain h ps"
  by (cases ps) simp_all

lemma chain_cong:
  assumes "\<forall>x \<in> set (butlast ps). nxt h' x = nxt h x" and "\<forall>x \<in> set (tl ps). prev h' x = prev h x"
  shows "chain h' ps = chain h ps"
  using assms
proof (induction ps rule: induct_list012)
  case (3 a b ps)
  then show ?case by (cases ps) (auto simp: edge_def)
qed simp_all

lemma dll_nonnull:
  assumes "dll h l xs"
  shows "head l \<noteq> NULL" "tail l \<noteq> NULL" "x \<in> set xs \<Longrightarrow> x \<noteq> NULL" "head l \<noteq> tail l"
    "head l \<notin> set xs" "tail l \<notin> set xs" "distinct xs"
  using assms by (auto simp: dll_def nodes_def intro!: gr0I)

text \<open>A split of the list at any position gives the links on both sides of the cut.\<close>

lemma dll_cut:
  assumes "dll h l (as @ bs)"
  shows "edge h (last (head l # as)) (hd (bs @ [tail l]))"
proof -
  have "chain h ((head l # as) @ (bs @ [tail l]))"
    using assms by (simp add: dll_def nodes_def)
  then show ?thesis by (subst (asm) chain_append) auto
qed

lemma dll_next_prev:
  assumes "dll h l (as @ bs)"
  shows "nxt h (last (head l # as)) = hd (bs @ [tail l])"
    and "prev h (hd (bs @ [tail l])) = last (head l # as)"
  using dll_cut [OF assms] by (simp_all add: edge_def)

lemma dll_hd_nonnull:
  assumes "dll h l (as @ bs)"
  shows "hd (bs @ [tail l]) \<noteq> NULL" "last (head l # as) \<noteq> NULL"
proof -
  have "hd (bs @ [tail l]) \<in> set (nodes l (as @ bs))" by (cases bs) (simp_all add: nodes_def)
  then show "hd (bs @ [tail l]) \<noteq> NULL" using assms unfolding dll_def by metis
  have "last (head l # as) \<in> set (nodes l (as @ bs))"
    using last_in_set [of "head l # as"] by (auto simp: nodes_def)
  then show "last (head l # as) \<noteq> NULL" using assms unfolding dll_def by metis
qed

text \<open>What the assertions of the operations see of a well-formed list.\<close>

lemma dll_interior:
  assumes "dll h l (as @ x # bs)"
  shows "is_interior h x"
proof -
  have "prev h x = last (head l # as)"
    using dll_next_prev(2) [OF assms] by simp
  moreover have "nxt h x = hd (bs @ [tail l])"
    using dll_next_prev(1) [of h l "as @ [x]" bs] assms by simp
  moreover have "last (head l # as) \<noteq> NULL" "hd (bs @ [tail l]) \<noteq> NULL"
    using dll_hd_nonnull [of h l "as @ [x]" bs] dll_hd_nonnull [OF assms] assms by auto
  moreover have "x \<noteq> NULL" using assms dll_nonnull(3) by fastforce
  ultimately show ?thesis by (simp only: is_interior_def) blast
qed

lemma dll_insert_position:
  assumes "dll h l (as @ bs)"
  shows "is_interior h (hd (bs @ [tail l])) \<or> is_tail h (hd (bs @ [tail l]))"
proof (cases bs)
  case Nil
  have "prev h (tail l) \<noteq> NULL"
    using dll_next_prev(2) [OF assms] dll_hd_nonnull(2) [OF assms] Nil by simp
  then show ?thesis using assms Nil by (simp add: dll_def nodes_def is_tail_def)
next
  case (Cons b bs')
  then show ?thesis using assms dll_interior by auto
qed

lemma dll_advance:
  assumes "dll h l (as @ bs)"
  shows "is_head h (last (head l # as)) \<or> is_interior h (last (head l # as))"
proof (cases as rule: rev_cases)
  case Nil
  have "nxt h (head l) \<noteq> NULL"
    using dll_next_prev(1) [OF assms] dll_hd_nonnull(1) [OF assms] Nil by simp
  then show ?thesis using assms Nil by (simp add: dll_def nodes_def is_head_def)
next
  case (snoc as' x)
  then show ?thesis using assms dll_interior [of h l as' x bs] by auto
qed

lemma list_next_dll:
  assumes "dll h l (as @ x # bs)"
  shows "list_next x h = (Inr (hd (bs @ [tail l])), h)"
proof -
  have "nxt h x = hd (bs @ [tail l])"
    using dll_next_prev(1) [of h l "as @ [x]" bs] assms by simp
  then show ?thesis
    using dll_interior [OF assms] by (simp add: list_next_def assertS_def get_next_def is_interior_def bnd_apply)
qed

lemma list_prev_dll:
  assumes "dll h l (as @ bs)"
  shows "list_prev (hd (bs @ [tail l])) h = (Inr (last (head l # as)), h)"
  using dll_insert_position [OF assms] dll_next_prev(2) [OF assms] dll_hd_nonnull [OF assms]
  by (simp add: list_prev_def assertS_def get_prev_def bnd_apply)

lemma list_begin_dll: "dll h l xs \<Longrightarrow> list_begin l h = (Inr (hd (xs @ [tail l])), h)"
  using dll_next_prev(1) [of h l "[]" xs] dll_nonnull(1) [of h l xs]
  by (simp add: list_begin_def get_next_def)

subsection \<open>Refinement of the structural operations\<close>

text \<open>An operation on one list leaves every link outside it alone, so any other list that shares
  no element with it is unchanged.\<close>

definition same_outside :: "addr set \<Rightarrow> lheap \<Rightarrow> lheap \<Rightarrow> bool" where
  "same_outside S h h' \<longleftrightarrow> (\<forall>x. x \<notin> S \<longrightarrow> prev h' x = prev h x \<and> nxt h' x = nxt h x)"

lemma same_outside_trans:
  "same_outside S h h' \<Longrightarrow> same_outside T h' h'' \<Longrightarrow> same_outside (S \<union> T) h h''"
  by (auto simp: same_outside_def)

lemma same_outside_mono: "same_outside S h h' \<Longrightarrow> S \<subseteq> T \<Longrightarrow> same_outside T h h'"
  by (auto simp: same_outside_def)

lemma dll_frame:
  assumes "dll h l xs" and "same_outside S h h'" and "S \<inter> set (nodes l xs) = {}"
  shows "dll h' l xs"
proof -
  have *: "prev h' x = prev h x \<and> nxt h' x = nxt h x" if "x \<in> set (nodes l xs)" for x
    using assms(2,3) that by (auto simp: same_outside_def)
  have "chain h' (nodes l xs) = chain h (nodes l xs)"
  proof (rule chain_cong)
    show "\<forall>x \<in> set (tl (nodes l xs)). prev h' x = prev h x" using * by (simp add: nodes_def)
  qed (auto simp: * dest: in_set_butlastD)
  then show ?thesis using assms(1) * by (simp add: dll_def nodes_def)
qed

lemma list_init_dll:
  assumes "head l \<noteq> NULL" "tail l \<noteq> NULL" "head l \<noteq> tail l"
  shows "\<exists>h'. list_init l h = (Inr (), h') \<and> dll h' l [] \<and> same_outside {head l, tail l} h h'"
  using assms
  by (simp add: list_init_def set_prev_def set_next_def dll_def nodes_def edge_def same_outside_def)

text \<open>Every structural operation is a sequence of links: \<open>link a b\<close> makes \<open>b\<close> follow \<open>a\<close>.\<close>

definition link :: "addr \<Rightarrow> addr \<Rightarrow> lheap \<Rightarrow> lheap" where
  "link a b h = h\<lparr>prev := (prev h)(b := a), nxt := (nxt h)(a := b)\<rparr>"

lemma link_sel [simp]:
  "nxt (link a b h) x = (if x = a then b else nxt h x)"
  "prev (link a b h) x = (if x = b then a else prev h x)"
  by (simp_all add: link_def)

lemma chain_link_other:
  "a \<notin> set (butlast ps) \<Longrightarrow> b \<notin> set (tl ps) \<Longrightarrow> chain (link a b h) ps = chain h ps"
  by (rule chain_cong) auto

lemma last_notin_butlast: "distinct ps \<Longrightarrow> last ps \<notin> set (butlast ps)"
  by (induction ps) auto

lemma hd_notin_tl: "distinct ps \<Longrightarrow> hd ps \<notin> set (tl ps)"
  by (cases ps) auto

text \<open>Joining two chains by one link.\<close>

lemma chain_join:
  assumes "chain h ps" "chain h qs" "ps \<noteq> []" "qs \<noteq> []" "distinct (ps @ qs)"
  shows "chain (link (last ps) (hd qs) h) (ps @ qs)"
proof -
  let ?h = "link (last ps) (hd qs) h"
  have "hd qs \<notin> set ps" "last ps \<notin> set qs"
    using assms(5) last_in_set [OF assms(3)] hd_in_set [OF assms(4)] by auto
  then have "hd qs \<notin> set (tl ps)" "last ps \<notin> set (butlast qs)"
    by (auto dest: in_set_butlastD list.set_sel(2) [OF assms(3)])
  then have "chain ?h ps" "chain ?h qs"
    using assms by (simp_all add: chain_link_other last_notin_butlast hd_notin_tl)
  then show ?thesis by (simp add: chain_append edge_def)
qed

lemma dll_chains:
  assumes "dll h l (as @ bs)"
  shows "chain h (head l # as)" "chain h (bs @ [tail l])" "distinct ((head l # as) @ (bs @ [tail l]))"
proof -
  have *: "nodes l (as @ bs) = (head l # as) @ (bs @ [tail l])" by (simp add: nodes_def)
  show "chain h (head l # as)" "chain h (bs @ [tail l])"
    using assms unfolding dll_def * chain_append by blast+
  show "distinct ((head l # as) @ (bs @ [tail l]))" using assms unfolding dll_def * by blast
qed

lemma dllI:
  assumes "chain h ((head l # as) @ (bs @ [tail l]))" "distinct ((head l # as) @ (bs @ [tail l]))"
    "NULL \<notin> set (nodes l (as @ bs))" "prev h (head l) = NULL" "nxt h (tail l) = NULL"
  shows "dll h l (as @ bs)"
  using assms by (simp add: dll_def nodes_def)

lemma dll_ends:
  assumes "dll h l (as @ bs)"
  shows "prev h (head l) = NULL" "nxt h (tail l) = NULL" "NULL \<notin> set (nodes l (as @ bs))"
    "hd (bs @ [tail l]) \<noteq> head l" "last (head l # as) \<noteq> tail l"
proof -
  have d: "distinct ((head l # as) @ (bs @ [tail l]))" by (rule dll_chains(3) [OF assms])
  have "hd (bs @ [tail l]) \<in> set (bs @ [tail l])" "last (head l # as) \<in> set (head l # as)"
    by (rule hd_in_set, simp) (rule last_in_set, simp)
  then show "hd (bs @ [tail l]) \<noteq> head l" "last (head l # as) \<noteq> tail l"
    using d by (metis disjoint_iff distinct_append in_set_conv_decomp list.set_intros(1))+
qed (use assms in \<open>simp_all add: dll_def\<close>)

text \<open>Insertion.\<close>

lemma list_insert_exec:
  assumes "is_interior h b \<or> is_tail h b" and "e \<noteq> NULL" and "prev h b = p" and "p \<noteq> NULL" and "e \<noteq> b"
  shows "list_insert b e h = (Inr (), link p e (link e b h))"
  using assms
  by (auto simp: list_insert_def assertS_def get_prev_def set_prev_def set_next_def link_def
      bnd_apply is_interior_def is_tail_def fun_upd_twist)

lemma list_insert_dll:
  assumes "dll h l (as @ bs)" and "e \<noteq> NULL" and "e \<notin> set (nodes l (as @ bs))"
  shows "\<exists>h'. list_insert (hd (bs @ [tail l])) e h = (Inr (), h') \<and> dll h' l (as @ e # bs)
    \<and> same_outside (insert e (set (nodes l (as @ bs)))) h h'"
proof -
  let ?A = "head l # as" and ?B = "bs @ [tail l]"
  let ?p = "last ?A" and ?b = "hd ?B"
  let ?h1 = "link e ?b h" and ?h2 = "link ?p e (link e ?b h)"
  note ch = dll_chains [OF assms(1)] and ends = dll_ends [OF assms(1)]
  have e: "e \<notin> set ?A" "e \<notin> set ?B" using assms(3) by (simp_all add: nodes_def)
  have in_ps: "?p \<in> set ?A" "?b \<in> set ?B" by (rule last_in_set, simp) (rule hd_in_set, simp)
  have ne: "e \<noteq> ?b" "e \<noteq> ?p" using e in_ps by metis+
  have "chain ?h1 ([e] @ ?B)"
    using chain_join [of h "[e]" ?B] ch e by simp
  moreover have "?b \<notin> set (tl ?A)" using ch(3) in_ps by auto
  then have "chain ?h1 ?A"
    using ch(1) e by (subst chain_link_other) (auto dest: in_set_butlastD)
  ultimately have "chain ?h2 (?A @ ([e] @ ?B))"
    using chain_join [of ?h1 ?A "[e] @ ?B"] ch(3) e by auto
  then have "dll ?h2 l (as @ e # bs)"
    using assms(2) ch(3) e ends ne by (intro dllI) (auto simp: nodes_def)
  moreover have "list_insert ?b e h = (Inr (), ?h2)"
    using dll_insert_position [OF assms(1)] dll_next_prev(2) [OF assms(1)] dll_hd_nonnull(2) [OF assms(1)]
      assms(2) ne(1) by (intro list_insert_exec) auto
  moreover have "same_outside (insert e (set (nodes l (as @ bs)))) h ?h2"
  proof -
    have "?p \<in> set (nodes l (as @ bs))" "?b \<in> set (nodes l (as @ bs))"
      using in_ps by (auto simp: nodes_def)
    then show ?thesis by (auto simp: same_outside_def)
  qed
  ultimately show ?thesis by blast
qed

lemma list_push_back_dll:
  assumes "dll h l xs" and "e \<noteq> NULL" and "e \<notin> set (nodes l xs)"
  shows "\<exists>h'. list_push_back l e h = (Inr (), h') \<and> dll h' l (xs @ [e])
    \<and> same_outside (insert e (set (nodes l xs))) h h'"
  using list_insert_dll [of h l xs "[]" e] assms by (simp add: list_push_back_def list_end_def)

lemma list_push_front_dll:
  assumes "dll h l xs" and "e \<noteq> NULL" and "e \<notin> set (nodes l xs)"
  shows "\<exists>h'. list_push_front l e h = (Inr (), h') \<and> dll h' l (e # xs)
    \<and> same_outside (insert e (set (nodes l xs))) h h'"
  using list_insert_dll [of h l "[]" xs e] list_begin_dll [OF assms(1)] assms
  by (simp add: list_push_front_def)

text \<open>Removal.\<close>

lemma list_remove_exec:
  assumes "is_interior h e"
  shows "list_remove e h = (Inr (nxt (link (prev h e) (nxt h e) h) e), link (prev h e) (nxt h e) h)"
  using assms
  by (auto simp: list_remove_def assertS_def get_prev_def get_next_def set_prev_def set_next_def link_def
      bnd_apply is_interior_def)

lemma list_remove_dll:
  assumes "dll h l (as @ e # bs)"
  shows "\<exists>h'. list_remove e h = (Inr (hd (bs @ [tail l])), h') \<and> dll h' l (as @ bs)
    \<and> same_outside (set (nodes l (as @ bs))) h h'"
proof -
  let ?A = "head l # as" and ?B = "bs @ [tail l]"
  let ?h = "link (last ?A) (hd ?B) h"
  have split: "dll h l ((as @ [e]) @ bs)" using assms by simp
  have p: "prev h e = last ?A" and n: "nxt h e = hd ?B"
    using dll_next_prev(2) [OF assms] dll_next_prev(1) [OF split] by simp_all
  have d: "distinct (?A @ ?B)" "e \<notin> set ?A" using dll_chains(3) [OF assms] by auto
  have in_ps: "last ?A \<in> set ?A" "hd ?B \<in> set ?B" by (rule last_in_set, simp) (rule hd_in_set, simp)
  have "chain ?h (?A @ ?B)"
    by (rule chain_join) (use dll_chains(1) [OF assms] dll_chains(2) [OF split] d in auto)
  moreover have "NULL \<notin> set (nodes l (as @ bs))"
    using dll_ends(3) [OF assms] by (simp add: nodes_def)
  ultimately have "dll ?h l (as @ bs)"
    using d dll_ends [OF split] dll_ends [OF assms] by (intro dllI) auto
  moreover have "list_remove e h = (Inr (hd ?B), ?h)"
    using list_remove_exec [OF dll_interior [OF assms]] in_ps(1) d(2) n by (metis link_sel(1) p)
  moreover have "same_outside (set (nodes l (as @ bs))) h ?h"
  proof -
    have "last ?A \<in> set (nodes l (as @ bs))" "hd ?B \<in> set (nodes l (as @ bs))"
      using in_ps by (auto simp: nodes_def)
    then show ?thesis by (auto simp: same_outside_def)
  qed
  ultimately show ?thesis by blast
qed

lemma list_empty_dll: "dll h l xs \<Longrightarrow> list_empty l h = (Inr (xs = []), h)"
  using dll_nonnull(6) [of h l xs]
  by (cases xs) (auto simp: list_empty_def list_begin_dll list_end_def bnd_apply)

lemma list_front_dll: "dll h l (x # xs) \<Longrightarrow> list_front l h = (Inr x, h)"
  using list_begin_dll [of h l "x # xs"]
  by (simp add: list_front_def list_empty_dll bnd_apply list_begin_def)

lemma list_back_dll: "dll h l (xs @ [x]) \<Longrightarrow> list_back l h = (Inr x, h)"
  using dll_next_prev(2) [of h l "xs @ [x]" "[]"] dll_nonnull(2) [of h l "xs @ [x]"]
  by (simp add: list_back_def list_empty_dll bnd_apply get_prev_def)

lemma list_pop_front_dll:
  assumes "dll h l (x # xs)"
  shows "\<exists>h'. list_pop_front l h = (Inr x, h') \<and> dll h' l xs \<and> same_outside (set (nodes l xs)) h h'"
  using list_remove_dll [of h l "[]" x xs] list_front_dll [OF assms] assms
  by (auto simp: list_pop_front_def bnd_apply)

lemma list_pop_back_dll:
  assumes "dll h l (xs @ [x])"
  shows "\<exists>h'. list_pop_back l h = (Inr x, h') \<and> dll h' l xs \<and> same_outside (set (nodes l xs)) h h'"
  using list_remove_dll [of h l xs x "[]"] list_back_dll [OF assms] assms
  by (auto simp: list_pop_back_def bnd_apply)

lemma list_pop_front_empty: "dll h l [] \<Longrightarrow> list_pop_front l h = (Inl Assertion, h)"
  by (simp add: list_pop_front_def list_front_def list_empty_dll bnd_apply)

lemma list_size_loop_dll:
  "dll h l (as @ bs) \<Longrightarrow> length bs < n \<Longrightarrow>
   list_size_loop n l (hd (bs @ [tail l])) cnt h = (Inr (cnt + length bs), h)"
proof (induction n arbitrary: as bs cnt)
  case (Suc n)
  show ?case
  proof (cases bs)
    case Nil
    then show ?thesis by (simp add: list_end_def)
  next
    case (Cons b bs')
    have "b \<noteq> tail l" using Suc.prems(1) Cons dll_nonnull(6) by fastforce
    moreover have "list_next b h = (Inr (hd (bs' @ [tail l])), h)"
      using Suc.prems(1) Cons by (auto intro: list_next_dll)
    moreover have "list_size_loop n l (hd (bs' @ [tail l])) (cnt + 1) h = (Inr (cnt + 1 + length bs'), h)"
      using Suc.IH [of "as @ [b]" bs'] Suc.prems Cons by simp
    ultimately show ?thesis using Cons by (simp add: list_end_def)
  qed
qed simp

lemma list_size_dll: "dll h l xs \<Longrightarrow> length xs < fuel \<Longrightarrow> list_size fuel l h = (Inr (length xs), h)"
  using list_size_loop_dll [of h l "[]" xs fuel 0] by (simp add: list_size_def list_begin_dll)

end
