(* ===== verification/Klist_Sort.thy ===== *)
theory Klist_Sort
  imports Klist
begin

text \<open>
  Correctness of the algorithms of \<^verbatim>\<open>lib/kernel/list.c\<close> on well-formed lists: the natural merge
  sort \<open>list_sort\<close> with its helpers \<open>find_end_of_run\<close>, \<open>inplace_merge\<close>, \<open>is_sorted\<close> and
  \<open>list_splice\<close>, ordered insertion, reversal, and the search for extremes. Each loop over the
  heap is refined to a function on the list of addresses, about which the properties are then
  proved; the bounds on the iterations are shown to be enough, so the loops end.
\<close>

subsection \<open>Splicing within a list\<close>

lemma list_splice_exec:
  assumes "is_interior h b \<or> is_tail h b" "first \<noteq> stop" "list_prev stop h = (Inr lst, h)"
    "is_interior h first" "is_interior h lst"
    "prev h first = fp" "nxt h lst = ln" "prev h b = bp"
    "fp \<noteq> lst" "ln \<noteq> first" "ln \<noteq> b" "fp \<noteq> NULL" "ln \<noteq> NULL" "bp \<noteq> NULL" "b \<noteq> first"
    "bp \<noteq> lst" "bp \<noteq> fp"
  shows "list_splice b first stop h = (Inr (), link lst b (link bp first (link fp ln h)))"
proof -
  have "b \<noteq> NULL" "first \<noteq> NULL" "lst \<noteq> NULL"
    using assms(1,4,5) by (auto simp: is_interior_def is_tail_def)
  with assms show ?thesis
    by (simp add: list_splice_def assertS_def get_prev_def get_next_def set_prev_def set_next_def link_def)
      (simp add: fun_eq_iff)
qed

lemma chain_link_disjoint:
  assumes "a \<notin> set ps" "b \<notin> set ps"
  shows "chain (link a b h) ps = chain h ps"
proof (rule chain_link_other)
  show "a \<notin> set (butlast ps)" using assms(1) in_set_butlastD by fast
  show "b \<notin> set (tl ps)" using assms(2) by (cases ps) auto
qed

lemma chain_swap_segments:
  assumes ch: "chain h (A @ X @ M @ C)" and dist: "distinct (A @ X @ M @ C)"
    and ne: "A \<noteq> []" "X \<noteq> []" "M \<noteq> []" "C \<noteq> []"
  shows "chain (link (last M) (hd X) (link (last A) (hd M) (link (last X) (hd C) h))) (A @ M @ X @ C)"
proof -
  have chs: "chain h A" "chain h X" "chain h M" "chain h C"
    using ch unfolding chain_append by blast+
  have disj: "set A \<inter> set X = {}" "set A \<inter> set M = {}" "set A \<inter> set C = {}"
      "set X \<inter> set M = {}" "set X \<inter> set C = {}" "set M \<inter> set C = {}"
    using dist by auto
  have mem: "last A \<in> set A" "last X \<in> set X" "hd M \<in> set M" "hd C \<in> set C"
    using ne by simp_all
  have out: "last X \<notin> set A" "hd C \<notin> set A" "last X \<notin> set M" "hd C \<notin> set M"
      "last A \<notin> set X" "last A \<notin> set C" "hd M \<notin> set X" "hd M \<notin> set C"
    using mem disj by blast+
  have 1: "chain (link (last X) (hd C) h) (X @ C)" "chain (link (last X) (hd C) h) A"
      "chain (link (last X) (hd C) h) M"
    using chain_join [OF chs(2,4)] dist disj ne chs out by (simp_all add: chain_link_disjoint)
  have "distinct (A @ M)" using dist by auto
  with 1 have 2: "chain (link (last A) (hd M) (link (last X) (hd C) h)) (A @ M)"
      "chain (link (last A) (hd M) (link (last X) (hd C) h)) (X @ C)"
    using chain_join [OF 1(2,3)] ne out by (simp_all add: chain_link_disjoint)
  have "distinct ((A @ M) @ (X @ C))" using dist by auto
  then show ?thesis using chain_join [OF 2] ne by simp
qed

text \<open>Moving the segment \<open>ms\<close> in front of \<open>xs\<close>, both nonempty and adjacent.\<close>

lemma list_splice_dll:
  assumes "dll h l (as @ xs @ ms @ cs)" and "xs \<noteq> []" and "ms \<noteq> []"
  shows "\<exists>h'. list_splice (hd xs) (hd ms) (hd (cs @ [tail l])) h = (Inr (), h')
    \<and> dll h' l (as @ ms @ xs @ cs) \<and> same_outside (set (nodes l (as @ xs @ ms @ cs))) h h'"
proof -
  define A where "A = head l # as"
  define C where "C = cs @ [tail l]"
  let ?h3 = "link (last ms) (hd xs) (link (last A) (hd ms) (link (last xs) (hd C) h))"
  have d1: "dll h l ((as @ xs) @ (ms @ cs))" and d2: "dll h l ((as @ xs @ ms) @ cs)"
    using assms(1) by simp_all
  have all: "nodes l (as @ xs @ ms @ cs) = A @ xs @ ms @ C"
    and all': "nodes l (as @ ms @ xs @ cs) = A @ ms @ xs @ C" by (simp_all add: nodes_def A_def C_def)
  have dist: "distinct (A @ xs @ ms @ C)" and nn: "NULL \<notin> set (A @ xs @ ms @ C)"
    and ch: "chain h (A @ xs @ ms @ C)"
    using assms(1) unfolding dll_def all by blast+
  have ne: "A \<noteq> []" "C \<noteq> []" by (simp_all add: A_def C_def)
  have mem: "last A \<in> set A" "last xs \<in> set xs" "hd xs \<in> set xs" "last ms \<in> set ms"
      "hd ms \<in> set ms" "hd C \<in> set C" "head l \<in> set A" "tail l \<in> set C"
    using assms(2,3) hd_in_set [OF ne(2)] last_in_set [OF ne(1)] by (simp_all add: A_def C_def)
  have disj: "set A \<inter> set xs = {}" "set A \<inter> set ms = {}" "set A \<inter> set C = {}"
      "set xs \<inter> set ms = {}" "set xs \<inter> set C = {}" "set ms \<inter> set C = {}"
    using dist by auto
  have nz: "last xs \<noteq> NULL" "hd C \<noteq> NULL" "last A \<noteq> NULL"
    using nn mem(1,2,6) by (metis UnCI set_append)+
  have apart: "x \<noteq> y" if "x \<in> S" "y \<in> T" "S \<inter> T = {}" for x y :: addr and S T
    using that by blast
  note sep = apart [OF mem(7,3) disj(1)] apart [OF mem(7,5) disj(2)] apart [OF mem(7,6) disj(3)]
    apart [OF mem(1,8) disj(3)] apart [OF mem(2,8) disj(5)] apart [OF mem(4,8) disj(6)]
    apart [OF mem(5,6) disj(6)] apart [OF mem(2,4) disj(4)] apart [OF mem(3,6) disj(5)]
    apart [OF mem(3,5) disj(4)] apart [OF mem(1,4) disj(2)] apart [OF mem(1,2) disj(1)]
  have "chain ?h3 (A @ ms @ xs @ C)"
    using chain_swap_segments [OF ch dist] assms(2,3) ne by blast
  moreover have "prev ?h3 (head l) = NULL" "nxt ?h3 (tail l) = NULL"
    using dll_ends(1,2) [OF assms(1)] sep sep [symmetric] by simp_all
  ultimately have "dll ?h3 l (as @ ms @ xs @ cs)"
    unfolding dll_def all' using dist nn by (auto simp: Int_commute)
  moreover have "list_splice (hd xs) (hd ms) (hd C) h = (Inr (), ?h3)"
  proof (rule list_splice_exec)
    show "list_prev (hd C) h = (Inr (last ms), h)"
      using list_prev_dll [OF d2] assms(3) by (simp add: C_def)
    show "prev h (hd ms) = last xs" using dll_next_prev(2) [OF d1] assms(2,3) by simp
    show "nxt h (last ms) = hd C" using dll_next_prev(1) [OF d2] assms(3) by (simp add: C_def)
    show "prev h (hd xs) = last A" using dll_next_prev(2) [OF assms(1)] assms(2) by (simp add: A_def)
    show "is_interior h (hd ms)"
      using dll_interior [of h l "as @ xs" "hd ms" "tl ms @ cs"] d1 assms(3)
      by (metis append.assoc append_Cons list.collapse)
    show "is_interior h (last ms)"
      using dll_interior [of h l "as @ xs @ butlast ms" "last ms" cs] assms(1,3)
      by (metis append.assoc append_Cons append_Nil append_butlast_last_id)
    show "is_interior h (hd xs) \<or> is_tail h (hd xs)"
      using dll_insert_position [OF assms(1)] assms(2) by simp
  qed (rule sep sep [symmetric] nz)+
  moreover have "same_outside (set (nodes l (as @ xs @ ms @ cs))) h ?h3"
    unfolding all same_outside_def
  proof (intro allI impI)
    fix x assume "x \<notin> set (A @ xs @ ms @ C)"
    then have "x \<noteq> last A" "x \<noteq> last xs" "x \<noteq> hd xs" "x \<noteq> last ms" "x \<noteq> hd ms" "x \<noteq> hd C"
      using mem(1-6) by auto
    then show "prev ?h3 x = prev h x \<and> nxt ?h3 x = nxt h x" by simp
  qed
  ultimately show ?thesis unfolding C_def by blast
qed

subsection \<open>The algorithms on lists of addresses\<close>

text \<open>\<open>run_split lt x ys\<close>: the rest of the run that starts at \<open>x\<close>, and what follows it.\<close>

fun run_split :: "less_func \<Rightarrow> addr \<Rightarrow> addr list \<Rightarrow> addr list \<times> addr list" where
  "run_split lt x [] = ([], [])"
| "run_split lt x (y # ys) =
     (if \<not> lt y x then let (r, s) = run_split lt y ys in (y # r, s) else ([], y # ys))"

fun merge_by :: "less_func \<Rightarrow> addr list \<Rightarrow> addr list \<Rightarrow> addr list" where
  "merge_by lt [] ys = ys"
| "merge_by lt xs [] = xs"
| "merge_by lt (x # xs) (y # ys) =
     (if \<not> lt y x then x # merge_by lt xs (y # ys) else y # merge_by lt (x # xs) ys)"

abbreviation ascending :: "less_func \<Rightarrow> addr list \<Rightarrow> bool" where
  "ascending lt \<equiv> successively (\<lambda>a b. \<not> lt b a)"

text \<open>The number of adjacent pairs that are out of order.\<close>

fun descents :: "less_func \<Rightarrow> addr list \<Rightarrow> nat" where
  "descents lt (x # y # ys) = (if lt y x then 1 else 0) + descents lt (y # ys)"
| "descents lt ys = 0"

lemma run_split_props:
  assumes "run_split lt x ys = (r, s)"
  shows "ys = r @ s" "ascending lt (x # r)" "s \<noteq> [] \<Longrightarrow> lt (hd s) (last (x # r))"
  using assms by (induction lt x ys arbitrary: r s rule: run_split.induct)
    (auto split: if_splits prod.splits)

lemma descents_zero: "ascending lt xs \<longleftrightarrow> descents lt xs = 0"
  by (induction lt xs rule: descents.induct) auto

lemma descents_append:
  "descents lt (xs @ ys) =
     descents lt xs + descents lt ys + (if xs \<noteq> [] \<and> ys \<noteq> [] \<and> lt (hd ys) (last xs) then 1 else 0)"
proof (induction xs rule: induct_list012)
  case (2 x)
  then show ?case by (cases ys) auto
qed auto

lemma descents_length: "descents lt xs \<le> length xs - 1"
  by (induction lt xs rule: descents.induct) auto

lemma mset_merge_by: "mset (merge_by lt xs ys) = mset xs + mset ys"
  by (induction lt xs ys rule: merge_by.induct) auto

lemma hd_merge_by:
  "xs \<noteq> [] \<Longrightarrow> ys \<noteq> [] \<Longrightarrow>
     hd (merge_by lt xs ys) = (if \<not> lt (hd ys) (hd xs) then hd xs else hd ys)"
  by (cases xs; cases ys) auto

lemma merge_by_ne [simp]: "merge_by lt xs ys = [] \<longleftrightarrow> xs = [] \<and> ys = []"
  by (induction lt xs ys rule: merge_by.induct) auto

lemma ascending_Cons:
  "ascending lt (x # ys) \<longleftrightarrow> (ys = [] \<or> \<not> lt (hd ys) x) \<and> ascending lt ys"
  by (cases ys) auto

lemma ascending_merge_by:
  assumes "asymp lt" "ascending lt xs" "ascending lt ys"
  shows "ascending lt (merge_by lt xs ys)"
  using assms
proof (induction lt xs ys rule: merge_by.induct)
  case (3 lt x xs y ys)
  show ?case
  proof (cases "lt y x")
    case False
    have "ascending lt (merge_by lt xs (y # ys))"
      using 3 False by (auto simp: ascending_Cons)
    moreover have "\<not> lt (hd (merge_by lt xs (y # ys))) x"
      using 3(4) False by (cases xs) (auto simp: hd_merge_by ascending_Cons)
    ultimately show ?thesis using False by (simp add: ascending_Cons)
  next
    case True
    have "ascending lt (merge_by lt (x # xs) ys)"
      using 3 True by (auto simp: ascending_Cons)
    moreover have "\<not> lt (hd (merge_by lt (x # xs) ys)) y"
      using 3(3,5) True by (cases ys) (auto simp: hd_merge_by ascending_Cons dest: asympD)
    ultimately show ?thesis using True by (simp add: ascending_Cons)
  qed
qed auto

subsection \<open>Refinement of the loops\<close>

lemma hd_ne_tail: "dll h l (as @ x # bs) \<Longrightarrow> x \<noteq> tail l"
  using dll_nonnull(6) by fastforce

text \<open>The end marker of a segment is the first element after it; it differs from every element of
  the segment.\<close>

lemma seg_end_ne:
  assumes "dll h l (as @ x # ms @ cs)"
  shows "x \<noteq> hd (cs @ [tail l])"
  using dll_chains(3) [of h l "as @ x # ms" cs] assms hd_in_set [of "cs @ [tail l]"] by auto

lemma is_sorted_dll:
  "dll h l (as @ ms @ cs) \<Longrightarrow> length ms < n \<Longrightarrow>
   is_sorted n (hd (ms @ cs @ [tail l])) (hd (cs @ [tail l])) lt h = (Inr (ascending lt ms), h)"
proof (induction n arbitrary: as ms)
  case (Suc n)
  show ?case
  proof (cases ms)
    case Nil
    then show ?thesis by simp
  next
    case (Cons x ms')
    have ne: "x \<noteq> hd (cs @ [tail l])" using seg_end_ne Suc.prems(1) Cons by simp
    have nx: "list_next x h = (Inr (hd (ms' @ cs @ [tail l])), h)"
      using list_next_dll [of h l as x "ms' @ cs"] Suc.prems(1) Cons by simp
    show ?thesis
    proof (cases ms')
      case Nil
      then show ?thesis using Cons ne nx by simp
    next
      case (Cons y ms'')
      have "y \<noteq> hd (cs @ [tail l])"
        using seg_end_ne [of h l "as @ [x]" y ms'' cs] Suc.prems(1) Cons \<open>ms = x # ms'\<close> by simp
      moreover have "list_prev y h = (Inr x, h)"
        using list_prev_dll [of h l "as @ [x]" "y # ms'' @ cs"] Suc.prems(1) Cons \<open>ms = x # ms'\<close> by simp
      moreover have "is_sorted n y (hd (cs @ [tail l])) lt h = (Inr (ascending lt ms'), h)"
        using Suc.IH [of "as @ [x]" ms'] Suc.prems \<open>ms = x # ms'\<close> Cons by simp
      ultimately show ?thesis using Cons \<open>ms = x # ms'\<close> ne nx by simp
    qed
  qed
qed simp

lemma find_end_of_run_loop_dll:
  "dll h l (as @ x # bs) \<Longrightarrow> length bs < n \<Longrightarrow>
   find_end_of_run_loop n x (tail l) lt h = (Inr (hd (snd (run_split lt x bs) @ [tail l])), h)"
proof (induction n arbitrary: as x bs)
  case (Suc n)
  have nx: "list_next x h = (Inr (hd (bs @ [tail l])), h)"
    using list_next_dll Suc.prems(1) by blast
  show ?case
  proof (cases bs)
    case Nil
    then show ?thesis using nx by simp
  next
    case (Cons y bs')
    have "y \<noteq> tail l" using hd_ne_tail [of h l "as @ [x]" y bs'] Suc.prems(1) Cons by simp
    moreover have "list_prev y h = (Inr x, h)"
      using list_prev_dll [of h l "as @ [x]" "y # bs'"] Suc.prems(1) Cons by simp
    moreover have "find_end_of_run_loop n y (tail l) lt h
        = (Inr (hd (snd (run_split lt y bs') @ [tail l])), h)"
      using Suc.IH [of "as @ [x]" y bs'] Suc.prems Cons by simp
    ultimately show ?thesis using nx Cons by (simp split: prod.splits)
  qed
qed simp

lemma find_end_of_run_dll:
  assumes "dll h l (as @ x # bs)" "length bs < fuel"
  shows "find_end_of_run fuel x (tail l) lt h = (Inr (hd (snd (run_split lt x bs) @ [tail l])), h)"
  using assms dll_nonnull(2) [OF assms(1)] dll_nonnull(3) [OF assms(1), of x] hd_ne_tail [OF assms(1)]
  by (simp add: find_end_of_run_def find_end_of_run_loop_dll)

lemma inplace_merge_loop_dll:
  "dll h l (as @ xs @ ys @ cs) \<Longrightarrow> length xs + length ys < n \<Longrightarrow>
   \<exists>h'. inplace_merge_loop n (hd (xs @ ys @ cs @ [tail l])) (hd (ys @ cs @ [tail l]))
       (hd (cs @ [tail l])) lt h = (Inr (), h')
     \<and> dll h' l (as @ merge_by lt xs ys @ cs)
     \<and> same_outside (set (nodes l (as @ xs @ ys @ cs))) h h'"
proof (induction n arbitrary: as xs ys h)
  case (Suc n)
  show ?case
  proof (cases "xs = [] \<or> ys = []")
    case True
    then show ?thesis using Suc.prems(1) by (cases xs; cases ys) (auto simp: same_outside_def)
  next
    case False
    then obtain x xs' y ys' where xy: "xs = x # xs'" "ys = y # ys'" by (meson neq_Nil_conv)
    note d = Suc.prems(1) [unfolded xy, simplified]
    have ne: "x \<noteq> y" "y \<noteq> hd (cs @ [tail l])"
      using dll_nonnull(7) [OF d] seg_end_ne [of h l "as @ x # xs'" y ys' cs] d by auto
    show ?thesis
    proof (cases "lt y x")
      case False
      have "list_next x h = (Inr (hd (xs' @ ys @ cs @ [tail l])), h)"
        using list_next_dll [of h l as x "xs' @ ys @ cs"] d xy by simp
      then show ?thesis
        using Suc.IH [of h "as @ [x]" xs' ys] Suc.prems xy False ne by simp
    next
      case True
      have nx: "list_next y h = (Inr (hd (ys' @ cs @ [tail l])), h)"
        using list_next_dll [of h l "as @ x # xs'" y "ys' @ cs"] d by simp
      have pv: "list_prev (hd (ys' @ cs @ [tail l])) h = (Inr y, h)"
        using list_prev_dll [of h l "as @ x # xs' @ [y]" "ys' @ cs"] d by simp
      obtain h1 where h1: "list_splice x y (hd (ys' @ cs @ [tail l])) h = (Inr (), h1)"
          "dll h1 l (as @ y # xs @ ys' @ cs)"
          "same_outside (set (nodes l (as @ xs @ ys @ cs))) h h1"
        using list_splice_dll [of h l as xs "[y]" "ys' @ cs"] d xy by auto
      obtain h2 where h2: "inplace_merge_loop n x (hd (ys' @ cs @ [tail l])) (hd (cs @ [tail l])) lt h1
            = (Inr (), h2)"
          "dll h2 l ((as @ [y]) @ merge_by lt xs ys' @ cs)"
          "same_outside (set (nodes l ((as @ [y]) @ xs @ ys' @ cs))) h1 h2"
        using Suc.IH [of h1 "as @ [y]" xs ys'] h1(2) Suc.prems(2) xy by auto
      have "set (nodes l ((as @ [y]) @ xs @ ys' @ cs)) = set (nodes l (as @ xs @ ys @ cs))"
        using xy by (auto simp: nodes_def)
      then have "same_outside (set (nodes l (as @ xs @ ys @ cs))) h h2"
        using same_outside_trans [OF h1(3) h2(3)] by simp
      then show ?thesis using True ne nx pv h1(1) h2 xy by simp
    qed
  qed
qed simp

lemma inplace_merge_dll:
  assumes "dll h l (as @ xs @ ys @ cs)" "ascending lt xs" "ascending lt ys"
    "length xs + length ys < fuel"
  shows "\<exists>h'. inplace_merge fuel (hd (xs @ ys @ cs @ [tail l])) (hd (ys @ cs @ [tail l]))
       (hd (cs @ [tail l])) lt h = (Inr (), h')
     \<and> dll h' l (as @ merge_by lt xs ys @ cs)
     \<and> same_outside (set (nodes l (as @ xs @ ys @ cs))) h h'"
proof -
  have nn: "hd (xs @ ys @ cs @ [tail l]) \<noteq> NULL" "hd (ys @ cs @ [tail l]) \<noteq> NULL"
      "hd (cs @ [tail l]) \<noteq> NULL"
    using dll_hd_nonnull(1) [OF assms(1)] dll_hd_nonnull(1) [of h l "as @ xs" "ys @ cs"]
      dll_hd_nonnull(1) [of h l "as @ xs @ ys" cs] assms(1) by simp_all
  have "is_sorted fuel (hd (xs @ ys @ cs @ [tail l])) (hd (ys @ cs @ [tail l])) lt h = (Inr True, h)"
    using is_sorted_dll [of h l as xs "ys @ cs" fuel lt] assms by simp
  moreover have "is_sorted fuel (hd (ys @ cs @ [tail l])) (hd (cs @ [tail l])) lt h = (Inr True, h)"
    using is_sorted_dll [of h l "as @ xs" ys cs fuel lt] assms by simp
  ultimately show ?thesis
    using inplace_merge_loop_dll [OF assms(1,4), of lt] nn by (simp add: inplace_merge_def)
qed

subsection \<open>Passes\<close>

text \<open>One pass on the list of addresses: pairs of adjacent runs are merged; the second component
  counts the runs produced.\<close>

lemma run_split_length: "run_split lt x ys = (r, s) \<Longrightarrow> length s \<le> length ys"
  using run_split_props(1) by fastforce

function pass :: "less_func \<Rightarrow> addr list \<Rightarrow> addr list \<times> nat" where
  "pass lt [] = ([], 0)"
| "pass lt (x # xs) =
     (case run_split lt x xs of (r, []) \<Rightarrow> (x # r, 1)
      | (r, y # s) \<Rightarrow> (case run_split lt y s of (r2, s2) \<Rightarrow>
          (merge_by lt (x # r) (y # r2) @ fst (pass lt s2), Suc (snd (pass lt s2)))))"
  by pat_completeness auto
termination
  by (relation "measure (\<lambda>(lt, xs). length xs)") (auto dest!: run_split_length [OF sym])

lemma pass_cases:
  assumes "xs \<noteq> []"
  obtains (single) "ascending lt xs" "pass lt xs = (xs, 1)"
  | (pair) A B s where "A \<noteq> []" "B \<noteq> []" "xs = A @ B @ s" "ascending lt A" "ascending lt B"
      "lt (hd B) (last A)" "s \<noteq> [] \<Longrightarrow> lt (hd s) (last B)" "length s < length xs"
      "pass lt xs = (merge_by lt A B @ fst (pass lt s), Suc (snd (pass lt s)))"
proof -
  obtain x ys where xs: "xs = x # ys" using assms by (meson neq_Nil_conv)
  obtain r s where rs: "run_split lt x ys = (r, s)" by fastforce
  note p = run_split_props [OF rs]
  show thesis
  proof (cases s)
    case Nil
    then show ?thesis using single xs rs p by simp
  next
    case (Cons y s')
    obtain r2 s2 where rs2: "run_split lt y s' = (r2, s2)" by fastforce
    note p2 = run_split_props [OF rs2]
    show ?thesis
      using pair [of "x # r" "y # r2" s2] xs rs rs2 p p2 Cons by simp
  qed
qed

lemma mset_pass: "mset (fst (pass lt xs)) = mset xs"
proof (induction "length xs" arbitrary: xs rule: less_induct)
  case less
  show ?case
  proof (cases "xs = []")
    case False
    then show ?thesis
    proof (cases rule: pass_cases [where lt = lt])
      case (pair A B s)
      then show ?thesis using less [of s] by (simp add: mset_merge_by)
    qed simp
  qed simp
qed

text \<open>A pass over a list with \<open>d\<close> descents, that is \<open>d + 1\<close> runs, outputs half as many runs,
  rounded up; each of them is in order, so fewer descents remain.\<close>

lemma pass_count: "xs \<noteq> [] \<Longrightarrow> snd (pass lt xs) = (descents lt xs + 2) div 2"
proof (induction "length xs" arbitrary: xs rule: less_induct)
  case less
  from less.prems show ?case
  proof (cases rule: pass_cases [where lt = lt])
    case single
    then show ?thesis by (simp add: descents_zero)
  next
    case (pair A B s)
    have "descents lt xs = 1 + (if s = [] then 0 else 1 + descents lt s)"
      using pair by (auto simp: descents_append descents_zero [symmetric] dest!: descents_zero [THEN iffD1])
    then show ?thesis using less.hyps [of s] pair by (cases "s = []") simp_all
  qed
qed

lemma pass_descents:
  assumes "asymp lt"
  shows "xs \<noteq> [] \<Longrightarrow> descents lt (fst (pass lt xs)) < snd (pass lt xs)"
proof (induction "length xs" arbitrary: xs rule: less_induct)
  case less
  from less.prems show ?case
  proof (cases rule: pass_cases [where lt = lt])
    case single
    then show ?thesis by (simp add: descents_zero)
  next
    case (pair A B s)
    have "descents lt (merge_by lt A B) = 0"
      using ascending_merge_by [OF assms pair(4,5)] by (simp add: descents_zero)
    then show ?thesis
      using less.hyps [of s] pair by (cases "s = []") (simp_all add: descents_append)
  qed
qed

lemma sort_pass_dll:
  "dll h l (as @ xs) \<Longrightarrow> length xs < n \<Longrightarrow> length xs < fuel \<Longrightarrow>
   \<exists>h'. sort_pass n fuel l (hd (xs @ [tail l])) cnt lt h = (Inr (cnt + snd (pass lt xs)), h')
     \<and> dll h' l (as @ fst (pass lt xs)) \<and> same_outside (set (nodes l (as @ xs))) h h'"
proof (induction n arbitrary: as xs cnt h)
  case (Suc n)
  show ?case
  proof (cases xs)
    case Nil
    then show ?thesis using Suc.prems by (simp add: list_end_def same_outside_def)
  next
    case (Cons x ys)
    have xt: "x \<noteq> tail l" using hd_ne_tail Suc.prems(1) Cons by simp
    obtain r s where rs: "run_split lt x ys = (r, s)" by fastforce
    note p = run_split_props [OF rs]
    have e1: "find_end_of_run fuel x (tail l) lt h = (Inr (hd (s @ [tail l])), h)"
      using find_end_of_run_dll [of h l as x ys fuel lt] Suc.prems Cons rs by simp
    show ?thesis
    proof (cases s)
      case Nil
      then show ?thesis
        using Suc.prems Cons xt e1 rs p by (simp add: list_end_def same_outside_def)
    next
      case sCons: (Cons y s')
      have yt: "y \<noteq> tail l"
        using hd_ne_tail [of h l "as @ x # r" y s'] Suc.prems(1) Cons p sCons by simp
      obtain r2 s2 where rs2: "run_split lt y s' = (r2, s2)" by fastforce
      note p2 = run_split_props [OF rs2]
      have e2: "find_end_of_run fuel y (tail l) lt h = (Inr (hd (s2 @ [tail l])), h)"
        using find_end_of_run_dll [of h l "as @ x # r" y s' fuel lt] Suc.prems Cons p sCons rs2 by simp
      have d: "dll h l (as @ (x # r) @ (y # r2) @ s2)" using Suc.prems(1) Cons p p2 sCons by simp
      obtain h1 where h1: "inplace_merge fuel x y (hd (s2 @ [tail l])) lt h = (Inr (), h1)"
          "dll h1 l (as @ merge_by lt (x # r) (y # r2) @ s2)"
          "same_outside (set (nodes l (as @ xs))) h h1"
        using inplace_merge_dll [OF d p(2) p2(2), of fuel] Suc.prems Cons p p2 sCons by auto
      obtain h2 where h2: "sort_pass n fuel l (hd (s2 @ [tail l])) (cnt + 1) lt h1
            = (Inr (cnt + 1 + snd (pass lt s2)), h2)"
          "dll h2 l ((as @ merge_by lt (x # r) (y # r2)) @ fst (pass lt s2))"
          "same_outside (set (nodes l ((as @ merge_by lt (x # r) (y # r2)) @ s2))) h1 h2"
        using Suc.IH [of h1 "as @ merge_by lt (x # r) (y # r2)" s2 "cnt + 1"] h1(2) Suc.prems Cons p p2 sCons
        by auto
      have "set (merge_by lt (x # r) (y # r2)) = set (x # r) \<union> set (y # r2)"
        by (metis mset_merge_by set_mset_mset set_mset_union)
      then have "set (nodes l ((as @ merge_by lt (x # r) (y # r2)) @ s2)) = set (nodes l (as @ xs))"
        using Cons p p2 sCons by (auto simp: nodes_def)
      then have "same_outside (set (nodes l (as @ xs))) h h2"
        using same_outside_trans [OF h1(3) h2(3)] by simp
      then show ?thesis
        using xt yt e1 e2 h1(1) h2(1,2) Cons sCons rs rs2 by (simp add: list_end_def)
    qed
  qed
qed simp

lemma sort_passes_dll:
  assumes "asymp lt"
  shows "dll h l xs \<Longrightarrow> descents lt xs < n \<Longrightarrow> length xs < fuel \<Longrightarrow>
   \<exists>h' ys. sort_passes n fuel l lt h = (Inr (), h') \<and> dll h' l ys \<and> mset ys = mset xs
     \<and> ascending lt ys \<and> same_outside (set (nodes l xs)) h h'"
proof (induction n arbitrary: xs h)
  case (Suc n)
  let ?ys = "fst (pass lt xs)" and ?k = "snd (pass lt xs)"
  obtain h1 where h1: "sort_pass fuel fuel l (hd (xs @ [tail l])) 0 lt h = (Inr ?k, h1)"
      "dll h1 l ?ys" "same_outside (set (nodes l xs)) h h1"
    using sort_pass_dll [of h l "[]" xs fuel fuel 0 lt] Suc.prems by auto
  have nodes: "set (nodes l ?ys) = set (nodes l xs)" and len: "length ?ys = length xs"
    using mset_pass [of lt xs] by (auto simp: nodes_def dest: mset_eq_setD mset_eq_length)
  show ?case
  proof (cases "?k > 1")
    case True
    then have ne: "xs \<noteq> []" by auto
    have "descents lt ?ys < n"
      using pass_descents [OF assms ne] pass_count [OF ne, of lt] True Suc.prems(2) by linarith
    then obtain h2 ys where h2: "sort_passes n fuel l lt h1 = (Inr (), h2)" "dll h2 l ys"
        "mset ys = mset ?ys" "ascending lt ys" "same_outside (set (nodes l ?ys)) h1 h2"
      using Suc.IH [OF h1(2)] Suc.prems(3) len by auto
    then show ?thesis
      using same_outside_trans [OF h1(3) h2(5)] Suc.prems(1) h1(1) True nodes mset_pass [of lt xs]
      by (auto simp: list_begin_dll)
  next
    case False
    then have "descents lt ?ys = 0"
      using pass_descents [OF assms, of xs] by (cases "xs = []") auto
    then show ?thesis
      using False h1 Suc.prems(1) mset_pass [of lt xs] by (auto simp: list_begin_dll descents_zero)
  qed
qed simp

text \<open>A strict weak order, as \<open>list_less_func\<close> requires: asymmetric, and not being less is
  transitive. For such a comparison, neighbours in order means everything is in order.\<close>

definition strict_weak_order :: "less_func \<Rightarrow> bool" where
  "strict_weak_order lt \<longleftrightarrow> asymp lt \<and> transp (\<lambda>a b. \<not> lt b a)"

lemma strict_weak_orderD:
  assumes "strict_weak_order lt"
  shows "\<not> lt a a" "lt a c \<Longrightarrow> lt a b \<or> lt b c" "lt a b \<Longrightarrow> \<not> lt b a" "lt a b \<Longrightarrow> lt b c \<Longrightarrow> lt a c"
proof -
  show neg: "lt a c \<Longrightarrow> lt a b \<or> lt b c" for a b c
    using assms unfolding strict_weak_order_def transp_def by blast
  show asym: "lt a b \<Longrightarrow> \<not> lt b a" for a b
    using assms by (auto simp: strict_weak_order_def dest: asympD)
  show "\<not> lt a a" using asym by blast
  show "lt a b \<Longrightarrow> lt b c \<Longrightarrow> lt a c" using neg [of a b c] asym by blast
qed

lemma ascending_sorted_wrt:
  "strict_weak_order lt \<Longrightarrow> ascending lt xs \<longleftrightarrow> sorted_wrt (\<lambda>a b. \<not> lt b a) xs"
  by (auto simp: strict_weak_order_def successively_conv_sorted_wrt)

text \<open>C5: \<open>list_sort\<close> on any well-formed list and strict weak order terminates without a failed
  assertion or a null dereference, and leaves a well-formed list of exactly the same elements,
  in nondecreasing order, with every link outside the list untouched. \<open>length xs + 1\<close> iterations
  of each loop are enough.\<close>

theorem list_sort_correct:
  assumes "dll h l xs" and "strict_weak_order lt" and "length xs < fuel"
  shows "\<exists>h' ys. list_sort fuel l lt h = (Inr (), h') \<and> dll h' l ys \<and> mset ys = mset xs
    \<and> sorted_wrt (\<lambda>a b. \<not> lt b a) ys \<and> same_outside (set (nodes l xs)) h h'"
proof -
  have asym: "asymp lt" using assms(2) by (simp add: strict_weak_order_def)
  have "descents lt xs < fuel" using descents_length [of lt xs] assms(3) by linarith
  then obtain h' ys where *: "sort_passes fuel fuel l lt h = (Inr (), h')" "dll h' l ys"
      "mset ys = mset xs" "ascending lt ys" "same_outside (set (nodes l xs)) h h'"
    using sort_passes_dll [OF asym assms(1) _ assms(3)] by blast
  have "length ys < fuel" using *(3) assms(3) by (metis size_mset)
  then have "is_sorted fuel (hd (ys @ [tail l])) (tail l) lt h' = (Inr True, h')"
    using is_sorted_dll [of h' l "[]" ys "[]" fuel lt] * by simp
  then have "list_sort fuel l lt h = (Inr (), h')"
    using * by (simp add: list_sort_def list_begin_dll list_end_def)
  then show ?thesis using * ascending_sorted_wrt [OF assms(2)] by blast
qed

definition ex_list :: klist where
  "ex_list = \<lparr>head = 1, tail = 2\<rparr>"

definition ex_heap :: lheap where
  "ex_heap = \<lparr>prev = (\<lambda>_. 0)(30 := 1, 10 := 30, 20 := 10, 2 := 20),
              nxt = (\<lambda>_. 0)(1 := 30, 30 := 10, 10 := 20, 20 := 2)\<rparr>"

lemma ex_heap_dll: "dll ex_heap ex_list [30, 10, 20]"
  by (simp add: dll_def nodes_def ex_heap_def ex_list_def edge_def)

lemma less_strict_weak: "strict_weak_order (<)"
  by (auto simp: strict_weak_order_def intro!: asympI transpI)

theorem list_sort_witness:
  "dll ex_heap ex_list [30, 10, 20] \<and> strict_weak_order (<) \<and>
   (\<exists>h' ys. list_sort 4 ex_list (<) ex_heap = (Inr (), h') \<and> dll h' ex_list ys
      \<and> mset ys = mset [30, 10, 20] \<and> sorted_wrt (\<lambda>a b. \<not> b < a) ys
      \<and> same_outside (set (nodes ex_list [30, 10, 20])) ex_heap h')"
  using list_sort_correct [OF ex_heap_dll less_strict_weak, of 4] ex_heap_dll less_strict_weak by simp

subsection \<open>Ordered insertion\<close>

lemma find_insertion_dll:
  "dll h l (as @ bs) \<Longrightarrow> length bs < n \<Longrightarrow>
   find_insertion n l (hd (bs @ [tail l])) e lt h
     = (Inr (hd (dropWhile (\<lambda>x. \<not> lt e x) bs @ [tail l])), h)"
proof (induction n arbitrary: as bs)
  case (Suc n)
  show ?case
  proof (cases bs)
    case Nil
    then show ?thesis by (simp add: list_end_def)
  next
    case (Cons b bs')
    have "b \<noteq> tail l" using hd_ne_tail Suc.prems(1) Cons by simp
    moreover have "list_next b h = (Inr (hd (bs' @ [tail l])), h)"
      using list_next_dll Suc.prems(1) Cons by blast
    ultimately show ?thesis
      using Suc.IH [of "as @ [b]" bs'] Suc.prems Cons by (simp add: list_end_def)
  qed
qed simp

lemma list_insert_ordered_dll:
  assumes "dll h l xs" "e \<noteq> NULL" "e \<notin> set (nodes l xs)" "length xs < fuel"
  shows "\<exists>h'. list_insert_ordered fuel l e lt h = (Inr (), h')
    \<and> dll h' l (takeWhile (\<lambda>x. \<not> lt e x) xs @ e # dropWhile (\<lambda>x. \<not> lt e x) xs)
    \<and> same_outside (insert e (set (nodes l xs))) h h'"
  using list_insert_dll [of h l "takeWhile (\<lambda>x. \<not> lt e x) xs" "dropWhile (\<lambda>x. \<not> lt e x) xs" e]
    find_insertion_dll [of h l "[]" xs fuel e lt] assms
  by (auto simp: list_insert_ordered_def list_begin_dll)

lemma sorted_wrt_insert_between:
  "sorted_wrt P as \<Longrightarrow> sorted_wrt P bs \<Longrightarrow> \<forall>a \<in> set as. \<forall>b \<in> set bs. P a b \<Longrightarrow>
   \<forall>a \<in> set as. P a e \<Longrightarrow> \<forall>b \<in> set bs. P e b \<Longrightarrow> sorted_wrt P (as @ e # bs)"
  by (simp add: sorted_wrt_append)

text \<open>C16: Inserting an element with \<open>list_insert_ordered\<close> into a list in nondecreasing order
  gives a list in nondecreasing order of the old elements and the new one, the new one placed
  after every element it is not less than.\<close>

theorem list_insert_ordered_sorted:
  assumes "dll h l xs" and "e \<noteq> NULL" and "e \<notin> set (nodes l xs)" and "length xs < fuel"
    and "strict_weak_order lt" and "sorted_wrt (\<lambda>a b. \<not> lt b a) xs"
  shows "\<exists>h' as bs. list_insert_ordered fuel l e lt h = (Inr (), h') \<and> xs = as @ bs
    \<and> dll h' l (as @ e # bs) \<and> sorted_wrt (\<lambda>a b. \<not> lt b a) (as @ e # bs) \<and> (\<forall>b \<in> set bs. lt e b)"
proof -
  let ?as = "takeWhile (\<lambda>x. \<not> lt e x) xs" and ?bs = "dropWhile (\<lambda>x. \<not> lt e x) xs"
  have tr: "\<not> lt c b \<Longrightarrow> \<not> lt b a \<Longrightarrow> \<not> lt c a" and asym: "lt a b \<Longrightarrow> \<not> lt b a" for a b c
    using strict_weak_orderD [OF assms(5)] by blast+
  have s: "sorted_wrt (\<lambda>a b. \<not> lt b a) ?as" "sorted_wrt (\<lambda>a b. \<not> lt b a) ?bs"
      "\<forall>a \<in> set ?as. \<forall>b \<in> set ?bs. \<not> lt b a"
    using assms(6) takeWhile_dropWhile_id [of "\<lambda>x. \<not> lt e x" xs] by (metis sorted_wrt_append)+
  have before: "\<forall>a \<in> set ?as. \<not> lt e a" by (auto dest: set_takeWhileD)
  have after: "\<forall>b \<in> set ?bs. lt e b"
  proof (cases ?bs)
    case (Cons b bs)
    have "lt e b" using hd_dropWhile [of "\<lambda>x. \<not> lt e x" xs] Cons by simp
    moreover have "\<forall>c \<in> set bs. \<not> lt c b" using s(2) Cons by simp
    ultimately show ?thesis using Cons tr by auto
  next
    case Nil
    show ?thesis unfolding Nil by simp
  qed
  have "\<forall>b \<in> set ?bs. \<not> lt b e" using after asym by blast
  with s before have sorted: "sorted_wrt (\<lambda>a b. \<not> lt b a) (?as @ e # ?bs)"
    by (intro sorted_wrt_insert_between)
  obtain h' where "list_insert_ordered fuel l e lt h = (Inr (), h')" "dll h' l (?as @ e # ?bs)"
    using list_insert_ordered_dll [OF assms(1-4), of lt] by blast
  then show ?thesis
    using sorted after takeWhile_dropWhile_id [of "\<lambda>x. \<not> lt e x" xs, symmetric] by blast
qed

definition ex_sorted_heap :: lheap where
  "ex_sorted_heap = \<lparr>prev = (\<lambda>_. 0)(10 := 1, 20 := 10, 30 := 20, 2 := 30),
                     nxt = (\<lambda>_. 0)(1 := 10, 10 := 20, 20 := 30, 30 := 2)\<rparr>"

lemma ex_sorted_heap_dll: "dll ex_sorted_heap ex_list [10, 20, 30]"
  by (simp add: dll_def nodes_def ex_sorted_heap_def ex_list_def edge_def)

theorem list_insert_ordered_witness:
  "\<exists>h' as bs. list_insert_ordered 4 ex_list 15 (<) ex_sorted_heap = (Inr (), h')
     \<and> [10, 20, 30] = as @ bs \<and> dll h' ex_list (as @ 15 # bs)
     \<and> sorted_wrt (\<lambda>a b. \<not> b < a) (as @ 15 # bs) \<and> (\<forall>b \<in> set bs. 15 < b)"
proof -
  have "(15::addr) \<notin> set (nodes ex_list [10, 20, 30])" by (simp add: nodes_def ex_list_def)
  then show ?thesis
    using list_insert_ordered_sorted [OF ex_sorted_heap_dll, of 15 4 "(<)"] less_strict_weak by simp
qed

end
