(* ===== verification/Klist_More.thy ===== *)
theory Klist_More
  imports Klist_Sort
begin

text \<open>
  The remaining algorithms of \<^verbatim>\<open>lib/kernel/list.c\<close>: \<open>list_reverse\<close>, which exchanges the two
  links of every element in place, \<open>list_max\<close> and \<open>list_min\<close>, which return the first of
  several equal extremes, and \<open>list_unique\<close>, which moves adjacent duplicates to a second list.
\<close>

subsection \<open>Reversal\<close>

text \<open>The heap with the two links of the elements of \<open>S\<close> exchanged.\<close>

definition swap_on :: "addr set \<Rightarrow> lheap \<Rightarrow> lheap" where
  "swap_on S h = h\<lparr>prev := (\<lambda>x. if x \<in> S then nxt h x else prev h x),
                   nxt := (\<lambda>x. if x \<in> S then prev h x else nxt h x)\<rparr>"

lemma swap_on_sel [simp]:
  "prev (swap_on S h) x = (if x \<in> S then nxt h x else prev h x)"
  "nxt (swap_on S h) x = (if x \<in> S then prev h x else nxt h x)"
  by (simp_all add: swap_on_def)

lemma swap_links_exec:
  "e \<noteq> NULL \<Longrightarrow> e \<notin> S \<Longrightarrow> swap_links e (swap_on S h) = (Inr (), swap_on (insert e S) h)"
  by (simp add: swap_links_def get_prev_def get_next_def set_prev_def set_next_def swap_on_def)
    (auto simp: fun_eq_iff)

lemma list_reverse_loop_dll:
  "dll h l (as @ bs) \<Longrightarrow> length bs < n \<Longrightarrow>
   list_reverse_loop n l (hd (bs @ [tail l])) (swap_on (set as) h)
     = (Inr (), swap_on (set (as @ bs)) h)"
proof (induction n arbitrary: as bs)
  case (Suc n)
  show ?case
  proof (cases bs)
    case Nil
    then show ?thesis by (simp add: list_end_def)
  next
    case (Cons b bs')
    have d: "dll h l ((as @ [b]) @ bs')" using Suc.prems(1) Cons by simp
    have b: "b \<noteq> tail l" "b \<noteq> NULL" "b \<notin> set as"
      using dll_nonnull [OF Suc.prems(1)] Cons by auto
    have "nxt h b = hd (bs' @ [tail l])" using dll_next_prev(1) [OF d] by simp
    then have "get_prev b (swap_on (set (as @ [b])) h) = (Inr (hd (bs' @ [tail l])), swap_on (set (as @ [b])) h)"
      using b by (simp add: get_prev_def)
    moreover have "swap_links b (swap_on (set as) h) = (Inr (), swap_on (set (as @ [b])) h)"
      using swap_links_exec b by simp
    ultimately show ?thesis
      using Suc.IH [OF d] Suc.prems(2) b Cons by (simp add: list_end_def)
  qed
qed simp

lemma chain_flip:
  assumes "\<forall>x \<in> set (tl ps). nxt h' x = prev h x" and "\<forall>x \<in> set (butlast ps). prev h' x = nxt h x"
  shows "chain h' (rev ps) = chain h ps"
  using assms
proof (induction ps rule: induct_list012)
  case (3 a b ps)
  then show ?case by (cases ps) (auto simp: edge_def chain_append)
qed simp_all

text \<open>The two exchanges after the loop, on a heap whose interior is already exchanged.\<close>

definition reverse_ends :: "klist \<Rightarrow> addr \<Rightarrow> addr \<Rightarrow> lheap \<Rightarrow> lheap" where
  "reverse_ends l x y h = h\<lparr>prev := (prev h)(tail l := x, y := head l),
                            nxt := (nxt h)(head l := y, x := tail l)\<rparr>"

lemma reverse_ends_sel [simp]:
  "prev (reverse_ends l x y h) z = (if z = y then head l else if z = tail l then x else prev h z)"
  "nxt (reverse_ends l x y h) z = (if z = x then tail l else if z = head l then y else nxt h z)"
  by (simp_all add: reverse_ends_def)

lemma reverse_ends_dll:
  assumes "dll h l xs" "xs \<noteq> []"
  shows "dll (reverse_ends l (hd xs) (last xs) (swap_on (set xs) h)) l (rev xs)"
proof -
  let ?h = "reverse_ends l (hd xs) (last xs) (swap_on (set xs) h)"
  note ne = dll_nonnull [OF assms(1)]
  have x: "hd xs \<in> set xs" "last xs \<in> set xs" using assms(2) by simp_all
  have inner: "chain ?h (rev xs) = chain h xs"
  proof (rule chain_flip)
    show "\<forall>x \<in> set (tl xs). nxt ?h x = prev h x"
      using ne(5-7) hd_notin_tl [of xs] assms(2) by (auto dest: list.set_sel(2))
    show "\<forall>x \<in> set (butlast xs). prev ?h x = nxt h x"
      using ne(5-7) last_notin_butlast [of xs] by (auto dest: in_set_butlastD)
  qed
  have ends: "edge ?h (head l) (hd (rev xs))" "edge ?h (last (rev xs)) (tail l)"
    using ne(4-6) x assms(2) by (auto simp: edge_def hd_rev last_rev)
  have "chain h xs"
    using dll_chains(2) [of h l "[]" xs] assms(1) by (simp add: chain_append)
  then have "chain ?h ((head l # rev xs) @ [tail l])"
    unfolding chain_append using inner ends assms(2) by (simp add: chain_Cons)
  moreover have "prev ?h (head l) = NULL" "nxt ?h (tail l) = NULL"
    using assms(1) ne(4-6) x by (auto simp: dll_def)
  moreover have "set (nodes l (rev xs)) = set (nodes l xs)" "distinct (nodes l (rev xs))"
    using assms(1) by (auto simp: nodes_def dll_def)
  ultimately show ?thesis using assms(1) by (simp add: dll_def nodes_def)
qed

lemma list_reverse_exec:
  assumes "dll h l xs" "xs \<noteq> []" "length xs < fuel"
  shows "list_reverse fuel l h = (Inr (), reverse_ends l (hd xs) (last xs) (swap_on (set xs) h))"
proof -
  let ?h = "swap_on (set xs) h"
  note ne = dll_nonnull [OF assms(1)]
  have x: "hd xs \<in> set xs" "last xs \<in> set xs" using assms(2) by simp_all
  have nn: "hd xs \<noteq> NULL" "last xs \<noteq> NULL" using ne(3) x by blast+
  have ends: "nxt h (head l) = hd xs" "prev h (tail l) = last xs" "prev h (hd xs) = head l" "nxt h (last xs) = tail l"
    using dll_next_prev [of h l "[]" xs] dll_next_prev [of h l xs "[]"] assms(1,2) by simp_all
  have loop: "list_reverse_loop fuel l (hd xs) h = (Inr (), ?h)"
    using list_reverse_loop_dll [of h l "[]" xs fuel] assms by (simp add: swap_on_def)
  have b: "list_begin l h = (Inr (hd xs), h)" "list_empty l h = (Inr False, h)"
    using list_begin_dll [OF assms(1)] list_empty_dll [OF assms(1)] assms(2) by simp_all
  show ?thesis
    unfolding list_reverse_def
    using b loop nn ne(1,2,4-6) x ends
    by (simp add: get_prev_def get_next_def set_prev_def set_next_def)
       (auto simp: reverse_ends_def swap_on_def fun_eq_iff)
qed

text \<open>C19: \<open>list_reverse\<close> reverses the list in place: the same elements in the opposite order, again a
  well-formed doubly linked list in both directions, and no link outside the list changes.\<close>

theorem list_reverse_correct:
  assumes "dll h l xs" and "length xs < fuel"
  shows "\<exists>h'. list_reverse fuel l h = (Inr (), h') \<and> dll h' l (rev xs)
    \<and> same_outside (set (nodes l xs)) h h'"
proof (cases "xs = []")
  case True
  then show ?thesis
    using assms list_empty_dll [OF assms(1)] by (simp add: list_reverse_def same_outside_def)
next
  case False
  then have "hd xs \<in> set xs" "last xs \<in> set xs" by simp_all
  then have "same_outside (set (nodes l xs)) h (reverse_ends l (hd xs) (last xs) (swap_on (set xs) h))"
    by (auto simp: same_outside_def nodes_def)
  then show ?thesis
    using list_reverse_exec [OF assms(1) False assms(2)] reverse_ends_dll [OF assms(1) False] by blast
qed

theorem list_reverse_witness:
  "\<exists>h'. list_reverse 4 ex_list ex_heap = (Inr (), h') \<and> dll h' ex_list [20, 10, 30]
    \<and> same_outside (set (nodes ex_list [30, 10, 20])) ex_heap h'"
  using list_reverse_correct [OF ex_heap_dll, of 4] by simp

subsection \<open>Extremes\<close>

text \<open>The element a scan from \<open>m\<close> over \<open>xs\<close> ends with, replacing its candidate by a better one.\<close>

definition scan_best :: "(addr \<Rightarrow> addr \<Rightarrow> bool) \<Rightarrow> addr \<Rightarrow> addr list \<Rightarrow> addr" where
  "scan_best better m xs = foldl (\<lambda>m e. if better e m then e else m) m xs"

lemma list_max_loop_dll:
  "dll h l (as @ bs) \<Longrightarrow> length bs < n \<Longrightarrow>
   list_max_loop n l m (hd (bs @ [tail l])) lt h = (Inr (scan_best (\<lambda>e m. lt m e) m bs), h)"
proof (induction n arbitrary: as bs m)
  case (Suc n)
  show ?case
  proof (cases bs)
    case Nil
    then show ?thesis by (simp add: list_end_def scan_best_def)
  next
    case (Cons b bs')
    have "b \<noteq> tail l" "list_next b h = (Inr (hd (bs' @ [tail l])), h)"
      using hd_ne_tail list_next_dll Suc.prems(1) Cons by blast+
    then show ?thesis
      using Suc.IH [of "as @ [b]" bs'] Suc.prems Cons by (simp add: list_end_def scan_best_def)
  qed
qed simp

lemma list_min_loop_dll:
  "dll h l (as @ bs) \<Longrightarrow> length bs < n \<Longrightarrow>
   list_min_loop n l m (hd (bs @ [tail l])) lt h = (Inr (scan_best lt m bs), h)"
proof (induction n arbitrary: as bs m)
  case (Suc n)
  show ?case
  proof (cases bs)
    case Nil
    then show ?thesis by (simp add: list_end_def scan_best_def)
  next
    case (Cons b bs')
    have "b \<noteq> tail l" "list_next b h = (Inr (hd (bs' @ [tail l])), h)"
      using hd_ne_tail list_next_dll Suc.prems(1) Cons by blast+
    then show ?thesis
      using Suc.IH [of "as @ [b]" bs'] Suc.prems Cons by (simp add: list_end_def scan_best_def)
  qed
qed simp

lemma list_max_dll:
  "dll h l (x # xs) \<Longrightarrow> length xs < fuel \<Longrightarrow>
   list_max fuel l lt h = (Inr (scan_best (\<lambda>e m. lt m e) x xs), h)"
  using list_max_loop_dll [of h l "[x]" xs fuel x lt] list_next_dll [of h l "[]" x xs]
    dll_nonnull(6) [of h l "x # xs"]
  by (simp add: list_max_def list_begin_dll list_end_def)

lemma list_min_dll:
  "dll h l (x # xs) \<Longrightarrow> length xs < fuel \<Longrightarrow> list_min fuel l lt h = (Inr (scan_best lt x xs), h)"
  using list_min_loop_dll [of h l "[x]" xs fuel x lt] list_next_dll [of h l "[]" x xs]
    dll_nonnull(6) [of h l "x # xs"]
  by (simp add: list_min_def list_begin_dll list_end_def)

lemma list_extremes_empty:
  "dll h l [] \<Longrightarrow> list_max fuel l lt h = (Inr (tail l), h)"
  "dll h l [] \<Longrightarrow> list_min fuel l lt h = (Inr (tail l), h)"
  by (simp_all add: list_max_def list_min_def list_begin_dll list_end_def)

lemma scan_best_first:
  assumes tr: "\<And>a b c. better a b \<Longrightarrow> better b c \<Longrightarrow> better a c"
    and neg: "\<And>a b c. better a c \<Longrightarrow> better a b \<or> better b c"
    and irr: "\<And>a. \<not> better a a"
  shows "\<exists>as bs. x # xs = as @ scan_best better x xs # bs
    \<and> (\<forall>a \<in> set as. better (scan_best better x xs) a) \<and> (\<forall>b \<in> set bs. \<not> better b (scan_best better x xs))"
proof (induction xs rule: rev_induct)
  case Nil
  show ?case by (intro exI [of _ "[]"]) (simp add: scan_best_def)
next
  case (snoc y ys)
  define m where "m = scan_best better x ys"
  obtain as bs where IH: "x # ys = as @ m # bs" "\<forall>a \<in> set as. better m a" "\<forall>b \<in> set bs. \<not> better b m"
    using snoc.IH unfolding m_def by blast
  have step: "scan_best better x (ys @ [y]) = (if better y m then y else m)"
    by (simp add: scan_best_def m_def)
  show ?case
  proof (cases "better y m")
    case True
    have "better y b" if "b \<in> set bs" for b using neg [OF True, of b] IH(3) that by blast
    moreover have "better y a" if "a \<in> set as" for a using tr [OF True] IH(2) that by blast
    ultimately have "\<forall>a \<in> set (x # ys). better y a" unfolding IH(1) using True by auto
    then show ?thesis using True step by (intro exI [of _ "x # ys"] exI [of _ "[]"]) simp
  next
    case False
    have "x # ys @ [y] = as @ m # (bs @ [y])" using IH(1) by simp
    then show ?thesis using False IH step by (intro exI [of _ as] exI [of _ "bs @ [y]"]) simp
  qed
qed

text \<open>C20: \<open>list_max\<close> on a nonempty list returns an element that no other exceeds, and of several
  equal ones the earliest: everything before it is smaller.\<close>

theorem list_max_first:
  assumes "dll h l xs" and "xs \<noteq> []" and "length xs < fuel" and "strict_weak_order lt"
  shows "\<exists>as m bs. list_max fuel l lt h = (Inr m, h) \<and> xs = as @ m # bs
    \<and> (\<forall>a \<in> set as. lt a m) \<and> (\<forall>b \<in> set bs. \<not> lt m b)"
proof -
  obtain x ys where xs: "xs = x # ys" using assms(2) by (cases xs) auto
  have o: "\<And>a b c. lt a b \<Longrightarrow> lt b c \<Longrightarrow> lt a c" "\<And>a b c. lt a c \<Longrightarrow> lt a b \<or> lt b c" "\<And>a. \<not> lt a a"
    using strict_weak_orderD [OF assms(4)] by blast+
  have "\<exists>as bs. x # ys = as @ scan_best (\<lambda>e m. lt m e) x ys # bs
      \<and> (\<forall>a \<in> set as. lt a (scan_best (\<lambda>e m. lt m e) x ys))
      \<and> (\<forall>b \<in> set bs. \<not> lt (scan_best (\<lambda>e m. lt m e) x ys) b)"
    by (rule scan_best_first) (use o in blast)+
  then show ?thesis
    using list_max_dll [of h l x ys fuel lt] assms xs by auto
qed

theorem list_max_witness:
  "\<exists>as m bs. list_max 4 ex_list (<) ex_heap = (Inr m, ex_heap) \<and> [30, 10, 20] = as @ m # bs
    \<and> (\<forall>a \<in> set as. a < m) \<and> (\<forall>b \<in> set bs. \<not> m < b)"
  using list_max_first [OF ex_heap_dll _ _ less_strict_weak, of 4] by simp

subsection \<open>Duplicates\<close>

text \<open>What \<open>list_unique\<close> keeps after the element \<open>e\<close>, and what it moves out.\<close>

fun uniq :: "less_func \<Rightarrow> addr \<Rightarrow> addr list \<Rightarrow> addr list \<times> addr list" where
  "uniq lt e [] = ([], [])"
| "uniq lt e (x # xs) =
     (if \<not> lt e x \<and> \<not> lt x e then (fst (uniq lt e xs), x # snd (uniq lt e xs))
      else (x # fst (uniq lt x xs), snd (uniq lt x xs)))"

lemma list_unique_loop_dll:
  assumes "dll h l (as @ e # bs)" "dll h d ds"
    "set (nodes l (as @ e # bs)) \<inter> set (nodes d ds) = {}" "length bs < n"
  shows "\<exists>h'. list_unique_loop n l (Some d) e lt h = (Inr (), h')
    \<and> dll h' l (as @ e # fst (uniq lt e bs)) \<and> dll h' d (ds @ snd (uniq lt e bs))"
  using assms
proof (induction n arbitrary: as e bs ds h)
  case (Suc n)
  show ?case
  proof (cases bs)
    case Nil
    then show ?thesis using Suc.prems list_next_dll [of h l as e "[]"] by (simp add: list_end_def)
  next
    case (Cons b bs')
    have dl: "dll h l ((as @ [e]) @ b # bs')" using Suc.prems(1) Cons by simp
    have b: "b \<noteq> tail l" using hd_ne_tail [of h l "as @ [e]" b bs'] dl by simp
    have nx: "list_next e h = (Inr b, h)" using list_next_dll [of h l as e bs] Suc.prems(1) Cons by simp
    show ?thesis
    proof (cases "\<not> lt e b \<and> \<not> lt b e")
      case True
      obtain h1 where h1: "list_remove b h = (Inr (hd (bs' @ [tail l])), h1)" "dll h1 l ((as @ [e]) @ bs')"
          "same_outside (set (nodes l ((as @ [e]) @ bs'))) h h1"
        using list_remove_dll [OF dl] by blast
      have d1: "dll h1 d ds"
        by (rule dll_frame [OF Suc.prems(2) h1(3)]) (use Suc.prems(3) Cons in \<open>auto simp: nodes_def\<close>)
      have bn: "b \<noteq> NULL" "b \<notin> set (nodes d ds)"
        using dll_nonnull(3) [OF dl, of b] Suc.prems(3) Cons by (auto simp: nodes_def)
      obtain h2 where h2: "list_push_back d b h1 = (Inr (), h2)" "dll h2 d (ds @ [b])"
          "same_outside (insert b (set (nodes d ds))) h1 h2"
        using list_push_back_dll [OF d1 bn] by blast
      have disj: "insert b (set (nodes d ds)) \<inter> set (nodes l (as @ e # bs')) = {}"
        using Suc.prems(3) Cons dll_nonnull(5-7) [OF dl] b by (auto simp: nodes_def)
      have "dll h2 l (as @ e # bs')"
        by (rule dll_frame [OF _ h2(3) disj]) (use h1(2) in simp)
      moreover have "set (nodes l (as @ e # bs')) \<inter> set (nodes d (ds @ [b])) = {}"
        using disj by (auto simp: nodes_def)
      ultimately obtain h' where "list_unique_loop n l (Some d) e lt h2 = (Inr (), h')"
          "dll h' l (as @ e # fst (uniq lt e bs'))" "dll h' d ((ds @ [b]) @ snd (uniq lt e bs'))"
        using Suc.IH [of h2 as e bs' "ds @ [b]"] h2(2) Suc.prems(4) Cons by auto
      then show ?thesis using True nx h1(1) h2(1) b Cons by (simp add: list_end_def)
    next
      case False
      then show ?thesis
        using Suc.IH [of h "as @ [e]" b bs' ds] Suc.prems nx b Cons by (auto simp: list_end_def)
    qed
  qed
qed simp

text \<open>The groups of adjacent equal elements: the first of each group stays and the rest goes.\<close>

definition equal_group :: "less_func \<Rightarrow> addr list \<Rightarrow> bool" where
  "equal_group lt g \<longleftrightarrow> g \<noteq> [] \<and> (\<forall>r \<in> set (tl g). \<not> lt (hd g) r \<and> \<not> lt r (hd g))"

lemma uniq_groups:
  "\<exists>g gs. concat (g # gs) = e # xs \<and> hd g = e \<and> map hd gs = fst (uniq lt e xs)
     \<and> concat (map tl (g # gs)) = snd (uniq lt e xs) \<and> (\<forall>g \<in> set (g # gs). equal_group lt g)"
proof (induction lt e xs rule: uniq.induct)
  case (1 lt e)
  then show ?case by (intro exI [of _ "[e]"] exI [of _ "[]"]) (simp add: equal_group_def)
next
  case (2 lt e x xs)
  show ?case
  proof (cases "\<not> lt e x \<and> \<not> lt x e")
    case True
    then obtain g gs where g: "concat (g # gs) = e # xs" "hd g = e" "map hd gs = fst (uniq lt e xs)"
        "concat (map tl (g # gs)) = snd (uniq lt e xs)" "\<forall>g \<in> set (g # gs). equal_group lt g"
      using "2.IH" by blast
    then obtain r where r: "g = e # r" by (cases g) (auto simp: equal_group_def)
    show ?thesis
      using g True unfolding r by (intro exI [of _ "e # x # r"] exI [of _ gs]) (auto simp: equal_group_def)
  next
    case False
    then obtain g gs where g: "concat (g # gs) = x # xs" "hd g = x" "map hd gs = fst (uniq lt x xs)"
        "concat (map tl (g # gs)) = snd (uniq lt x xs)" "\<forall>g \<in> set (g # gs). equal_group lt g"
      using "2.IH" by blast
    then show ?thesis
      using False by (intro exI [of _ "[e]"] exI [of _ "g # gs"]) (auto simp: equal_group_def)
  qed
qed

lemma uniq_adjacent: "successively (\<lambda>a b. lt a b \<or> lt b a) (e # fst (uniq lt e xs))"
  by (induction lt e xs rule: uniq.induct) (auto simp: successively_Cons)

text \<open>C21: \<open>list_unique\<close> divides the list into groups of adjacent elements that are equal to the first of
  their group, such that no two successive groups start with equal elements. The list keeps
  the first element of each group, in order; all other elements, and only they, are appended to the
  second list, in order.\<close>

theorem list_unique_correct:
  assumes "dll h l xs" and "dll h d ds" and "set (nodes l xs) \<inter> set (nodes d ds) = {}"
    and "length xs < fuel"
  shows "\<exists>h' gs. list_unique fuel l (Some d) lt h = (Inr (), h') \<and> concat gs = xs
    \<and> (\<forall>g \<in> set gs. equal_group lt g) \<and> successively (\<lambda>a b. lt a b \<or> lt b a) (map hd gs)
    \<and> dll h' l (map hd gs) \<and> dll h' d (ds @ concat (map tl gs))"
proof (cases xs)
  case Nil
  then show ?thesis
    using assms list_empty_dll [OF assms(1)]
    by (intro exI [of _ h] exI [of _ "[]"]) (simp add: list_unique_def)
next
  case (Cons e bs)
  obtain h' where h': "list_unique_loop fuel l (Some d) e lt h = (Inr (), h')"
      "dll h' l (e # fst (uniq lt e bs))" "dll h' d (ds @ snd (uniq lt e bs))"
    using list_unique_loop_dll [of h l "[]" e bs d ds fuel lt] assms Cons by auto
  then have "list_unique fuel l (Some d) lt h = (Inr (), h')"
    using list_empty_dll [OF assms(1)] list_begin_dll [OF assms(1)] Cons
    by (simp add: list_unique_def bnd_apply)
  moreover obtain g gs where "concat (g # gs) = e # bs" "hd g = e" "map hd gs = fst (uniq lt e bs)"
      "concat (map tl (g # gs)) = snd (uniq lt e bs)" "\<forall>g \<in> set (g # gs). equal_group lt g"
    using uniq_groups [of e bs lt] by blast
  ultimately show ?thesis
    using h'(2,3) uniq_adjacent [of lt e bs] Cons by (intro exI [of _ h'] exI [of _ "g # gs"]) simp
qed

definition ex_dup_list :: klist where
  "ex_dup_list = \<lparr>head = 3, tail = 4\<rparr>"

definition ex_two_lists :: lheap where
  "ex_two_lists = \<lparr>prev = (prev ex_heap)(4 := 3), nxt = (nxt ex_heap)(3 := 4)\<rparr>"

lemma ex_two_lists_dll: "dll ex_two_lists ex_list [30, 10, 20]" "dll ex_two_lists ex_dup_list []"
  by (simp_all add: dll_def nodes_def ex_two_lists_def ex_heap_def ex_list_def ex_dup_list_def edge_def)

theorem list_unique_witness:
  "\<exists>h' gs. list_unique 4 ex_list (Some ex_dup_list) (\<lambda>a b. a mod 20 < b mod 20) ex_two_lists = (Inr (), h')
    \<and> concat gs = [30, 10, 20] \<and> (\<forall>g \<in> set gs. equal_group (\<lambda>a b. a mod 20 < b mod 20) g)
    \<and> successively (\<lambda>a b. a mod 20 < b mod 20 \<or> b mod 20 < a mod 20) (map hd gs)
    \<and> dll h' ex_list (map hd gs) \<and> dll h' ex_dup_list ([] @ concat (map tl gs))"
  by (rule list_unique_correct [OF ex_two_lists_dll]) (simp_all add: nodes_def ex_list_def ex_dup_list_def)

end
