(* ===== verification/Run_Allocator.thy ===== *)
theory Run_Allocator
  imports Prelude
begin

text \<open>
  The contract between a map of free units and the three allocators built on one: the page
  allocator, the swap partition and the free-sector map all ask for a run of consecutive free
  units and later give a run back. The locale states what the map promises; its lemmas show,
  once for all three, that the runs handed out and not yet given back never overlap.
\<close>

definition covers :: "(nat \<times> nat) list \<Rightarrow> nat \<Rightarrow> bool" where
  "covers rs j \<longleftrightarrow> (\<exists>(i, n) \<in> set rs. i \<le> j \<and> j < i + n)"

text \<open>No unit belongs to two of the runs.\<close>

fun disjoint_runs :: "(nat \<times> nat) list \<Rightarrow> bool" where
  "disjoint_runs [] = True"
| "disjoint_runs ((i, n) # rs) \<longleftrightarrow> (\<forall>j \<in> {i..<i + n}. \<not> covers rs j) \<and> disjoint_runs rs"

definition runs_within :: "nat \<Rightarrow> (nat \<times> nat) list \<Rightarrow> bool" where
  "runs_within cap rs \<longleftrightarrow> (\<forall>(i, n) \<in> set rs. i + n \<le> cap)"

lemma covers_Cons: "covers ((i, n) # rs) j \<longleftrightarrow> i \<le> j \<and> j < i + n \<or> covers rs j"
  by (auto simp: covers_def)

lemma covers_Nil [simp]: "\<not> covers [] j"
  by (simp add: covers_def)

lemma runs_within_Cons [simp]: "runs_within cap ((i, n) # rs) \<longleftrightarrow> i + n \<le> cap \<and> runs_within cap rs"
  by (simp add: runs_within_def)

lemma runs_within_remove1: "runs_within cap rs \<Longrightarrow> runs_within cap (remove1 r rs)"
  by (auto simp: runs_within_def dest: notin_set_remove1 [rotated] set_mp [OF set_remove1_subset])

lemma covers_remove1_imp: "covers (remove1 r rs) j \<Longrightarrow> covers rs j"
  by (auto simp: covers_def dest: set_mp [OF set_remove1_subset])

lemma disjoint_runs_remove1: "disjoint_runs rs \<Longrightarrow> disjoint_runs (remove1 r rs)"
  by (induction rs rule: disjoint_runs.induct) (auto dest: covers_remove1_imp)

text \<open>Taking one run away uncovers exactly its units.\<close>

lemma covers_remove1:
  "disjoint_runs rs \<Longrightarrow> (i, n) \<in> set rs \<Longrightarrow>
   covers (remove1 (i, n) rs) j \<longleftrightarrow> covers rs j \<and> \<not> (i \<le> j \<and> j < i + n)"
proof (induction rs rule: disjoint_runs.induct)
  case (2 a m rs)
  show ?case
  proof (cases "(i, n) = (a, m)")
    case True
    then show ?thesis using 2 by (auto simp: covers_Cons)
  next
    case False
    then have mem: "(i, n) \<in> set rs" using 2 by auto
    have "\<not> (a \<le> j \<and> j < a + m)" if "i \<le> j" "j < i + n"
    proof -
      have "covers rs j" using mem that by (auto simp: covers_def)
      then show ?thesis using 2 by auto
    qed
    then show ?thesis using 2 mem False by (auto simp: covers_Cons)
  qed
qed simp

lemma covers_mem: "(i, n) \<in> set rs \<Longrightarrow> i \<le> k \<Longrightarrow> k < i + n \<Longrightarrow> covers rs k"
  by (auto simp: covers_def)

lemma disjoint_runs_two:
  assumes "disjoint_runs rs" "(i, n) \<in> set rs" "(j, m) \<in> set rs" "(i, n) \<noteq> (j, m)"
  shows "{i..<i + n} \<inter> {j..<j + m} = {}"
  using assms
proof (induction rs rule: disjoint_runs.induct)
  case (2 a l rs)
  consider "(i, n) = (a, l)" "(j, m) \<in> set rs" | "(j, m) = (a, l)" "(i, n) \<in> set rs"
    | "(i, n) \<in> set rs" "(j, m) \<in> set rs"
    using 2 by auto
  then show ?case
  proof cases
    case 1
    then show ?thesis using 2 covers_mem [OF 1(2)] by fastforce
  next
    case b: 2
    then show ?thesis using 2 covers_mem [OF b(2)] by fastforce
  next
    case 3
    then show ?thesis using 2 by simp
  qed
qed simp

locale run_allocator =
  fixes inv :: "'b \<Rightarrow> bool"
    and cap :: "'b \<Rightarrow> nat"
    and used :: "'b \<Rightarrow> nat \<Rightarrow> bool"
    and take_run :: "'b \<Rightarrow> nat \<Rightarrow> (nat \<times> 'b) res"
    and give_run :: "'b \<Rightarrow> nat \<Rightarrow> nat \<Rightarrow> 'b res"
    and err :: nat
  assumes cap_err: "inv b \<Longrightarrow> cap b < err"
    and take_total: "inv b \<Longrightarrow> \<exists>i b'. take_run b n = Inr (i, b')"
    and take_fail: "inv b \<Longrightarrow> take_run b n = Inr (err, b') \<Longrightarrow>
      b' = b \<and> (\<forall>i. i + n \<le> cap b \<longrightarrow> (\<exists>j \<in> {i..<i + n}. used b j))"
    and take_found: "inv b \<Longrightarrow> take_run b n = Inr (i, b') \<Longrightarrow> i \<noteq> err \<Longrightarrow>
      inv b' \<and> cap b' = cap b \<and> i + n \<le> cap b \<and> (\<forall>j \<in> {i..<i + n}. \<not> used b j)
      \<and> (\<forall>j. used b' j \<longleftrightarrow> used b j \<or> i \<le> j \<and> j < i + n)"
    and give: "inv b \<Longrightarrow> i + n \<le> cap b \<Longrightarrow>
      \<exists>b'. give_run b i n = Inr b' \<and> inv b' \<and> cap b' = cap b
        \<and> (\<forall>j. used b' j \<longleftrightarrow> used b j \<and> \<not> (i \<le> j \<and> j < i + n))"
begin

text \<open>The map records exactly the outstanding runs.\<close>

definition tracks :: "'b \<Rightarrow> (nat \<times> nat) list \<Rightarrow> bool" where
  "tracks b rs \<longleftrightarrow> inv b \<and> runs_within (cap b) rs \<and> disjoint_runs rs \<and> (\<forall>j. used b j \<longleftrightarrow> covers rs j)"

lemma tracks_take:
  assumes "tracks b rs" and "take_run b n = Inr (i, b')" and "i \<noteq> err"
  shows "tracks b' ((i, n) # rs)" and "\<forall>j \<in> {i..<i + n}. \<not> covers rs j"
  using assms take_found [of b n i b'] by (auto simp: tracks_def covers_Cons)

lemma tracks_take_fail:
  assumes "tracks b rs" and "take_run b n = Inr (err, b')"
  shows "b' = b" and "i + n \<le> cap b \<Longrightarrow> \<exists>j \<in> {i..<i + n}. covers rs j"
  using assms take_fail [of b n b'] by (auto simp: tracks_def)

lemma tracks_give:
  assumes "tracks b rs" and "(i, n) \<in> set rs"
  shows "\<exists>b'. give_run b i n = Inr b' \<and> tracks b' (remove1 (i, n) rs)"
proof -
  have "i + n \<le> cap b" using assms by (auto simp: tracks_def runs_within_def)
  then obtain b' where b': "give_run b i n = Inr b'" "inv b'" "cap b' = cap b"
      "\<forall>j. used b' j \<longleftrightarrow> used b j \<and> \<not> (i \<le> j \<and> j < i + n)"
    using give [of b i n] assms(1) by (auto simp: tracks_def)
  moreover have "tracks b' (remove1 (i, n) rs)"
    using assms b' covers_remove1 [of rs i n]
    by (auto simp: tracks_def runs_within_remove1 disjoint_runs_remove1)
  ultimately show ?thesis by blast
qed

text \<open>A run just given back can be taken again: giving then taking finds room.\<close>

lemma give_then_take:
  assumes "tracks b rs" and "(i, n) \<in> set rs" and "give_run b i n = Inr b'"
  shows "\<exists>k b''. take_run b' n = Inr (k, b'') \<and> k \<noteq> err"
proof -
  have t: "tracks b' (remove1 (i, n) rs)" using tracks_give [OF assms(1,2)] assms(3) by auto
  have free: "\<not> covers (remove1 (i, n) rs) j" if "j \<in> {i..<i + n}" for j
    using covers_remove1 [of rs i n j] assms that by (auto simp: tracks_def)
  have "cap b' = cap b" and bound: "i + n \<le> cap b"
    using give [of b i n] assms by (auto simp: tracks_def runs_within_def)
  then have "take_run b' n \<noteq> Inr (err, b'')" for b''
    using tracks_take_fail(2) [OF t, of n b'' i] free by fastforce
  then show ?thesis using take_total [of b' n] t by (auto simp: tracks_def)
qed

end

end
