(* ===== verification/Bitmap.thy ===== *)
theory Bitmap
  imports Run_Allocator
begin

unbundle bit_operations_syntax

text \<open>
  Bitmaps, from \<^verbatim>\<open>lib/kernel/bitmap.c\<close>: an array of 32-bit elements that simulates an array of
  bits. Every operation keeps its assertions, its \<open>size_t\<close> sums wrap, and an access outside the
  element array is a fault. \<open>bm_abs\<close> is the bit string a bitmap stands for; each operation is
  shown to be the corresponding operation on bit strings, and the pair \<open>bitmap_scan_and_flip\<close> /
  \<open>bitmap_set_multiple\<close> to meet the contract of \<open>run_allocator\<close>.
\<close>

record bitmap =
  bit_cnt :: nat
  bits :: "u32 list"

definition ELEM_BITS :: nat where "ELEM_BITS = 32"

definition BITMAP_ERROR :: nat where "BITMAP_ERROR = 2 ^ 32 - 1"

definition elem_idx :: "nat \<Rightarrow> nat" where
  "elem_idx bit_idx = bit_idx div ELEM_BITS"

definition bit_mask :: "nat \<Rightarrow> u32" where
  "bit_mask bit_idx = push_bit (bit_idx mod ELEM_BITS) 1"

definition elem_cnt :: "nat \<Rightarrow> nat" where
  "elem_cnt n = DIV_ROUND_UP n ELEM_BITS"

definition byte_cnt :: "nat \<Rightarrow> nat" where
  "byte_cnt n = sz (4 * elem_cnt n)"

definition last_mask :: "bitmap \<Rightarrow> u32" where
  "last_mask b = (let last_bits = bit_cnt b mod ELEM_BITS in
     if last_bits \<noteq> 0 then push_bit last_bits 1 - 1 else - 1)"

definition bitmap_size :: "bitmap \<Rightarrow> nat" where
  "bitmap_size b = bit_cnt b"

text \<open>The read-modify-write of one element, \<open>b->bits[idx] = f (b->bits[idx])\<close>.\<close>

definition upd_elem :: "bitmap \<Rightarrow> nat \<Rightarrow> (u32 \<Rightarrow> u32) \<Rightarrow> bitmap res" where
  "upd_elem b idx f =
     (if idx < length (bits b) then Inr (b\<lparr>bits := (bits b)[idx := f (bits b ! idx)]\<rparr>) else Inl OutOfBounds)"

definition bitmap_mark :: "bitmap \<Rightarrow> nat \<Rightarrow> bitmap res" where
  "bitmap_mark b bit_idx = upd_elem b (elem_idx bit_idx) (\<lambda>e. e OR bit_mask bit_idx)"

definition bitmap_reset :: "bitmap \<Rightarrow> nat \<Rightarrow> bitmap res" where
  "bitmap_reset b bit_idx = upd_elem b (elem_idx bit_idx) (\<lambda>e. e AND NOT (bit_mask bit_idx))"

definition bitmap_flip :: "bitmap \<Rightarrow> nat \<Rightarrow> bitmap res" where
  "bitmap_flip b bit_idx = upd_elem b (elem_idx bit_idx) (\<lambda>e. e XOR bit_mask bit_idx)"

definition bitmap_set :: "bitmap \<Rightarrow> nat \<Rightarrow> bool \<Rightarrow> bitmap res" where
  "bitmap_set b idx v =
     rassert (idx < bit_cnt b) (if v then bitmap_mark b idx else bitmap_reset b idx)"

definition bitmap_test :: "bitmap \<Rightarrow> nat \<Rightarrow> bool res" where
  "bitmap_test b idx =
     rassert (idx < bit_cnt b)
       (if elem_idx idx < length (bits b) then Inr (bits b ! elem_idx idx AND bit_mask idx \<noteq> 0)
        else Inl OutOfBounds)"

text \<open>The loops over \<open>i\<close> of the functions on ranges, by the number of iterations left.\<close>

fun set_loop :: "bitmap \<Rightarrow> nat \<Rightarrow> nat \<Rightarrow> nat \<Rightarrow> bool \<Rightarrow> bitmap res" where
  "set_loop b start i 0 v = Inr b"
| "set_loop b start i (Suc n) v =
     rbind (bitmap_set b (sz (start + i)) v) (\<lambda>b. set_loop b start (i + 1) n v)"

definition bitmap_set_multiple :: "bitmap \<Rightarrow> nat \<Rightarrow> nat \<Rightarrow> bool \<Rightarrow> bitmap res" where
  "bitmap_set_multiple b start cnt v =
     rassert (start \<le> bit_cnt b) (rassert (sz (start + cnt) \<le> bit_cnt b) (set_loop b start 0 cnt v))"

definition bitmap_set_all :: "bitmap \<Rightarrow> bool \<Rightarrow> bitmap res" where
  "bitmap_set_all b v = bitmap_set_multiple b 0 (bitmap_size b) v"

fun count_loop :: "bitmap \<Rightarrow> nat \<Rightarrow> nat \<Rightarrow> nat \<Rightarrow> bool \<Rightarrow> nat \<Rightarrow> nat res" where
  "count_loop b start i 0 v value_cnt = Inr value_cnt"
| "count_loop b start i (Suc n) v value_cnt =
     rbind (bitmap_test b (sz (start + i))) (\<lambda>t.
       count_loop b start (i + 1) n v (if t = v then value_cnt + 1 else value_cnt))"

definition bitmap_count :: "bitmap \<Rightarrow> nat \<Rightarrow> nat \<Rightarrow> bool \<Rightarrow> nat res" where
  "bitmap_count b start cnt v =
     rassert (start \<le> bit_cnt b) (rassert (sz (start + cnt) \<le> bit_cnt b) (count_loop b start 0 cnt v 0))"

fun contains_loop :: "bitmap \<Rightarrow> nat \<Rightarrow> nat \<Rightarrow> nat \<Rightarrow> bool \<Rightarrow> bool res" where
  "contains_loop b start i 0 v = Inr False"
| "contains_loop b start i (Suc n) v =
     rbind (bitmap_test b (sz (start + i))) (\<lambda>t.
       if t = v then Inr True else contains_loop b start (i + 1) n v)"

definition bitmap_contains :: "bitmap \<Rightarrow> nat \<Rightarrow> nat \<Rightarrow> bool \<Rightarrow> bool res" where
  "bitmap_contains b start cnt v =
     rassert (start \<le> bit_cnt b) (rassert (sz (start + cnt) \<le> bit_cnt b) (contains_loop b start 0 cnt v))"

definition bitmap_any :: "bitmap \<Rightarrow> nat \<Rightarrow> nat \<Rightarrow> bool res" where
  "bitmap_any b start cnt = bitmap_contains b start cnt True"

definition bitmap_none :: "bitmap \<Rightarrow> nat \<Rightarrow> nat \<Rightarrow> bool res" where
  "bitmap_none b start cnt = rbind (bitmap_contains b start cnt True) (\<lambda>t. Inr (\<not> t))"

definition bitmap_all :: "bitmap \<Rightarrow> nat \<Rightarrow> nat \<Rightarrow> bool res" where
  "bitmap_all b start cnt = rbind (bitmap_contains b start cnt False) (\<lambda>t. Inr (\<not> t))"

text \<open>\<open>for (i = start; i <= last; i++)\<close>, with \<open>n = last + 1 - start\<close> iterations left.\<close>

fun scan_loop :: "bitmap \<Rightarrow> nat \<Rightarrow> nat \<Rightarrow> nat \<Rightarrow> bool \<Rightarrow> nat res" where
  "scan_loop b i 0 cnt v = Inr BITMAP_ERROR"
| "scan_loop b i (Suc n) cnt v =
     rbind (bitmap_contains b i cnt (\<not> v)) (\<lambda>t. if \<not> t then Inr i else scan_loop b (i + 1) n cnt v)"

definition bitmap_scan :: "bitmap \<Rightarrow> nat \<Rightarrow> nat \<Rightarrow> bool \<Rightarrow> nat res" where
  "bitmap_scan b start cnt v =
     rassert (start \<le> bit_cnt b)
       (if cnt \<le> bit_cnt b
        then scan_loop b start (bit_cnt b - cnt + 1 - start) cnt v
        else Inr BITMAP_ERROR)"

definition bitmap_scan_and_flip :: "bitmap \<Rightarrow> nat \<Rightarrow> nat \<Rightarrow> bool \<Rightarrow> (nat \<times> bitmap) res" where
  "bitmap_scan_and_flip b start cnt v =
     rbind (bitmap_scan b start cnt v) (\<lambda>idx.
       if idx \<noteq> BITMAP_ERROR
       then rbind (bitmap_set_multiple b idx cnt (\<not> v)) (\<lambda>b. Inr (idx, b))
       else Inr (idx, b))"

text \<open>\<open>bitmap_create\<close>: \<open>hdr\<close> says whether the first \<open>malloc\<close> succeeds, \<open>buf\<close> is the array the second
  one returns, with whatever it contains.\<close>

definition bitmap_create :: "bool \<Rightarrow> u32 list option \<Rightarrow> nat \<Rightarrow> bitmap option res" where
  "bitmap_create hdr buf n =
     (if hdr
      then if buf \<noteq> None \<or> n = 0
           then rbind (bitmap_set_all \<lparr>bit_cnt = n, bits = (case buf of None \<Rightarrow> [] | Some e \<Rightarrow> e)\<rparr> False)
                  (\<lambda>b. Inr (Some b))
           else Inr None
      else Inr None)"

definition bitmap_buf_size :: "nat \<Rightarrow> nat" where
  "bitmap_buf_size n = sz (8 + byte_cnt n)"

text \<open>\<open>buf\<close>: the elements after the header in the block given to \<open>bitmap_create_in_buf\<close>.\<close>

definition bitmap_create_in_buf :: "nat \<Rightarrow> u32 list \<Rightarrow> nat \<Rightarrow> bitmap res" where
  "bitmap_create_in_buf n buf block_size =
     rassert (bitmap_buf_size n \<le> block_size) (bitmap_set_all \<lparr>bit_cnt = n, bits = buf\<rparr> False)"

subsection \<open>The bit string of a bitmap\<close>

definition wf_bitmap :: "bitmap \<Rightarrow> bool" where
  "wf_bitmap b \<longleftrightarrow> bit_cnt b + 31 < 2 ^ 32 \<and> bit_cnt b \<le> 32 * length (bits b)"

definition bm_bit :: "bitmap \<Rightarrow> nat \<Rightarrow> bool" where
  "bm_bit b i \<longleftrightarrow> i < bit_cnt b \<and> bit (bits b ! (i div 32)) (i mod 32)"

definition bm_abs :: "bitmap \<Rightarrow> bool list" where
  "bm_abs b = map (bm_bit b) [0..<bit_cnt b]"

lemma wf_bitmapD:
  assumes "wf_bitmap b"
  shows "bit_cnt b < 2 ^ 32" "bit_cnt b < BITMAP_ERROR" "i < bit_cnt b \<Longrightarrow> i div 32 < length (bits b)"
  using assms by (auto simp: wf_bitmap_def BITMAP_ERROR_def)

lemma bm_abs_nth [simp]: "i < bit_cnt b \<Longrightarrow> bm_abs b ! i = bm_bit b i"
  by (simp add: bm_abs_def)

lemma length_bm_abs [simp]: "length (bm_abs b) = bit_cnt b"
  by (simp add: bm_abs_def)

lemma bm_abs_eqI:
  "bit_cnt b' = length xs \<Longrightarrow> (\<And>i. i < length xs \<Longrightarrow> bm_bit b' i = xs ! i) \<Longrightarrow> bm_abs b' = xs"
  by (rule nth_equalityI) simp_all

lemma elem_cnt_exact: "n + 31 < 2 ^ 32 \<Longrightarrow> elem_cnt n = (n + 31) div 32"
  by (simp add: elem_cnt_def ELEM_BITS_def DIV_ROUND_UP_exact)

lemma elem_cnt_covers: "n + 31 < 2 ^ 32 \<Longrightarrow> n \<le> 32 * elem_cnt n"
  using DIV_ROUND_UP_covers(1) [of 32 n] by (simp add: elem_cnt_def ELEM_BITS_def)

lemma bit_bit_mask: "bit (bit_mask i) k \<longleftrightarrow> k = i mod 32"
proof -
  have "i mod 32 < 32" by simp
  then show ?thesis by (auto simp: bit_mask_def ELEM_BITS_def bit_simps simp del: mod_less_divisor)
qed

lemma and_bit_mask: "w AND bit_mask i \<noteq> 0 \<longleftrightarrow> bit w (i mod 32)"
proof -
  have "w AND bit_mask i = 0 \<longleftrightarrow> \<not> bit w (i mod 32)"
    unfolding bit_mask_def ELEM_BITS_def push_bit_eq_mult mult_1 by (rule and_exp_eq_0_iff_not_bit)
  then show ?thesis by blast
qed

lemma div_mod_eq_iff: "i div 32 = j div 32 \<Longrightarrow> i mod 32 = j mod 32 \<longleftrightarrow> i = (j::nat)"
  by (metis div_mult_mod_eq)

subsection \<open>Single bits\<close>

lemma bitmap_test_abs: "wf_bitmap b \<Longrightarrow> i < bit_cnt b \<Longrightarrow> bitmap_test b i = Inr (bm_bit b i)"
  using wf_bitmapD(3) [of b i] and_bit_mask [of "bits b ! (i div 32)" i]
  by (simp add: bitmap_test_def elem_idx_def ELEM_BITS_def bm_bit_def)

text \<open>Changing bit \<open>i\<close> of one element changes bit \<open>i\<close> of the bit string and no other.\<close>

lemma upd_elem_abs:
  assumes "wf_bitmap b" "i < bit_cnt b"
    and f: "\<And>w k. k < 32 \<Longrightarrow> bit (f w) k = (if k = i mod 32 then g (bit w k) else bit w k)"
  shows "\<exists>b'. upd_elem b (elem_idx i) f = Inr b' \<and> wf_bitmap b' \<and> bit_cnt b' = bit_cnt b
    \<and> (\<forall>j. bm_bit b' j = (if j = i then g (bm_bit b i) else bm_bit b j))"
proof -
  let ?b = "b\<lparr>bits := (bits b)[i div 32 := f (bits b ! (i div 32))]\<rparr>"
  have in_range: "i div 32 < length (bits b)" using wf_bitmapD(3) assms by blast
  have "bm_bit ?b j = (if j = i then g (bm_bit b i) else bm_bit b j)" for j
  proof (cases "j div 32 = i div 32")
    case True
    then show ?thesis
      using in_range assms(2) f [of "j mod 32"] div_mod_eq_iff [of j i] by (auto simp: bm_bit_def)
  next
    case False
    then show ?thesis by (auto simp: bm_bit_def)
  qed
  moreover have "wf_bitmap ?b" using assms(1) by (simp add: wf_bitmap_def)
  ultimately show ?thesis using in_range by (simp add: upd_elem_def elem_idx_def ELEM_BITS_def)
qed

lemma bitmap_set_abs:
  assumes "wf_bitmap b" "i < bit_cnt b"
  shows "\<exists>b'. bitmap_set b i v = Inr b' \<and> wf_bitmap b' \<and> bit_cnt b' = bit_cnt b
    \<and> (\<forall>j. bm_bit b' j = (if j = i then v else bm_bit b j))"
proof (cases v)
  case True
  have "\<exists>b'. upd_elem b (elem_idx i) (\<lambda>e. e OR bit_mask i) = Inr b' \<and> wf_bitmap b'
    \<and> bit_cnt b' = bit_cnt b \<and> (\<forall>j. bm_bit b' j = (if j = i then True else bm_bit b j))"
    by (rule upd_elem_abs [OF assms]) (simp add: bit_or_iff bit_bit_mask)
  with True assms(2) show ?thesis by (auto simp: bitmap_set_def bitmap_mark_def)
next
  case False
  have "\<exists>b'. upd_elem b (elem_idx i) (\<lambda>e. e AND NOT (bit_mask i)) = Inr b' \<and> wf_bitmap b'
    \<and> bit_cnt b' = bit_cnt b \<and> (\<forall>j. bm_bit b' j = (if j = i then False else bm_bit b j))"
    by (rule upd_elem_abs [OF assms]) (simp add: bit_and_iff bit_not_iff bit_bit_mask)
  with False assms(2) show ?thesis by (auto simp: bitmap_set_def bitmap_reset_def)
qed

lemma bitmap_flip_abs:
  assumes "wf_bitmap b" "i < bit_cnt b"
  shows "\<exists>b'. bitmap_flip b i = Inr b' \<and> wf_bitmap b' \<and> bit_cnt b' = bit_cnt b
    \<and> (\<forall>j. bm_bit b' j = (if j = i then \<not> bm_bit b i else bm_bit b j))"
  using upd_elem_abs [OF assms, of "\<lambda>e. e XOR bit_mask i" Not]
  by (simp add: bitmap_flip_def bit_xor_iff bit_bit_mask)

subsection \<open>Ranges\<close>

lemma set_loop_abs:
  assumes "wf_bitmap b" "start + i + n \<le> bit_cnt b"
  shows "\<exists>b'. set_loop b start i n v = Inr b' \<and> wf_bitmap b' \<and> bit_cnt b' = bit_cnt b
    \<and> (\<forall>j. bm_bit b' j = (if start + i \<le> j \<and> j < start + i + n then v else bm_bit b j))"
  using assms
proof (induction n arbitrary: b i)
  case (Suc n)
  have small: "sz (start + i) = start + i" using Suc.prems wf_bitmapD(1) [OF Suc.prems(1)] by simp
  obtain b1 where b1: "bitmap_set b (start + i) v = Inr b1" "wf_bitmap b1" "bit_cnt b1 = bit_cnt b"
      "\<forall>j. bm_bit b1 j = (if j = start + i then v else bm_bit b j)"
    using bitmap_set_abs [OF Suc.prems(1), of "start + i" v] Suc.prems(2) by auto
  obtain b2 where b2: "set_loop b1 start (i + 1) n v = Inr b2" "wf_bitmap b2" "bit_cnt b2 = bit_cnt b1"
      "\<forall>j. bm_bit b2 j = (if start + (i + 1) \<le> j \<and> j < start + (i + 1) + n then v else bm_bit b1 j)"
    using Suc.IH [OF b1(2), of "i + 1"] Suc.prems(2) b1(3) by auto
  show ?case using b1 b2 small by auto
qed (use linorder_not_less in auto)

lemma bitmap_set_multiple_abs:
  assumes "wf_bitmap b" "start + cnt \<le> bit_cnt b"
  shows "\<exists>b'. bitmap_set_multiple b start cnt v = Inr b' \<and> wf_bitmap b' \<and> bit_cnt b' = bit_cnt b
    \<and> (\<forall>j. bm_bit b' j = (if start \<le> j \<and> j < start + cnt then v else bm_bit b j))"
  using set_loop_abs [of b start 0 cnt v] wf_bitmapD(1) [OF assms(1)] assms
  by (simp add: bitmap_set_multiple_def)

lemma contains_loop_abs:
  assumes "wf_bitmap b" "start + i + n \<le> bit_cnt b"
  shows "contains_loop b start i n v = Inr (\<exists>j. start + i \<le> j \<and> j < start + i + n \<and> bm_bit b j = v)"
  using assms
proof (induction n arbitrary: i)
  case (Suc n)
  have small: "sz (start + i) = start + i" using Suc.prems wf_bitmapD(1) [OF Suc.prems(1)] by simp
  have t: "bitmap_test b (start + i) = Inr (bm_bit b (start + i))"
    using bitmap_test_abs Suc.prems by simp
  show ?case
    using Suc.IH [of "i + 1"] Suc.prems
    unfolding ex_range_Suc [of "start + i" n "\<lambda>j. bm_bit b j = v"] by (simp add: t small)
qed simp

lemma bitmap_contains_abs:
  assumes "wf_bitmap b" "start + cnt \<le> bit_cnt b"
  shows "bitmap_contains b start cnt v = Inr (\<exists>j. start \<le> j \<and> j < start + cnt \<and> bm_bit b j = v)"
  using contains_loop_abs [of b start 0 cnt v] wf_bitmapD(1) [OF assms(1)] assms
  by (simp add: bitmap_contains_def)

lemma count_loop_abs:
  assumes "wf_bitmap b" "start + i + n \<le> bit_cnt b"
  shows "count_loop b start i n v k
    = Inr (k + length (filter (\<lambda>x. x = v) (take n (drop (start + i) (bm_abs b)))))"
  using assms
proof (induction n arbitrary: i k)
  case (Suc n)
  have small: "sz (start + i) = start + i" using Suc.prems wf_bitmapD(1) [OF Suc.prems(1)] by simp
  have t: "bitmap_test b (start + i) = Inr (bm_bit b (start + i))"
    using bitmap_test_abs Suc.prems by simp
  have "drop (start + i) (bm_abs b) = bm_bit b (start + i) # drop (start + (i + 1)) (bm_abs b)"
    using Suc.prems by (simp add: Cons_nth_drop_Suc [symmetric])
  then show ?case using Suc.IH [of "i + 1"] Suc.prems by (simp add: t small)
qed simp

lemma bitmap_count_abs:
  assumes "wf_bitmap b" "start + cnt \<le> bit_cnt b"
  shows "bitmap_count b start cnt v = Inr (length (filter (\<lambda>x. x = v) (take cnt (drop start (bm_abs b)))))"
  using count_loop_abs [of b start 0 cnt v 0] wf_bitmapD(1) [OF assms(1)] assms
  by (simp add: bitmap_count_def)

subsection \<open>Scanning\<close>

text \<open>\<open>all_bits b i n v\<close>: the \<open>n\<close> bits from \<open>i\<close> on all have the value \<open>v\<close>.\<close>

definition all_bits :: "bitmap \<Rightarrow> nat \<Rightarrow> nat \<Rightarrow> bool \<Rightarrow> bool" where
  "all_bits b i n v \<longleftrightarrow> (\<forall>j \<in> {i..<i + n}. bm_bit b j = v)"

lemma contains_all_bits:
  assumes "wf_bitmap b" "i + cnt \<le> bit_cnt b"
  shows "bitmap_contains b i cnt (\<not> v) = Inr (\<not> all_bits b i cnt v)"
  using bitmap_contains_abs [OF assms, of "\<not> v"] by (auto simp: all_bits_def)

lemma scan_loop_abs:
  assumes "wf_bitmap b" "n = 0 \<or> i + n + cnt \<le> bit_cnt b + 1"
  shows "\<exists>r. scan_loop b i n cnt v = Inr r \<and>
    (r = BITMAP_ERROR \<and> (\<forall>k \<in> {i..<i + n}. \<not> all_bits b k cnt v) \<or>
     i \<le> r \<and> r < i + n \<and> all_bits b r cnt v \<and> (\<forall>k \<in> {i..<r}. \<not> all_bits b k cnt v))"
  using assms
proof (induction n arbitrary: i)
  case (Suc n)
  have c: "bitmap_contains b i cnt (\<not> v) = Inr (\<not> all_bits b i cnt v)"
    using contains_all_bits Suc.prems by simp
  show ?case
  proof (cases "all_bits b i cnt v")
    case True
    then show ?thesis using c by simp
  next
    case False
    obtain r where r: "scan_loop b (i + 1) n cnt v = Inr r"
        "r = BITMAP_ERROR \<and> (\<forall>k \<in> {i + 1..<i + 1 + n}. \<not> all_bits b k cnt v) \<or>
         i + 1 \<le> r \<and> r < i + 1 + n \<and> all_bits b r cnt v \<and> (\<forall>k \<in> {i + 1..<r}. \<not> all_bits b k cnt v)"
      using Suc.IH [of "i + 1"] Suc.prems by fastforce
    from r(2) show ?thesis
    proof
      assume *: "r = BITMAP_ERROR \<and> (\<forall>k \<in> {i + 1..<i + 1 + n}. \<not> all_bits b k cnt v)"
      then have "\<forall>k \<in> {i..<i + Suc n}. \<not> all_bits b k cnt v"
        using ball_range_step [of "\<lambda>k. \<not> all_bits b k cnt v" i "i + Suc n"] False by simp
      then show ?thesis using * r(1) c False by simp
    next
      assume *: "i + 1 \<le> r \<and> r < i + 1 + n \<and> all_bits b r cnt v \<and> (\<forall>k \<in> {i + 1..<r}. \<not> all_bits b k cnt v)"
      then have "\<forall>k \<in> {i..<r}. \<not> all_bits b k cnt v"
        using ball_range_step [of "\<lambda>k. \<not> all_bits b k cnt v" i r] False by simp
      then show ?thesis using * r(1) c False by simp
    qed
  qed
qed simp

lemma bitmap_scan_abs:
  assumes "wf_bitmap b" "start \<le> bit_cnt b"
  shows "\<exists>r. bitmap_scan b start cnt v = Inr r \<and>
    (r = BITMAP_ERROR \<and> (\<forall>k. start \<le> k \<and> k + cnt \<le> bit_cnt b \<longrightarrow> \<not> all_bits b k cnt v) \<or>
     start \<le> r \<and> r + cnt \<le> bit_cnt b \<and> all_bits b r cnt v \<and> (\<forall>k \<in> {start..<r}. \<not> all_bits b k cnt v))"
proof (cases "cnt \<le> bit_cnt b")
  case True
  let ?n = "bit_cnt b - cnt + 1 - start"
  have n: "?n = 0 \<or> start + ?n + cnt \<le> bit_cnt b + 1" using True by linarith
  obtain r where r: "scan_loop b start ?n cnt v = Inr r"
      "r = BITMAP_ERROR \<and> (\<forall>k \<in> {start..<start + ?n}. \<not> all_bits b k cnt v) \<or>
       start \<le> r \<and> r < start + ?n \<and> all_bits b r cnt v \<and> (\<forall>k \<in> {start..<r}. \<not> all_bits b k cnt v)"
    using scan_loop_abs [OF assms(1) n] by blast
  have "start \<le> k \<Longrightarrow> k + cnt \<le> bit_cnt b \<Longrightarrow> k \<in> {start..<start + ?n}" for k using True by simp
  moreover have "start \<le> r \<Longrightarrow> r < start + ?n \<Longrightarrow> r + cnt \<le> bit_cnt b" using True by linarith
  ultimately show ?thesis using r True assms(2) by (auto simp: bitmap_scan_def)
next
  case False
  then show ?thesis using assms(2) by (auto simp: bitmap_scan_def)
qed

lemma bitmap_scan_and_flip_abs:
  assumes "wf_bitmap b" "start \<le> bit_cnt b"
  shows "\<exists>r b'. bitmap_scan_and_flip b start cnt v = Inr (r, b') \<and>
    (r = BITMAP_ERROR \<and> b' = b \<and> (\<forall>k. start \<le> k \<and> k + cnt \<le> bit_cnt b \<longrightarrow> \<not> all_bits b k cnt v) \<or>
     r \<noteq> BITMAP_ERROR \<and> start \<le> r \<and> r + cnt \<le> bit_cnt b \<and> all_bits b r cnt v
     \<and> (\<forall>k \<in> {start..<r}. \<not> all_bits b k cnt v) \<and> wf_bitmap b' \<and> bit_cnt b' = bit_cnt b
     \<and> (\<forall>j. bm_bit b' j = (if r \<le> j \<and> j < r + cnt then \<not> v else bm_bit b j)))"
proof -
  obtain r where r: "bitmap_scan b start cnt v = Inr r"
    "r = BITMAP_ERROR \<and> (\<forall>k. start \<le> k \<and> k + cnt \<le> bit_cnt b \<longrightarrow> \<not> all_bits b k cnt v) \<or>
     start \<le> r \<and> r + cnt \<le> bit_cnt b \<and> all_bits b r cnt v \<and> (\<forall>k \<in> {start..<r}. \<not> all_bits b k cnt v)"
    using bitmap_scan_abs [OF assms] by blast
  show ?thesis
  proof (cases "r = BITMAP_ERROR")
    case True
    then show ?thesis using r wf_bitmapD(2) [OF assms(1)] by (auto simp: bitmap_scan_and_flip_def)
  next
    case False
    then obtain b' where "bitmap_set_multiple b r cnt (\<not> v) = Inr b'" "wf_bitmap b'" "bit_cnt b' = bit_cnt b"
        "\<forall>j. bm_bit b' j = (if r \<le> j \<and> j < r + cnt then \<not> v else bm_bit b j)"
      using bitmap_set_multiple_abs [OF assms(1), of r cnt "\<not> v"] r(2) by blast
    then show ?thesis using r False
      by (intro exI [of _ r] exI [of _ b']) (simp add: bitmap_scan_and_flip_def)
  qed
qed

subsection \<open>Creation\<close>

lemma bitmap_set_all_abs:
  assumes "wf_bitmap b"
  shows "\<exists>b'. bitmap_set_all b v = Inr b' \<and> wf_bitmap b' \<and> bm_abs b' = replicate (bit_cnt b) v"
proof -
  obtain b' where b': "bitmap_set_multiple b 0 (bit_cnt b) v = Inr b'" "wf_bitmap b'" "bit_cnt b' = bit_cnt b"
      "\<forall>j. bm_bit b' j = (if 0 \<le> j \<and> j < 0 + bit_cnt b then v else bm_bit b j)"
    using bitmap_set_multiple_abs [OF assms, of 0 "bit_cnt b" v] by auto
  have "bm_abs b' = replicate (bit_cnt b) v" by (rule bm_abs_eqI) (use b' in simp_all)
  then show ?thesis using b' by (simp add: bitmap_set_all_def bitmap_size_def)
qed

subsection \<open>The allocator contract\<close>

interpretation bm: run_allocator wf_bitmap bit_cnt bm_bit
  "\<lambda>b n. bitmap_scan_and_flip b 0 n False" "\<lambda>b i n. bitmap_set_multiple b i n False" BITMAP_ERROR
proof
  fix b :: bitmap and n i b'
  assume wf: "wf_bitmap b"
  note scan = bitmap_scan_and_flip_abs [OF wf, of 0 n False]
  show "bit_cnt b < BITMAP_ERROR" using wf by (rule wf_bitmapD)
  show "\<exists>i b'. bitmap_scan_and_flip b 0 n False = Inr (i, b')" using scan by auto
  show "b' = b \<and> (\<forall>i. i + n \<le> bit_cnt b \<longrightarrow> (\<exists>j \<in> {i..<i + n}. bm_bit b j))"
    if "bitmap_scan_and_flip b 0 n False = Inr (BITMAP_ERROR, b')"
    using scan that by (auto simp: all_bits_def)
  show "wf_bitmap b' \<and> bit_cnt b' = bit_cnt b \<and> i + n \<le> bit_cnt b \<and> (\<forall>j \<in> {i..<i + n}. \<not> bm_bit b j)
      \<and> (\<forall>j. bm_bit b' j \<longleftrightarrow> bm_bit b j \<or> i \<le> j \<and> j < i + n)"
    if "bitmap_scan_and_flip b 0 n False = Inr (i, b')" "i \<noteq> BITMAP_ERROR"
    using scan that by (auto simp: all_bits_def)
  show "\<exists>b'. bitmap_set_multiple b i n False = Inr b' \<and> wf_bitmap b' \<and> bit_cnt b' = bit_cnt b
      \<and> (\<forall>j. bm_bit b' j \<longleftrightarrow> bm_bit b j \<and> \<not> (i \<le> j \<and> j < i + n))"
    if "i + n \<le> bit_cnt b"
    using bitmap_set_multiple_abs [OF wf that, of False] by auto
qed

subsection \<open>Properties\<close>

text \<open>C14: \<open>bitmap_scan_and_flip\<close> finds the first run of \<open>cnt\<close> bits at or after \<open>start\<close> that all have the
  given value, flips exactly those bits, and returns \<open>BITMAP_ERROR\<close> with the bitmap untouched
  precisely when no such run exists; it never trips an assertion or leaves the element array. For \<open>cnt = 0\<close>
  the first run is the empty one at \<open>start\<close>, which is therefore the result; the comment above the function
  says that the result is 0 then.\<close>

theorem bitmap_scan_and_flip_correct:
  assumes "wf_bitmap b" and "start \<le> bit_cnt b"
  shows "\<exists>r b'. bitmap_scan_and_flip b start cnt v = Inr (r, b') \<and>
    (r = BITMAP_ERROR \<and> b' = b
       \<and> \<not> (\<exists>k \<ge> start. k + cnt \<le> bit_cnt b \<and> (\<forall>j \<in> {k..<k + cnt}. bm_abs b ! j = v)) \<or>
     start \<le> r \<and> r + cnt \<le> bit_cnt b \<and> (\<forall>j \<in> {r..<r + cnt}. bm_abs b ! j = v)
       \<and> (\<forall>k \<in> {start..<r}. \<exists>j \<in> {k..<k + cnt}. bm_abs b ! j \<noteq> v)
       \<and> wf_bitmap b' \<and> bm_abs b' = take r (bm_abs b) @ replicate cnt (\<not> v) @ drop (r + cnt) (bm_abs b))"
proof -
  have abs: "all_bits b k cnt v \<longleftrightarrow> (\<forall>j \<in> {k..<k + cnt}. bm_abs b ! j = v)" if "k + cnt \<le> bit_cnt b" for k
    using that by (auto simp: all_bits_def)
  have eq: "bm_abs b' = take r (bm_abs b) @ replicate cnt (\<not> v) @ drop (r + cnt) (bm_abs b)"
    if "r + cnt \<le> bit_cnt b" "bit_cnt b' = bit_cnt b"
      "\<forall>j. bm_bit b' j = (if r \<le> j \<and> j < r + cnt then \<not> v else bm_bit b j)" for r b'
    by (rule bm_abs_eqI) (use that in \<open>auto simp: nth_append min_def\<close>)
  obtain r b' where run: "bitmap_scan_and_flip b start cnt v = Inr (r, b')" and
    "r = BITMAP_ERROR \<and> b' = b \<and> (\<forall>k. start \<le> k \<and> k + cnt \<le> bit_cnt b \<longrightarrow> \<not> all_bits b k cnt v) \<or>
     r \<noteq> BITMAP_ERROR \<and> start \<le> r \<and> r + cnt \<le> bit_cnt b \<and> all_bits b r cnt v
     \<and> (\<forall>k \<in> {start..<r}. \<not> all_bits b k cnt v) \<and> wf_bitmap b' \<and> bit_cnt b' = bit_cnt b
     \<and> (\<forall>j. bm_bit b' j = (if r \<le> j \<and> j < r + cnt then \<not> v else bm_bit b j))"
    using bitmap_scan_and_flip_abs [OF assms] by blast
  from this(2) show ?thesis
  proof
    assume "r = BITMAP_ERROR \<and> b' = b \<and> (\<forall>k. start \<le> k \<and> k + cnt \<le> bit_cnt b \<longrightarrow> \<not> all_bits b k cnt v)"
    then show ?thesis using run abs by blast
  next
    assume *: "r \<noteq> BITMAP_ERROR \<and> start \<le> r \<and> r + cnt \<le> bit_cnt b \<and> all_bits b r cnt v
     \<and> (\<forall>k \<in> {start..<r}. \<not> all_bits b k cnt v) \<and> wf_bitmap b' \<and> bit_cnt b' = bit_cnt b
     \<and> (\<forall>j. bm_bit b' j = (if r \<le> j \<and> j < r + cnt then \<not> v else bm_bit b j))"
    then have "\<forall>k \<in> {start..<r}. \<exists>j \<in> {k..<k + cnt}. bm_abs b ! j \<noteq> v"
      using abs by (metis (no_types, lifting) add_le_mono1 atLeastLessThan_iff less_imp_le order_trans)
    then show ?thesis using * run abs eq by blast
  qed
qed

definition ex_bitmap :: bitmap where
  "ex_bitmap = \<lparr>bit_cnt = 40, bits = [0xfffffff3, 0x0f]\<rparr>"

theorem bitmap_scan_and_flip_witness:
  "\<exists>r b'. bitmap_scan_and_flip ex_bitmap 1 2 False = Inr (r, b') \<and>
    (r = BITMAP_ERROR \<and> b' = ex_bitmap
       \<and> \<not> (\<exists>k \<ge> 1. k + 2 \<le> bit_cnt ex_bitmap \<and> (\<forall>j \<in> {k..<k + 2}. bm_abs ex_bitmap ! j = False)) \<or>
     1 \<le> r \<and> r + 2 \<le> bit_cnt ex_bitmap \<and> (\<forall>j \<in> {r..<r + 2}. bm_abs ex_bitmap ! j = False)
       \<and> (\<forall>k \<in> {1..<r}. \<exists>j \<in> {k..<k + 2}. bm_abs ex_bitmap ! j \<noteq> False)
       \<and> wf_bitmap b' \<and> bm_abs b' = take r (bm_abs ex_bitmap) @ replicate 2 (\<not> False) @ drop (r + 2) (bm_abs ex_bitmap))"
proof -
  have "wf_bitmap ex_bitmap" "1 \<le> bit_cnt ex_bitmap" by (simp_all add: ex_bitmap_def wf_bitmap_def)
  then show ?thesis by (rule bitmap_scan_and_flip_correct)
qed

end
