(* ===== verification/Palloc.thy ===== *)
theory Palloc
  imports Memory Bitmap
begin

unbundle bit_operations_syntax

text \<open>
  The page allocator, from \<^verbatim>\<open>threads/palloc.c\<close>. The state is the part of the machine every
  kernel component shares: memory, the two pools, and the boot-time constants. The record is
  extended by later components, so the operations are stated on any extension of it. A pool's
  lock is a flag, and acquiring a lock that is held blocks the caller; the pool's bitmap, which
  the code keeps in the first pages of the pool, is a value of its own and not part of \<open>mem\<close>.
\<close>

record pool =
  pool_lock :: bool
  used_map :: bitmap
  base :: u32

record mach =
  mem :: memory
  kernel_pool :: pool
  user_pool :: pool
  init_ram_pages :: nat
  init_page_dir :: u32
  cr3 :: u32

definition PAL_ASSERT :: u32 where "PAL_ASSERT = 1"
definition PAL_ZERO :: u32 where "PAL_ZERO = 2"
definition PAL_USER :: u32 where "PAL_USER = 4"

text \<open>\<open>pool_of u\<close>: the user pool or the kernel pool.\<close>

definition pool_of :: "bool \<Rightarrow> 'a mach_scheme \<Rightarrow> pool" where
  "pool_of u s = (if u then user_pool s else kernel_pool s)"

definition set_pool :: "bool \<Rightarrow> pool \<Rightarrow> 'a mach_scheme \<Rightarrow> 'a mach_scheme" where
  "set_pool u p s = (if u then s\<lparr>user_pool := p\<rparr> else s\<lparr>kernel_pool := p\<rparr>)"

definition pool_acquire :: "bool \<Rightarrow> ('a mach_scheme, unit) op" where
  "pool_acquire u =
     bnd (gets (pool_of u)) (\<lambda>p.
       if pool_lock p then fail Blocked else modify (set_pool u (p\<lparr>pool_lock := True\<rparr>)))"

definition pool_release :: "bool \<Rightarrow> ('a mach_scheme, unit) op" where
  "pool_release u = bnd (gets (pool_of u)) (\<lambda>p. modify (set_pool u (p\<lparr>pool_lock := False\<rparr>)))"

definition palloc_get_multiple :: "u32 \<Rightarrow> nat \<Rightarrow> ('a mach_scheme, u32) op" where
  "palloc_get_multiple flags page_cnt =
    (let u = (flags AND PAL_USER \<noteq> 0) in
     if page_cnt = 0 then ret 0
     else
       bnd (pool_acquire u) (\<lambda>_.
       bnd (gets (pool_of u)) (\<lambda>p.
       bnd (lift_res (bitmap_scan_and_flip (used_map p) 0 page_cnt False)) (\<lambda>(page_idx, m).
       bnd (modify (set_pool u (p\<lparr>used_map := m\<rparr>))) (\<lambda>_.
       bnd (pool_release u) (\<lambda>_.
       let pages = (if page_idx \<noteq> BITMAP_ERROR then base p + of_nat (PGSIZE * page_idx) else 0) in
       if pages \<noteq> 0
       then if flags AND PAL_ZERO \<noteq> 0
            then bnd (modify (\<lambda>s. s\<lparr>mem := mem_fill (mem s) pages 0 (PGSIZE * page_cnt)\<rparr>)) (\<lambda>_. ret pages)
            else ret pages
       else if flags AND PAL_ASSERT \<noteq> 0 then fail Panic else ret pages))))))"

definition palloc_get_page :: "u32 \<Rightarrow> ('a mach_scheme, u32) op" where
  "palloc_get_page flags = palloc_get_multiple flags 1"

definition page_from_pool :: "pool \<Rightarrow> u32 \<Rightarrow> bool" where
  "page_from_pool p page =
    (let page_no = unat (pg_no page);
         start_page = unat (pg_no (base p));
         end_page = sz (start_page + bitmap_size (used_map p))
     in page_no \<ge> start_page \<and> page_no < end_page)"

definition palloc_free_multiple :: "u32 \<Rightarrow> nat \<Rightarrow> ('a mach_scheme, unit) op" where
  "palloc_free_multiple pages page_cnt =
     bnd (ensure (pg_ofs pages = 0)) (\<lambda>_.
     if pages = 0 \<or> page_cnt = 0 then ret ()
     else
       bnd (gets (\<lambda>s. if page_from_pool (kernel_pool s) pages then Some False
                      else if page_from_pool (user_pool s) pages then Some True else None)) (\<lambda>which.
       case which of None \<Rightarrow> fail Panic
       | Some u \<Rightarrow>
         bnd (gets (pool_of u)) (\<lambda>p.
         let page_idx = unat (pg_no pages - pg_no (base p)) in
         bnd (modify (\<lambda>s. s\<lparr>mem := mem_fill (mem s) pages 0xcc (PGSIZE * page_cnt)\<rparr>)) (\<lambda>_.
         bnd (lift_res (bitmap_all (used_map p) page_idx page_cnt)) (\<lambda>all.
         bnd (ensure all) (\<lambda>_.
         bnd (lift_res (bitmap_set_multiple (used_map p) page_idx page_cnt False)) (\<lambda>m.
         modify (set_pool u (p\<lparr>used_map := m\<rparr>)))))))))"

definition palloc_free_page :: "u32 \<Rightarrow> ('a mach_scheme, unit) op" where
  "palloc_free_page page = palloc_free_multiple page 1"

text \<open>\<open>init_pool\<close>: the bitmap is placed at the base of the pool, over whatever memory contains.\<close>

definition init_pool :: "bool \<Rightarrow> u32 \<Rightarrow> nat \<Rightarrow> ('a mach_scheme, unit) op" where
  "init_pool u bs page_cnt =
    (let bm_pages = DIV_ROUND_UP (bitmap_buf_size page_cnt) PGSIZE in
     if bm_pages > page_cnt then fail Panic
     else
       bnd (gets (\<lambda>s. map (\<lambda>i. load32 (mem s) (bs + 8 + of_nat (4 * i))) [0..<bm_pages * 1024 - 2])) (\<lambda>buf.
       bnd (lift_res (bitmap_create_in_buf (page_cnt - bm_pages) buf (bm_pages * PGSIZE))) (\<lambda>m.
       modify (set_pool u \<lparr>pool_lock = False, used_map = m, base = bs + of_nat (bm_pages * PGSIZE)\<rparr>))))"

text \<open>\<open>(p - q) / n\<close> stored in a \<open>size_t\<close>: a signed difference, divided towards zero.\<close>

definition ptr_diff :: "u32 \<Rightarrow> u32 \<Rightarrow> nat \<Rightarrow> nat" where
  "ptr_diff p q n = (let d = sint (p - q) in
     unat (word_of_int (if 0 \<le> d then d div int n else - ((- d) div int n)) :: u32))"

definition palloc_init :: "nat \<Rightarrow> ('a mach_scheme, unit) op" where
  "palloc_init user_page_limit =
     bnd (lift_res (ptov (1024 * 1024))) (\<lambda>free_start.
     bnd (gets init_ram_pages) (\<lambda>rp.
     bnd (lift_res (ptov (of_nat (rp * PGSIZE)))) (\<lambda>free_end.
     let free_pages = ptr_diff free_end free_start PGSIZE;
         user_pages = (if free_pages div 2 > user_page_limit then user_page_limit else free_pages div 2);
         kernel_pages = free_pages - user_pages
     in bnd (init_pool False free_start kernel_pages) (\<lambda>_.
        init_pool True (free_start + of_nat (kernel_pages * PGSIZE)) user_pages))))"

subsection \<open>Well-formed pools\<close>

definition wf_pool :: "nat \<Rightarrow> pool \<Rightarrow> bool" where
  "wf_pool ram p \<longleftrightarrow> wf_bitmap (used_map p) \<and> \<not> pool_lock p \<and> pg_ofs (base p) = 0
     \<and> unat PHYS_BASE < unat (base p)
     \<and> unat (base p) + bit_cnt (used_map p) * PGSIZE \<le> unat PHYS_BASE + ram * PGSIZE"

definition wf_mach :: "'a mach_scheme \<Rightarrow> bool" where
  "wf_mach s \<longleftrightarrow> init_ram_pages s \<le> 2 ^ 18
     \<and> wf_pool (init_ram_pages s) (kernel_pool s) \<and> wf_pool (init_ram_pages s) (user_pool s)
     \<and> unat (base (kernel_pool s)) + bit_cnt (used_map (kernel_pool s)) * PGSIZE \<le> unat (base (user_pool s))"

definition page_addr :: "pool \<Rightarrow> nat \<Rightarrow> u32" where
  "page_addr p i = base p + of_nat (PGSIZE * i)"

lemma pool_of_set_pool [simp]:
  "pool_of u (set_pool v p s) = (if u = v then p else pool_of u s)"
  by (simp add: pool_of_def set_pool_def)

lemma set_pool_sel [simp]:
  "mem (set_pool u p s) = mem s" "init_ram_pages (set_pool u p s) = init_ram_pages s"
  "init_page_dir (set_pool u p s) = init_page_dir s" "cr3 (set_pool u p s) = cr3 s"
  "mach.more (set_pool u p s) = mach.more s"
  by (simp_all add: set_pool_def)

lemma set_pool_mem_update [simp]:
  "pool_of u (s\<lparr>mem := f\<rparr>) = pool_of u s" "set_pool u p (s\<lparr>mem := f\<rparr>) = (set_pool u p s)\<lparr>mem := f\<rparr>"
  by (simp_all add: pool_of_def set_pool_def)

lemma set_pool_set_pool [simp]: "set_pool u p (set_pool u q s) = set_pool u p s"
  by (simp add: set_pool_def)

lemma set_pool_id [simp]: "set_pool u (pool_of u s) s = s"
  by (simp add: set_pool_def pool_of_def)

lemma pool_unlock:
  "\<not> pool_lock p \<Longrightarrow> p\<lparr>used_map := m, pool_lock := False\<rparr> = p\<lparr>used_map := m\<rparr>"
  "\<not> pool_lock p \<Longrightarrow> p\<lparr>pool_lock := False\<rparr> = p"
  by (cases p; simp)+

lemma wf_mach_pool_of:
  "wf_mach s \<longleftrightarrow> init_ram_pages s \<le> 2 ^ 18 \<and> (\<forall>u. wf_pool (init_ram_pages s) (pool_of u s))
     \<and> unat (base (pool_of False s)) + bit_cnt (used_map (pool_of False s)) * PGSIZE \<le> unat (base (pool_of True s))"
  by (auto simp: wf_mach_def pool_of_def)

lemma wf_pool_used_map:
  "wf_pool ram p \<Longrightarrow> wf_bitmap m \<Longrightarrow> bit_cnt m = bit_cnt (used_map p) \<Longrightarrow> wf_pool ram (p\<lparr>used_map := m\<rparr>)"
  by (simp add: wf_pool_def)

lemma wf_mach_used_map:
  assumes "wf_mach s" "wf_bitmap m" "bit_cnt m = bit_cnt (used_map (pool_of u s))"
  shows "wf_mach (set_pool u ((pool_of u s)\<lparr>used_map := m\<rparr>) s)"
  using assms by (cases u) (auto simp: wf_mach_pool_of wf_pool_used_map)

lemma wf_mach_mem [simp]: "wf_mach (s\<lparr>mem := f\<rparr>) = wf_mach s"
  by (simp add: wf_mach_def)

subsection \<open>Addresses of pages\<close>

lemma wf_pool_room:
  assumes "wf_pool ram p" "ram \<le> 2 ^ 18"
  shows "unat (base p) + bit_cnt (used_map p) * PGSIZE \<le> 2 ^ 32"
proof -
  have "unat PHYS_BASE + ram * PGSIZE \<le> 2 ^ 32" using assms(2) by (simp add: PHYS_BASE_def PGSIZE_eq)
  then show ?thesis using assms(1) by (simp add: wf_pool_def)
qed

lemma unat_page_addr:
  assumes "wf_pool ram p" "ram \<le> 2 ^ 18" "i < bit_cnt (used_map p)"
  shows "unat (page_addr p i) = unat (base p) + PGSIZE * i"
proof -
  have "PGSIZE * i + PGSIZE \<le> PGSIZE * bit_cnt (used_map p)"
    using assms(3) by (metis Suc_leI mult_Suc_right add.commute mult_le_mono2)
  then have lt: "unat (base p) + PGSIZE * i < 2 ^ 32"
    using wf_pool_room [OF assms(1,2)] by (simp add: mult.commute PGSIZE_eq)
  then show ?thesis
    unfolding page_addr_def by (subst unat_word_ariths) (simp add: unat_of_nat del: of_nat_mult)
qed

lemma page_addr_props:
  assumes "wf_pool ram p" "ram \<le> 2 ^ 18" "i < bit_cnt (used_map p)"
  shows "pg_ofs (page_addr p i) = 0" "page_addr p i \<noteq> 0" "is_kernel_vaddr (page_addr p i)"
    "page_from_pool p (page_addr p i)" "unat (pg_no (page_addr p i) - pg_no (base p)) = i"
proof -
  have b: "PGSIZE dvd unat (base p)" "unat PHYS_BASE < unat (base p)"
    using assms(1) by (simp_all add: wf_pool_def pg_ofs_zero_iff)
  note ua = unat_page_addr [OF assms]
  show "pg_ofs (page_addr p i) = 0" using b(1) by (simp add: pg_ofs_zero_iff ua)
  show "page_addr p i \<noteq> 0" using ua b(2) by (auto simp: word_unat_eq_iff)
  show "is_kernel_vaddr (page_addr p i)" using b(2) by (simp add: is_kernel_vaddr_def word_le_nat_alt ua)
  have no: "unat (pg_no (page_addr p i)) = unat (pg_no (base p)) + i"
    using b(1) by (auto simp: unat_pg_no ua PGSIZE_eq elim!: dvdE)
  have "unat (pg_no (base p)) * PGSIZE = unat (base p)" using b(1) by (simp add: unat_pg_no)
  then have "unat (pg_no (base p)) + bit_cnt (used_map p) \<le> 2 ^ 20"
    using wf_pool_room [OF assms(1,2)] by (simp add: PGSIZE_eq)
  then show "page_from_pool p (page_addr p i)"
    using no assms(3) by (simp add: page_from_pool_def bitmap_size_def)
  show "unat (pg_no (page_addr p i) - pg_no (base p)) = i"
    using no by (simp add: unat_sub_if')
qed

subsection \<open>Allocation\<close>

definition wants_user :: "u32 \<Rightarrow> bool" where
  "wants_user flags \<longleftrightarrow> flags AND PAL_USER \<noteq> 0"

lemma palloc_get_exec:
  assumes "wf_mach s" "0 < n" and p: "p = pool_of (wants_user flags) s"
    and scan: "bitmap_scan_and_flip (used_map p) 0 n False = Inr (i, m)" and "i \<noteq> BITMAP_ERROR"
  shows "palloc_get_multiple flags n s =
    (Inr (page_addr p i),
     (let s' = set_pool (wants_user flags) (p\<lparr>used_map := m\<rparr>) s in
      if flags AND PAL_ZERO \<noteq> 0 then s'\<lparr>mem := mem_fill (mem s) (page_addr p i) 0 (PGSIZE * n)\<rparr> else s'))"
proof -
  let ?u = "wants_user flags"
  have wf: "wf_pool (init_ram_pages s) p" "init_ram_pages s \<le> 2 ^ 18"
    using assms(1) p by (simp_all add: wf_mach_pool_of)
  then have "wf_bitmap (used_map p)" "\<not> pool_lock p" by (simp_all add: wf_pool_def)
  have "i + n \<le> bit_cnt (used_map p)"
    using bm.take_found [OF \<open>wf_bitmap (used_map p)\<close> scan] assms(5) by blast
  then have "page_addr p i \<noteq> 0" using page_addr_props(2) [OF wf] assms(2) by simp
  then show ?thesis
    using assms(2,5) scan \<open>\<not> pool_lock p\<close>
    unfolding p wants_user_def
    by (simp add: palloc_get_multiple_def pool_acquire_def pool_release_def page_addr_def pool_unlock Let_def
        del: of_nat_mult)
qed

lemma palloc_get_fail_exec:
  assumes "wf_mach s" "0 < n" and p: "p = pool_of (wants_user flags) s"
    and scan: "bitmap_scan_and_flip (used_map p) 0 n False = Inr (BITMAP_ERROR, m)"
  shows "palloc_get_multiple flags n s = (if flags AND PAL_ASSERT \<noteq> 0 then Inl Panic else Inr 0, s)"
proof -
  have "wf_bitmap (used_map p)" and nl: "\<not> pool_lock p"
    using assms(1) p by (simp_all add: wf_mach_pool_of wf_pool_def)
  then have "m = used_map p" using bm.take_fail [OF _ scan] by blast
  then show ?thesis
    using assms(2) scan nl
    unfolding p wants_user_def
    by (simp add: palloc_get_multiple_def pool_acquire_def pool_release_def pool_unlock Let_def)
qed

text \<open>Both outcomes of a request, with what happens to the map, the memory and the other pool.\<close>

lemma palloc_get_cases:
  assumes "wf_mach s" "0 < n"
  obtains (found) i s' where "palloc_get_multiple flags n s = (Inr (page_addr (pool_of (wants_user flags) s) i), s')"
      "bitmap_scan_and_flip (used_map (pool_of (wants_user flags) s)) 0 n False
         = Inr (i, used_map (pool_of (wants_user flags) s'))"
      "i \<noteq> BITMAP_ERROR" "i + n \<le> bit_cnt (used_map (pool_of (wants_user flags) s))"
      "wf_mach s'" "\<And>u. base (pool_of u s') = base (pool_of u s)"
      "\<And>u. u \<noteq> wants_user flags \<Longrightarrow> pool_of u s' = pool_of u s"
      "\<And>u. bit_cnt (used_map (pool_of u s')) = bit_cnt (used_map (pool_of u s))"
      "mem s' = (if flags AND PAL_ZERO \<noteq> 0
         then mem_fill (mem s) (page_addr (pool_of (wants_user flags) s) i) 0 (PGSIZE * n) else mem s)"
      "mach.more s' = mach.more s" "init_page_dir s' = init_page_dir s"
      "init_ram_pages s' = init_ram_pages s" "cr3 s' = cr3 s"
  | (full) "palloc_get_multiple flags n s = (if flags AND PAL_ASSERT \<noteq> 0 then Inl Panic else Inr 0, s)"
      "\<forall>i. i + n \<le> bit_cnt (used_map (pool_of (wants_user flags) s)) \<longrightarrow>
         (\<exists>j \<in> {i..<i + n}. bm_bit (used_map (pool_of (wants_user flags) s)) j)"
proof -
  let ?u = "wants_user flags"
  let ?p = "pool_of ?u s"
  have wf: "wf_bitmap (used_map ?p)" using assms(1) by (simp add: wf_mach_pool_of wf_pool_def)
  obtain i m where scan: "bitmap_scan_and_flip (used_map ?p) 0 n False = Inr (i, m)"
    using bm.take_total [OF wf] by blast
  show thesis
  proof (cases "i = BITMAP_ERROR")
    case True
    then show thesis
      using full palloc_get_fail_exec [OF assms refl] scan bm.take_fail [OF wf] by blast
  next
    case False
    define s' where "s' = (let s' = set_pool ?u (?p\<lparr>used_map := m\<rparr>) s in
      if flags AND PAL_ZERO \<noteq> 0 then s'\<lparr>mem := mem_fill (mem s) (page_addr ?p i) 0 (PGSIZE * n)\<rparr> else s')"
    have m: "wf_bitmap m" "bit_cnt m = bit_cnt (used_map ?p)" "i + n \<le> bit_cnt (used_map ?p)"
      using bm.take_found [OF wf scan False] by auto
    have "wf_mach s'"
      using wf_mach_used_map [OF assms(1) m(1), of ?u] m(2) by (auto simp: s'_def Let_def)
    then show thesis
      using palloc_get_exec [OF assms refl scan False] m scan False
      by (intro found [of i s']) (auto simp: s'_def Let_def)
  qed
qed

subsection \<open>Release\<close>

lemma bitmap_all_abs:
  assumes "wf_bitmap b" "start + cnt \<le> bit_cnt b"
  shows "bitmap_all b start cnt = Inr (\<forall>j \<in> {start..<start + cnt}. bm_bit b j)"
  using bitmap_contains_abs [OF assms, of False] by (auto simp: bitmap_all_def)

lemma not_in_other_pool:
  assumes "wf_mach s" "i < bit_cnt (used_map (user_pool s))"
  shows "\<not> page_from_pool (kernel_pool s) (page_addr (user_pool s) i)"
proof -
  have k: "wf_pool (init_ram_pages s) (kernel_pool s)" and u: "wf_pool (init_ram_pages s) (user_pool s)"
    and ram: "init_ram_pages s \<le> 2 ^ 18"
    and order: "unat (base (kernel_pool s)) + bit_cnt (used_map (kernel_pool s)) * PGSIZE \<le> unat (base (user_pool s))"
    using assms(1) by (simp_all add: wf_mach_def)
  have "PGSIZE dvd unat (base (kernel_pool s))" using k by (simp add: wf_pool_def pg_ofs_zero_iff)
  then have "unat (pg_no (base (kernel_pool s))) + bit_cnt (used_map (kernel_pool s))
      \<le> unat (pg_no (page_addr (user_pool s) i))"
    using order unat_page_addr [OF u ram assms(2)] by (auto simp: unat_pg_no PGSIZE_eq elim!: dvdE)
  moreover have "sz x \<le> x" for x by (simp add: sz_def)
  ultimately show ?thesis
    unfolding page_from_pool_def Let_def bitmap_size_def by (meson leD order.trans)
qed

lemma pool_choice:
  assumes "wf_mach s" "i < bit_cnt (used_map (pool_of u s))"
  shows "(if page_from_pool (kernel_pool s) (page_addr (pool_of u s) i) then Some False
     else if page_from_pool (user_pool s) (page_addr (pool_of u s) i) then Some True else None) = Some u"
proof (cases u)
  case True
  then show ?thesis
    using not_in_other_pool [OF assms(1)] page_addr_props(4) [of "init_ram_pages s" "user_pool s" i] assms
    by (simp add: pool_of_def wf_mach_def)
next
  case False
  then show ?thesis
    using page_addr_props(4) [of "init_ram_pages s" "kernel_pool s" i] assms
    by (simp add: pool_of_def wf_mach_def)
qed

lemma palloc_free_exec:
  assumes "wf_mach s" "0 < n" "i + n \<le> bit_cnt (used_map (pool_of u s))"
    and all: "\<forall>j \<in> {i..<i + n}. bm_bit (used_map (pool_of u s)) j"
  shows "\<exists>s'. palloc_free_multiple (page_addr (pool_of u s) i) n s = (Inr (), s')
    \<and> bitmap_set_multiple (used_map (pool_of u s)) i n False = Inr (used_map (pool_of u s'))
    \<and> wf_mach s' \<and> (\<forall>v. base (pool_of v s') = base (pool_of v s))
    \<and> (\<forall>v. v \<noteq> u \<longrightarrow> pool_of v s' = pool_of v s)
    \<and> (\<forall>v. bit_cnt (used_map (pool_of v s')) = bit_cnt (used_map (pool_of v s)))
    \<and> mem s' = mem_fill (mem s) (page_addr (pool_of u s) i) 0xcc (PGSIZE * n) \<and> mach.more s' = mach.more s"
proof -
  let ?p = "pool_of u s"
  have wf: "wf_bitmap (used_map ?p)" "wf_pool (init_ram_pages s) ?p" "init_ram_pages s \<le> 2 ^ 18"
    using assms(1) by (auto simp: wf_mach_pool_of wf_pool_def)
  have i: "i < bit_cnt (used_map ?p)" using assms by simp
  note pa = page_addr_props [OF wf(2,3) i]
  obtain m where m: "bitmap_set_multiple (used_map ?p) i n False = Inr m" "wf_bitmap m" "bit_cnt m = bit_cnt (used_map ?p)"
    using bm.give [OF wf(1) assms(3)] by blast
  let ?s = "(set_pool u (?p\<lparr>used_map := m\<rparr>) s)\<lparr>mem := mem_fill (mem s) (page_addr ?p i) 0xcc (PGSIZE * n)\<rparr>"
  have "bitmap_all (used_map ?p) i n = Inr True"
    using bitmap_all_abs [OF wf(1) assms(3)] all by simp
  then have "palloc_free_multiple (page_addr ?p i) n s = (Inr (), ?s)"
    using pa m(1) assms(2) pool_choice [OF assms(1) i]
    by (simp add: palloc_free_multiple_def bnd_apply)
  moreover have "wf_mach ?s" using wf_mach_used_map [OF assms(1) m(2,3)] by simp
  ultimately show ?thesis using m by auto
qed

lemma palloc_double_free:
  assumes "wf_mach s" "0 < n" "i + n \<le> bit_cnt (used_map (pool_of u s))"
    and "\<exists>j \<in> {i..<i + n}. \<not> bm_bit (used_map (pool_of u s)) j"
  shows "fst (palloc_free_multiple (page_addr (pool_of u s) i) n s) = Inl Assertion"
proof -
  let ?p = "pool_of u s"
  have wf: "wf_bitmap (used_map ?p)" "wf_pool (init_ram_pages s) ?p" "init_ram_pages s \<le> 2 ^ 18"
    using assms(1) by (auto simp: wf_mach_pool_of wf_pool_def)
  have i: "i < bit_cnt (used_map ?p)" using assms by simp
  note pa = page_addr_props [OF wf(2,3) i]
  have "bitmap_all (used_map ?p) i n = Inr False"
    using bitmap_all_abs [OF wf(1) assms(3)] assms(4) by simp
  then show ?thesis
    using pa assms(2) pool_choice [OF assms(1) i]
    by (simp add: palloc_free_multiple_def bnd_apply)
qed

subsection \<open>Sequences of requests\<close>

text \<open>
  A client that requests blocks and later frees blocks it holds: \<open>palloc_run s bs\<close> says that such
  a client can bring the machine into state \<open>s\<close>, holding the blocks \<open>bs\<close>, each the address and
  the number of pages it was given. Between requests the client writes to memory as it likes.
\<close>

inductive palloc_run :: "mach \<Rightarrow> mach \<Rightarrow> (u32 \<times> nat) list \<Rightarrow> bool" for s0 where
  run_start: "palloc_run s0 s0 []"
| run_get: "palloc_run s0 s bs \<Longrightarrow> 0 < n \<Longrightarrow> palloc_get_multiple flags n s = (Inr p, s') \<Longrightarrow> p \<noteq> 0 \<Longrightarrow>
    palloc_run s0 s' ((p, n) # bs)"
| run_free: "palloc_run s0 s bs \<Longrightarrow> (p, n) \<in> set bs \<Longrightarrow> palloc_free_multiple p n s = (Inr (), s') \<Longrightarrow>
    palloc_run s0 s' (remove1 (p, n) bs)"
| run_write: "palloc_run s0 s bs \<Longrightarrow> palloc_run s0 (s\<lparr>mem := f\<rparr>) bs"

text \<open>The blocks held, as runs \<open>(u, i, n)\<close> of \<open>n\<close> pages from index \<open>i\<close> in pool \<open>u\<close>.\<close>

definition block_of :: "'a mach_scheme \<Rightarrow> bool \<times> nat \<times> nat \<Rightarrow> u32 \<times> nat" where
  "block_of s q = (case q of (u, i, n) \<Rightarrow> (page_addr (pool_of u s) i, n))"

definition runs_of :: "bool \<Rightarrow> (bool \<times> nat \<times> nat) list \<Rightarrow> (nat \<times> nat) list" where
  "runs_of u qs = map snd (filter (\<lambda>q. fst q = u) qs)"

definition holds :: "'a mach_scheme \<Rightarrow> (bool \<times> nat \<times> nat) list \<Rightarrow> bool" where
  "holds s qs \<longleftrightarrow> wf_mach s \<and> (\<forall>(u, i, n) \<in> set qs. 0 < n) \<and> (\<forall>u. bm.tracks (used_map (pool_of u s)) (runs_of u qs))"

lemma runs_of_Cons: "runs_of u ((v, r) # qs) = (if u = v then r # runs_of u qs else runs_of u qs)"
  by (auto simp: runs_of_def)

lemma runs_of_remove1:
  "runs_of u (remove1 (v, r) qs) = (if u = v then remove1 r (runs_of u qs) else runs_of u qs)"
  by (induction qs) (auto simp: runs_of_def)

lemma runs_of_mem: "(u, i, n) \<in> set qs \<Longrightarrow> (i, n) \<in> set (runs_of u qs)"
  by (force simp: runs_of_def)

lemma holds_bound:
  assumes "holds s qs" "(u, i, n) \<in> set qs"
  shows "i + n \<le> bit_cnt (used_map (pool_of u s))" "0 < n"
  using assms runs_of_mem [OF assms(2)] by (fastforce simp: holds_def bm.tracks_def runs_within_def)+

lemma holds_used:
  assumes "holds s qs" "(u, i, n) \<in> set qs" "i \<le> j" "j < i + n"
  shows "bm_bit (used_map (pool_of u s)) j"
  using assms runs_of_mem [OF assms(2)] by (fastforce simp: holds_def bm.tracks_def covers_def)

text \<open>The interval of addresses of a block.\<close>

definition block_addrs :: "u32 \<times> nat \<Rightarrow> nat set" where
  "block_addrs b = {unat (fst b)..<unat (fst b) + PGSIZE * snd b}"

lemma holds_addrs:
  assumes "holds s qs" "(u, i, n) \<in> set qs"
  shows "block_addrs (block_of s (u, i, n))
    = {unat (base (pool_of u s)) + PGSIZE * i..<unat (base (pool_of u s)) + PGSIZE * (i + n)}"
proof -
  have "wf_pool (init_ram_pages s) (pool_of u s)" "init_ram_pages s \<le> 2 ^ 18"
    using assms(1) by (auto simp: holds_def wf_mach_pool_of)
  then have "unat (page_addr (pool_of u s) i) = unat (base (pool_of u s)) + PGSIZE * i"
    using unat_page_addr holds_bound [OF assms] by simp
  then show ?thesis by (simp add: block_addrs_def block_of_def algebra_simps)
qed

text \<open>Two different blocks held at the same time share no address.\<close>

lemma holds_disjoint:
  assumes "holds s qs" "(u, i, n) \<in> set qs" "(v, j, m) \<in> set qs" "(u, i, n) \<noteq> (v, j, m)"
  shows "block_addrs (block_of s (u, i, n)) \<inter> block_addrs (block_of s (v, j, m)) = {}"
proof (cases "u = v")
  case True
  have dj: "{i..<i + n} \<inter> {j..<j + m} = {}"
    using disjoint_runs_two [of "runs_of u qs" i n j m] assms runs_of_mem True
    by (auto simp: holds_def bm.tracks_def)
  have "i + n \<le> j \<or> j + m \<le> i"
  proof (rule ccontr)
    assume "\<not> ?thesis"
    then have "max i j \<in> {i..<i + n} \<inter> {j..<j + m}"
      using holds_bound(2) [OF assms(1,2)] holds_bound(2) [OF assms(1,3)] by (auto simp: max_def)
    then show False using dj by simp
  qed
  then show ?thesis
    using holds_addrs [OF assms(1,2)] holds_addrs [OF assms(1,3)] True
    by (auto simp: PGSIZE_eq)
next
  case False
  have order: "unat (base (pool_of False s)) + bit_cnt (used_map (pool_of False s)) * PGSIZE \<le> unat (base (pool_of True s))"
    using assms(1) by (simp add: holds_def wf_mach_pool_of)
  show ?thesis
    unfolding holds_addrs [OF assms(1,2)] holds_addrs [OF assms(1,3)]
    using holds_bound(1) [OF assms(1,2)] holds_bound(1) [OF assms(1,3)] order False
    by (cases u; cases v) (auto simp: PGSIZE_eq)
qed

lemma holds_inj: "holds s qs \<Longrightarrow> inj_on (block_of s) (set qs)"
proof (rule inj_onI)
  fix x y
  assume h: "holds s qs" and "x \<in> set qs" "y \<in> set qs" and eq: "block_of s x = block_of s y"
  obtain u i n v j m where xy: "x = (u, i, n)" "y = (v, j, m)" by (metis prod.exhaust)
  show "x = y"
  proof (rule ccontr)
    assume "x \<noteq> y"
    then have "block_addrs (block_of s x) = {}"
      using holds_disjoint [OF h] \<open>x \<in> set qs\<close> \<open>y \<in> set qs\<close> xy eq by force
    then show False
      using holds_addrs [OF h] holds_bound(2) [OF h] \<open>x \<in> set qs\<close> xy by (force simp: PGSIZE_eq)
  qed
qed

lemma remove1_map_inj:
  "inj_on f (insert x (set xs)) \<Longrightarrow> remove1 (f x) (map f xs) = map f (remove1 x xs)"
  by (induction xs) (auto simp: inj_on_def)

lemma block_of_cong:
  "(\<And>u. base (pool_of u s') = base (pool_of u s)) \<Longrightarrow> block_of s' = block_of s"
  by (auto simp: block_of_def page_addr_def fun_eq_iff split: prod.splits)

lemma holds_get:
  assumes "holds s qs" "0 < n" "palloc_get_multiple flags n s = (Inr p, s')" "p \<noteq> 0"
  shows "\<exists>i. holds s' ((wants_user flags, i, n) # qs) \<and> block_of s' = block_of s
    \<and> p = page_addr (pool_of (wants_user flags) s) i"
proof -
  have wf: "wf_mach s" using assms(1) by (simp add: holds_def)
  show ?thesis
  proof (cases rule: palloc_get_cases [OF wf assms(2), of flags, case_names found full])
    case (found i t)
    have t: "t = s'" "p = page_addr (pool_of (wants_user flags) s) i" using found(1) assms(3) by simp_all
    have "bm.tracks (used_map (pool_of u s')) (runs_of u ((wants_user flags, i, n) # qs))" for u
    proof (cases "u = wants_user flags")
      case True
      then show ?thesis
        using bm.tracks_take(1) [of "used_map (pool_of u s)" "runs_of u qs" n i] found(2,3) t assms(1)
        by (simp add: holds_def runs_of_Cons)
    next
      case False
      then show ?thesis using found(7) t assms(1) by (simp add: holds_def runs_of_Cons)
    qed
    then have "holds s' ((wants_user flags, i, n) # qs)"
      using assms(1,2) found(5) t by (simp add: holds_def)
    then show ?thesis using t found(6) block_of_cong by blast
  next
    case full
    then show ?thesis using assms(3,4) by (simp split: if_splits)
  qed
qed

lemma holds_free:
  assumes "holds s qs" "(u, i, n) \<in> set qs"
  shows "\<exists>s'. palloc_free_multiple (page_addr (pool_of u s) i) n s = (Inr (), s')
    \<and> holds s' (remove1 (u, i, n) qs) \<and> block_of s' = block_of s
    \<and> mem s' = mem_fill (mem s) (page_addr (pool_of u s) i) 0xcc (PGSIZE * n)"
proof -
  note b = holds_bound [OF assms]
  have wf: "wf_mach s" using assms(1) by (simp add: holds_def)
  obtain s' where s': "palloc_free_multiple (page_addr (pool_of u s) i) n s = (Inr (), s')"
      "bitmap_set_multiple (used_map (pool_of u s)) i n False = Inr (used_map (pool_of u s'))" "wf_mach s'"
      "\<forall>v. base (pool_of v s') = base (pool_of v s)" "\<forall>v. v \<noteq> u \<longrightarrow> pool_of v s' = pool_of v s"
      "mem s' = mem_fill (mem s) (page_addr (pool_of u s) i) 0xcc (PGSIZE * n)"
    using palloc_free_exec [OF wf b(2,1)] holds_used [OF assms] by auto
  have "bm.tracks (used_map (pool_of v s')) (runs_of v (remove1 (u, i, n) qs))" for v
  proof (cases "v = u")
    case True
    have t: "bm.tracks (used_map (pool_of u s)) (runs_of u qs)" using assms(1) by (simp add: holds_def)
    show ?thesis
      using bm.tracks_give [OF t runs_of_mem [OF assms(2)]] s'(2) True by (simp add: runs_of_remove1)
  next
    case False
    then show ?thesis using assms(1) s'(5) by (simp add: holds_def runs_of_remove1)
  qed
  moreover have "\<forall>(u, i, n) \<in> set (remove1 (u, i, n) qs). 0 < n"
    using assms(1) by (auto simp: holds_def dest: set_mp [OF set_remove1_subset])
  moreover have "block_of s' = block_of s" by (rule block_of_cong) (use s'(4) in blast)
  ultimately show ?thesis using s' by (auto simp: holds_def)
qed

lemma runs_distinct:
  "(\<And>u. disjoint_runs (runs_of u qs)) \<Longrightarrow> \<forall>(u, i, n) \<in> set qs. 0 < n \<Longrightarrow> distinct qs"
proof (induction qs)
  case (Cons q qs)
  obtain u i n where q: "q = (u, i, n)" by (cases q)
  have d: "disjoint_runs (runs_of v qs)" for v
    using Cons.prems(1) [of v] q by (auto simp: runs_of_Cons split: if_splits)
  have "\<not> covers (runs_of u qs) i"
    using Cons.prems(1) [of u] Cons.prems(2) q by (simp add: runs_of_Cons)
  then have "q \<notin> set qs"
    using runs_of_mem [of u i n qs] covers_mem [of i n "runs_of u qs" i] Cons.prems(2) q by auto
  then show ?case using Cons.IH [OF d] Cons.prems(2) by simp
qed simp

lemma holds_distinct: "holds s qs \<Longrightarrow> distinct qs"
  by (rule runs_distinct) (auto simp: holds_def bm.tracks_def)

lemma holds_free_frame:
  assumes "holds s qs" "(p, n) \<in> block_of s ` set qs"
  shows "\<exists>s'. palloc_free_multiple p n s = (Inr (), s') \<and>
    (\<forall>b \<in> block_of s ` set qs - {(p, n)}. \<forall>x. unat x \<in> block_addrs b \<longrightarrow> mem s' x = mem s x)"
proof -
  obtain u i where q: "(u, i, n) \<in> set qs" "p = page_addr (pool_of u s) i"
    using assms(2) by (auto simp: block_of_def split: prod.splits)
  obtain s' where s': "palloc_free_multiple p n s = (Inr (), s')" "mem s' = mem_fill (mem s) p 0xcc (PGSIZE * n)"
    using holds_free [OF assms(1) q(1)] q(2) by auto
  have wf: "wf_pool (init_ram_pages s) (pool_of u s)" "init_ram_pages s \<le> 2 ^ 18"
    using assms(1) by (auto simp: holds_def wf_mach_pool_of)
  have "unat p + PGSIZE * n \<le> 2 ^ 32"
    using wf_pool_room [OF wf] unat_page_addr [OF wf, of i] holds_bound [OF assms(1) q(1)] q(2)
    by (simp add: PGSIZE_eq)
  then have outside: "mem s' x = mem s x" if "unat x \<notin> block_addrs (p, n)" for x
    using that unfolding s'(2) by (auto simp: mem_fill_def in_block_interval block_addrs_def)
  have "unat x \<notin> block_addrs (p, n)"
    if b: "b \<in> block_of s ` set qs - {(p, n)}" and x: "unat x \<in> block_addrs b" for b x
  proof -
    obtain q' where q': "q' \<in> set qs" "b = block_of s q'" using b by blast
    have "q' \<noteq> (u, i, n)" using b q' q(2) by (auto simp: block_of_def)
    then have "block_addrs (block_of s (u, i, n)) \<inter> block_addrs b = {}"
      using holds_disjoint [OF assms(1) q(1)] q' by (cases q') auto
    then show ?thesis using x q(2) by (auto simp: block_of_def)
  qed
  then show ?thesis using s'(1) outside by blast
qed

text \<open>A machine as \<open>palloc_init\<close> leaves it: well formed, with every page free.\<close>

definition all_free :: "'a mach_scheme \<Rightarrow> bool" where
  "all_free s \<longleftrightarrow> wf_mach s \<and> (\<forall>u j. \<not> bm_bit (used_map (pool_of u s)) j)"

lemma palloc_run_holds:
  assumes "palloc_run s0 s bs" "all_free s0"
  shows "\<exists>qs. holds s qs \<and> bs = map (block_of s) qs"
  using assms
proof (induction rule: palloc_run.induct)
  case run_start
  then show ?case
    by (intro exI [of _ "[]"])
      (auto simp: all_free_def holds_def bm.tracks_def runs_of_def runs_within_def wf_mach_pool_of wf_pool_def)
next
  case (run_get s bs n flags p s')
  then obtain qs where "holds s qs" "bs = map (block_of s) qs" by auto
  moreover from this obtain i where "holds s' ((wants_user flags, i, n) # qs)" "block_of s' = block_of s"
      "p = page_addr (pool_of (wants_user flags) s) i"
    using holds_get run_get by blast
  ultimately show ?case
    by (intro exI [of _ "(wants_user flags, i, n) # qs"]) (simp add: block_of_def)
next
  case (run_free s bs p n s')
  then obtain qs where qs: "holds s qs" "bs = map (block_of s) qs" by auto
  then obtain u i where q: "(u, i, n) \<in> set qs" "block_of s (u, i, n) = (p, n)"
    using run_free(2) by (auto simp: block_of_def)
  then have p: "p = page_addr (pool_of u s) i" by (simp add: block_of_def)
  have s': "holds s' (remove1 (u, i, n) qs)" "block_of s' = block_of s"
    using holds_free [OF qs(1) q(1)] run_free(3) unfolding p by auto
  have "remove1 (p, n) bs = map (block_of s) (remove1 (u, i, n) qs)"
    using remove1_map_inj [of "block_of s" "(u, i, n)" qs] holds_inj [OF qs(1)] q qs(2) by (simp add: insert_absorb)
  then show ?case using s' by (intro exI [of _ "remove1 (u, i, n) qs"]) simp
next
  case (run_write s bs f)
  then obtain qs where "holds s qs" "bs = map (block_of s) qs" by auto
  then show ?case by (intro exI [of _ qs]) (auto simp: holds_def block_of_def)
qed

subsection \<open>Properties\<close>

text \<open>C1: Whatever sequence of requests a client makes from a machine whose pages are all free, the
  blocks it holds never overlap, every one of them can be freed, and freeing one leaves the
  contents of the others alone.\<close>

theorem palloc_blocks_disjoint:
  assumes "all_free s0" and "palloc_run s0 s bs"
  shows "(\<forall>i j. i < length bs \<and> j < i \<longrightarrow> block_addrs (bs ! i) \<inter> block_addrs (bs ! j) = {}) \<and>
    (\<forall>(p, n) \<in> set bs. \<exists>s'. palloc_free_multiple p n s = (Inr (), s') \<and>
       (\<forall>b \<in> set bs - {(p, n)}. \<forall>x. unat x \<in> block_addrs b \<longrightarrow> mem s' x = mem s x))"
proof -
  obtain qs where qs: "holds s qs" "bs = map (block_of s) qs"
    using palloc_run_holds assms by blast
  have "block_addrs (bs ! i) \<inter> block_addrs (bs ! j) = {}" if "i < length bs" "j < i" for i j
  proof -
    have mem: "qs ! i \<in> set qs" "qs ! j \<in> set qs" using that qs(2) by auto
    obtain u k n v l m where q: "qs ! i = (u, k, n)" "qs ! j = (v, l, m)" by (metis prod.exhaust)
    have "qs ! i \<noteq> qs ! j" using holds_distinct [OF qs(1)] that qs(2) by (simp add: nth_eq_iff_index_eq)
    moreover have "bs ! i = block_of s (u, k, n)" "bs ! j = block_of s (v, l, m)"
      using that qs(2) q by simp_all
    ultimately show ?thesis
      using holds_disjoint [OF qs(1), of u k n v l m] mem unfolding q by simp
  qed
  moreover have "\<exists>s'. palloc_free_multiple p n s = (Inr (), s') \<and>
       (\<forall>b \<in> set bs - {(p, n)}. \<forall>x. unat x \<in> block_addrs b \<longrightarrow> mem s' x = mem s x)"
    if "(p, n) \<in> set bs" for p n
    using holds_free_frame [OF qs(1), of p n] that unfolding qs(2) set_map by blast
  ultimately show ?thesis by blast
qed

lemma palloc_get_succeeds:
  assumes "all_free s" "0 < n" "n \<le> bit_cnt (used_map (pool_of (wants_user flags) s))"
  shows "\<exists>p s'. palloc_get_multiple flags n s = (Inr p, s') \<and> p \<noteq> 0"
proof -
  have wf: "wf_mach s" using assms(1) by (simp add: all_free_def)
  show ?thesis
  proof (cases rule: palloc_get_cases [OF wf assms(2), of flags, case_names found full])
    case (found i t)
    have "wf_pool (init_ram_pages s) (pool_of (wants_user flags) s)" "init_ram_pages s \<le> 2 ^ 18"
      using wf by (auto simp: wf_mach_pool_of)
    then show ?thesis using found(1,4) page_addr_props(2) assms(2) by fastforce
  next
    case full
    have "\<not> bm_bit (used_map (pool_of (wants_user flags) s)) j" for j
      using assms(1) by (simp add: all_free_def)
    then have False using full(2) assms(3) by (metis add_0)
    then show ?thesis ..
  qed
qed

definition ex_mach :: mach where
  "ex_mach = \<lparr>mem = (\<lambda>_. 0),
     kernel_pool = \<lparr>pool_lock = False, used_map = \<lparr>bit_cnt = 8, bits = [0]\<rparr>, base = 0xc0101000\<rparr>,
     user_pool = \<lparr>pool_lock = False, used_map = \<lparr>bit_cnt = 4, bits = [0]\<rparr>, base = 0xc0200000\<rparr>,
     init_ram_pages = 1024, init_page_dir = 0xc0100000, cr3 = 0\<rparr>"

lemma ex_mach_free: "all_free ex_mach"
  by (simp add: all_free_def wf_mach_def wf_pool_def wf_bitmap_def ex_mach_def pool_of_def PHYS_BASE_def PGSIZE_eq
      pg_ofs_zero_iff bm_bit_def)

theorem palloc_blocks_witness:
  "\<exists>s bs. palloc_run ex_mach s bs \<and> length bs = 1 \<and>
    (\<forall>i j. i < length bs \<and> j < i \<longrightarrow> block_addrs (bs ! i) \<inter> block_addrs (bs ! j) = {}) \<and>
    (\<forall>(p, n) \<in> set bs. \<exists>s'. palloc_free_multiple p n s = (Inr (), s') \<and>
       (\<forall>b \<in> set bs - {(p, n)}. \<forall>x. unat x \<in> block_addrs b \<longrightarrow> mem s' x = mem s x))"
proof -
  obtain p s where "palloc_get_multiple PAL_USER 2 ex_mach = (Inr p, s)" "p \<noteq> 0"
    using palloc_get_succeeds [OF ex_mach_free, of 2 PAL_USER]
    by (auto simp: wants_user_def PAL_USER_def ex_mach_def pool_of_def)
  then have "palloc_run ex_mach s [(p, 2)]"
    using run_get [OF run_start, of 2 PAL_USER] by simp
  then show ?thesis using palloc_blocks_disjoint [OF ex_mach_free, of s "[(p, 2)]"]
    by (intro exI [of _ s] exI [of _ "[(p, 2)]"]) simp
qed

subsection \<open>Initialisation\<close>

lemma buf_size_exact: "n \<le> 2 ^ 18 \<Longrightarrow> bitmap_buf_size n = 8 + 4 * ((n + 31) div 32)"
  by (simp add: bitmap_buf_size_def byte_cnt_def elem_cnt_exact)

lemma init_pool_exec:
  assumes "0 < n" "n \<le> 2 ^ 18" and b: "b = DIV_ROUND_UP (bitmap_buf_size n) PGSIZE"
  shows "\<exists>m. init_pool u bs n s
      = (Inr (), set_pool u \<lparr>pool_lock = False, used_map = m, base = bs + of_nat (b * PGSIZE)\<rparr> s)
    \<and> wf_bitmap m \<and> bit_cnt m = n - b \<and> (\<forall>j. \<not> bm_bit m j) \<and> 0 < b \<and> b \<le> n"
proof -
  have size: "bitmap_buf_size n = 8 + 4 * ((n + 31) div 32)" using assms by (simp add: buf_size_exact)
  have small: "8 + 4 * ((n + 31) div 32) + PGSIZE - 1 < 2 ^ 32" using assms(2) by (simp add: PGSIZE_eq)
  have cov: "8 + 4 * ((n + 31) div 32) \<le> b * PGSIZE" "b * PGSIZE < 8 + 4 * ((n + 31) div 32) + PGSIZE"
    using DIV_ROUND_UP_covers [of PGSIZE "8 + 4 * ((n + 31) div 32)"] small unfolding b size
    by (simp_all add: PGSIZE_eq)
  have "0 < b" using cov(1) by (auto intro!: gr0I)
  have "4 * ((n + 31) div 32) \<le> (n + 31) div 8" by linarith
  then have "b * 4096 < 8 + (n + 31) div 8 + 4096" using cov(2) by (simp add: PGSIZE_eq)
  then have "b \<le> n" using assms(1) by linarith
  let ?buf = "map (\<lambda>i. load32 (mem s) (bs + 8 + of_nat (4 * i))) [0..<b * 1024 - 2]"
  let ?m = "\<lparr>bit_cnt = n - b, bits = ?buf\<rparr>"
  have mono: "(n - b + 31) div 32 \<le> (n + 31) div 32" by (intro div_le_mono) simp
  have "n - b \<le> 32 * ((n - b + 31) div 32)" by linarith
  moreover have "(n - b + 31) div 32 \<le> b * 1024 - 2" using mono cov(1) by (simp add: PGSIZE_eq)
  ultimately have "wf_bitmap ?m" using assms(2) by (simp add: wf_bitmap_def)
  then obtain m where m: "bitmap_set_all ?m False = Inr m" "wf_bitmap m" "bm_abs m = replicate (n - b) False"
    using bitmap_set_all_abs by fastforce
  have "bitmap_buf_size (n - b) \<le> b * PGSIZE"
    using mono cov(1) assms(2) by (simp add: buf_size_exact)
  then have create: "bitmap_create_in_buf (n - b) ?buf (b * PGSIZE) = Inr m"
    using m(1) by (simp add: bitmap_create_in_buf_def)
  have cnt: "bit_cnt m = n - b" using m(3) by (metis length_bm_abs length_replicate)
  then have "\<not> bm_bit m j" for j
    using m(3) by (metis bm_abs_nth bm_bit_def nth_replicate)
  then show ?thesis
    using m(2) cnt create \<open>0 < b\<close> \<open>b \<le> n\<close>
    by (intro exI [of _ m]) (simp add: init_pool_def b [symmetric] Let_def del: of_nat_mult)
qed

lemma ptr_diff_pages:
  assumes "n < 2 ^ 18"
  shows "ptr_diff (p + of_nat (n * PGSIZE)) p PGSIZE = n"
proof -
  have "sint (of_nat (n * PGSIZE) :: u32) = int (n * PGSIZE)"
    using assms by (simp add: signed_of_nat PGSIZE_eq signed_take_bit_int_eq_self del: of_nat_mult)
  moreover have "int (n * PGSIZE) div int PGSIZE = int n" by (simp add: PGSIZE_eq)
  ultimately show ?thesis
    using assms by (simp add: ptr_diff_def Let_def unat_of_nat del: of_nat_mult)
qed

lemma ram_end:
  assumes "256 \<le> rp" "rp < 2 ^ 18"
  shows "ptov (of_nat (rp * PGSIZE)) = Inr (0xc0100000 + of_nat ((rp - 256) * PGSIZE))"
proof -
  have "unat (of_nat (rp * PGSIZE) :: u32) = rp * 4096"
    using assms by (simp add: unat_of_nat PGSIZE_eq del: of_nat_mult)
  then have "of_nat (rp * PGSIZE) < PHYS_BASE"
    using assms by (simp add: word_less_nat_alt PHYS_BASE_def del: of_nat_mult)
  moreover have "(of_nat (rp * PGSIZE) :: u32) = of_nat ((rp - 256) * PGSIZE) + 0x100000"
  proof -
    have "rp * PGSIZE = (rp - 256) * PGSIZE + 0x100000" using assms by (simp add: PGSIZE_eq diff_mult_distrib)
    then show ?thesis by (metis of_nat_add of_nat_numeral)
  qed
  ultimately show ?thesis by (simp add: ptov_def PHYS_BASE_def del: of_nat_mult)
qed

lemma unat_pool_base:
  "n < 2 ^ 18 - 256 \<Longrightarrow> unat (0xc0100000 + of_nat (n * PGSIZE) :: u32) = 0xc0100000 + n * 4096"
  by (subst unat_word_ariths) (simp add: unat_of_nat PGSIZE_eq del: of_nat_mult)

text \<open>The two pools \<open>palloc_init\<close> makes of \<open>kp\<close> and \<open>up\<close> pages, and that they are well formed.\<close>

lemma wf_fresh_pool:
  assumes "base p = 0xc0100000 + of_nat (n * PGSIZE)" "n + bit_cnt (used_map p) + 256 \<le> ram" "ram < 2 ^ 18"
    "wf_bitmap (used_map p)" "\<not> pool_lock p"
  shows "wf_pool ram p" "unat (base p) = 0xc0100000 + n * 4096"
proof -
  show b: "unat (base p) = 0xc0100000 + n * 4096" using assms unat_pool_base [of n] by simp
  have "4096 dvd (0xc0100000 :: nat) + n * 4096" by (intro dvd_add) simp_all
  then show "wf_pool ram p"
    using b assms by (simp add: wf_pool_def pg_ofs_zero_iff PGSIZE_eq PHYS_BASE_def)
qed

text \<open>C11: \<open>palloc_init\<close> on a machine with more than 1 MB and less than 1 GB of memory leaves two
  well-formed pools with every page free; the kernel pool comes first, the two do not overlap,
  no page of either lies below 1 MB or beyond the end of memory, and the user pool respects the
  limit given.\<close>

theorem palloc_init_pools:
  assumes "258 \<le> init_ram_pages s" and "init_ram_pages s < 2 ^ 18" and "0 < user_page_limit"
  shows "\<exists>s'. palloc_init user_page_limit s = (Inr (), s') \<and> all_free s'
    \<and> (\<forall>u. unat PHYS_BASE + 2 ^ 20 < unat (base (pool_of u s')))
    \<and> bit_cnt (used_map (user_pool s')) \<le> user_page_limit"
proof -
  define rp where "rp = init_ram_pages s"
  define up where "up = (if (rp - 256) div 2 > user_page_limit then user_page_limit else (rp - 256) div 2)"
  define kp where "kp = rp - 256 - up"
  have rp: "258 \<le> rp" "rp < 2 ^ 18" using assms by (simp_all add: rp_def)
  have up: "0 < up" "up \<le> user_page_limit" "2 * up \<le> rp - 256" using assms(3) rp by (auto simp: up_def)
  have kp: "0 < kp" "kp + up + 256 = rp" using up rp by (auto simp: kp_def)
  define kb where "kb = DIV_ROUND_UP (bitmap_buf_size kp) PGSIZE"
  define ub where "ub = DIV_ROUND_UP (bitmap_buf_size up) PGSIZE"
  obtain km where km: "init_pool False 0xc0100000 kp s = (Inr (), set_pool False
      \<lparr>pool_lock = False, used_map = km, base = 0xc0100000 + of_nat (kb * PGSIZE)\<rparr> s)"
      "wf_bitmap km" "bit_cnt km = kp - kb" "\<forall>j. \<not> bm_bit km j" "0 < kb" "kb \<le> kp"
    using init_pool_exec [of kp kb False "0xc0100000" s] kp rp by (auto simp: kb_def)
  define s1 where "s1 = set_pool False \<lparr>pool_lock = False, used_map = km, base = 0xc0100000 + of_nat (kb * PGSIZE)\<rparr> s"
  have reassoc: "0xc0100000 + of_nat (kp * PGSIZE) + of_nat (ub * PGSIZE) = (0xc0100000 + of_nat ((kp + ub) * PGSIZE) :: u32)"
    by (simp add: distrib_right)
  obtain um where um: "init_pool True (0xc0100000 + of_nat (kp * PGSIZE)) up s1 = (Inr (), set_pool True
      \<lparr>pool_lock = False, used_map = um, base = 0xc0100000 + of_nat ((kp + ub) * PGSIZE)\<rparr> s1)"
      "wf_bitmap um" "bit_cnt um = up - ub" "\<forall>j. \<not> bm_bit um j" "0 < ub" "ub \<le> up"
    using init_pool_exec [of up ub True "0xc0100000 + of_nat (kp * PGSIZE)" s1] up kp rp
    unfolding reassoc by (auto simp: ub_def)
  define s2 where "s2 = set_pool True \<lparr>pool_lock = False, used_map = um, base = 0xc0100000 + of_nat ((kp + ub) * PGSIZE)\<rparr> s1"
  have "ptov (1024 * 1024) = Inr 0xc0100000" by (simp add: ptov_def PHYS_BASE_def)
  moreover have "ptr_diff (0xc0100000 + of_nat ((rp - 256) * PGSIZE)) 0xc0100000 PGSIZE = rp - 256"
    by (rule ptr_diff_pages) (use rp in linarith)
  ultimately have "palloc_init user_page_limit s
      = bnd (init_pool False 0xc0100000 kp) (\<lambda>_. init_pool True (0xc0100000 + of_nat (kp * PGSIZE)) up) s"
    using ram_end [of rp] rp unfolding kp_def up_def rp_def
    by (simp add: palloc_init_def Let_def del: of_nat_mult of_nat_add)
  then have run: "palloc_init user_page_limit s = (Inr (), s2)"
    using km(1) um(1) by (simp add: s1_def s2_def del: of_nat_mult of_nat_add)
  let ?K = "pool_of False s2" and ?U = "pool_of True s2"
  have K: "wf_pool rp ?K" "unat (base ?K) = 0xc0100000 + kb * 4096"
    using wf_fresh_pool [of ?K kb rp] km kp rp up by (auto simp: s2_def s1_def simp del: of_nat_mult)
  have U: "wf_pool rp ?U" "unat (base ?U) = 0xc0100000 + (kp + ub) * 4096"
    using wf_fresh_pool [of ?U "kp + ub" rp] um kp rp up by (auto simp: s2_def simp del: of_nat_mult of_nat_add)
  have "wf_mach s2"
    unfolding wf_mach_pool_of
    using K U rp km um by (auto simp: all_bool_eq s2_def s1_def rp_def PGSIZE_eq)
  then have "all_free s2"
    using km um by (auto simp: all_free_def s2_def s1_def)
  moreover have "\<forall>u. unat PHYS_BASE + 2 ^ 20 < unat (base (pool_of u s2))"
    using K(2) U(2) km(5) um(5) by (auto simp: all_bool_eq PHYS_BASE_def)
  moreover have "bit_cnt (used_map (user_pool s2)) \<le> user_page_limit"
    using um up by (simp add: s2_def set_pool_def)
  ultimately show ?thesis using run by blast
qed

theorem palloc_init_witness:
  "\<exists>s'. palloc_init 300 ex_mach = (Inr (), s') \<and> all_free s'
    \<and> (\<forall>u. unat PHYS_BASE + 2 ^ 20 < unat (base (pool_of u s')))
    \<and> bit_cnt (used_map (user_pool s')) \<le> 300"
  by (rule palloc_init_pools) (simp_all add: ex_mach_def)

end
