(* ===== verification/Pagedir.thy ===== *)
theory Pagedir
  imports Palloc
begin

unbundle bit_operations_syntax

text \<open>
  Two-level page tables, from \<^verbatim>\<open>userprog/pagedir.c\<close>. A page directory and the page tables are
  pages of kernel memory, read and written as 32-bit words; a pointer to an entry is its
  address, 0 being null. The translation buffer of the processor is not modelled, so
  \<open>invalidate_pagedir\<close> only reloads \<open>cr3\<close>. The lemmas show that the tables implement a finite
  map from user pages to frames: each operation changes the entry it names and no other, in
  this page directory and in every other one.
\<close>

definition load_word :: "u32 \<Rightarrow> ('a mach_scheme, u32) op" where
  "load_word a = (if a = 0 then fail NullDeref else gets (\<lambda>s. load32 (mem s) a))"

definition store_word :: "u32 \<Rightarrow> u32 \<Rightarrow> ('a mach_scheme, unit) op" where
  "store_word a w = (if a = 0 then fail NullDeref else modify (\<lambda>s. s\<lparr>mem := store32 (mem s) a w\<rparr>))"

definition pagedir_activate :: "u32 \<Rightarrow> ('a mach_scheme, unit) op" where
  "pagedir_activate pd =
     bnd (gets (\<lambda>s. if pd = 0 then init_page_dir s else pd)) (\<lambda>pd.
     bnd (lift_res (vtop pd)) (\<lambda>p. modify (\<lambda>s. s\<lparr>cr3 := p\<rparr>)))"

definition active_pd :: "('a mach_scheme, u32) op" where
  "active_pd = bnd (gets cr3) (\<lambda>pd. lift_res (ptov pd))"

definition invalidate_pagedir :: "u32 \<Rightarrow> ('a mach_scheme, unit) op" where
  "invalidate_pagedir pd = bnd active_pd (\<lambda>a. if a = pd then pagedir_activate pd else ret ())"

definition pagedir_create :: "('a mach_scheme, u32) op" where
  "pagedir_create =
     bnd (palloc_get_page 0) (\<lambda>pd.
     if pd \<noteq> 0
     then bnd (gets init_page_dir) (\<lambda>ipd.
          bnd (ensure (ipd \<noteq> 0)) (\<lambda>_.
          bnd (modify (\<lambda>s. s\<lparr>mem := mem_copy (mem s) pd ipd PGSIZE\<rparr>)) (\<lambda>_. ret pd)))
     else ret pd)"

definition destroy_table :: "u32 \<Rightarrow> ('a mach_scheme, unit) op" where
  "destroy_table pt =
     bnd (for_op 0 1024 (\<lambda>j.
       bnd (load_word (pt + of_nat (4 * j))) (\<lambda>pte.
       if pte AND PTE_P \<noteq> 0 then bnd (lift_res (pte_get_page pte)) palloc_free_page else ret ()))) (\<lambda>_.
     palloc_free_page pt)"

definition pagedir_destroy :: "u32 \<Rightarrow> ('a mach_scheme, unit) op" where
  "pagedir_destroy pd =
     (if pd = 0 then ret ()
      else
        bnd (gets init_page_dir) (\<lambda>ipd.
        bnd (ensure (pd \<noteq> ipd)) (\<lambda>_.
        bnd (for_op 0 (unat (pd_no PHYS_BASE)) (\<lambda>i.
          bnd (load_word (pd + of_nat (4 * i))) (\<lambda>pde.
          if pde AND PTE_P \<noteq> 0 then bnd (lift_res (pde_get_pt pde)) destroy_table else ret ()))) (\<lambda>_.
        palloc_free_page pd))))"

definition lookup_page :: "u32 \<Rightarrow> u32 \<Rightarrow> bool \<Rightarrow> ('a mach_scheme, u32) op" where
  "lookup_page pd vaddr create =
     bnd (ensure (pd \<noteq> 0)) (\<lambda>_.
     bnd (ensure (\<not> create \<or> is_user_vaddr vaddr)) (\<lambda>_.
     let pde = pd + 4 * pd_no vaddr in
     bnd (load_word pde) (\<lambda>e.
     bnd (if e = 0
          then if create
               then bnd (palloc_get_page PAL_ZERO) (\<lambda>pt.
                    if pt = 0 then ret False
                    else bnd (lift_res (pde_create pt)) (\<lambda>w. bnd (store_word pde w) (\<lambda>_. ret True)))
               else ret False
          else ret True) (\<lambda>ok.
     if \<not> ok then ret 0
     else bnd (load_word pde) (\<lambda>e.
          bnd (lift_res (pde_get_pt e)) (\<lambda>pt. ret (pt + 4 * pt_no vaddr)))))))"

definition pagedir_set_page :: "u32 \<Rightarrow> u32 \<Rightarrow> u32 \<Rightarrow> bool \<Rightarrow> ('a mach_scheme, bool) op" where
  "pagedir_set_page pd upage kpage writable =
     bnd (ensure (pg_ofs upage = 0)) (\<lambda>_.
     bnd (ensure (pg_ofs kpage = 0)) (\<lambda>_.
     bnd (ensure (is_user_vaddr upage)) (\<lambda>_.
     bnd (lift_res (vtop kpage)) (\<lambda>p.
     bnd (gets init_ram_pages) (\<lambda>rp.
     bnd (ensure (unat (drop_bit PGBITS p) < rp)) (\<lambda>_.
     bnd (gets init_page_dir) (\<lambda>ipd.
     bnd (ensure (pd \<noteq> ipd)) (\<lambda>_.
     bnd (lookup_page pd upage True) (\<lambda>pte.
     if pte \<noteq> 0
     then bnd (load_word pte) (\<lambda>e.
          bnd (ensure (e AND PTE_P = 0)) (\<lambda>_.
          bnd (lift_res (pte_create_user kpage writable)) (\<lambda>w.
          bnd (store_word pte w) (\<lambda>_. ret True))))
     else ret False)))))))))"

definition pagedir_get_page :: "u32 \<Rightarrow> u32 \<Rightarrow> ('a mach_scheme, u32) op" where
  "pagedir_get_page pd uaddr =
     bnd (ensure (is_user_vaddr uaddr)) (\<lambda>_.
     bnd (lookup_page pd uaddr False) (\<lambda>pte.
     if pte = 0 then ret 0
     else bnd (load_word pte) (\<lambda>e.
          if e AND PTE_P \<noteq> 0 then bnd (lift_res (pte_get_page e)) (\<lambda>k. ret (k + pg_ofs uaddr)) else ret 0)))"

definition pagedir_clear_page :: "u32 \<Rightarrow> u32 \<Rightarrow> ('a mach_scheme, unit) op" where
  "pagedir_clear_page pd upage =
     bnd (ensure (pg_ofs upage = 0)) (\<lambda>_.
     bnd (ensure (is_user_vaddr upage)) (\<lambda>_.
     bnd (lookup_page pd upage False) (\<lambda>pte.
     if pte = 0 then ret ()
     else bnd (load_word pte) (\<lambda>e.
          if e AND PTE_P \<noteq> 0
          then bnd (store_word pte (e AND NOT PTE_P)) (\<lambda>_. invalidate_pagedir pd)
          else ret ()))))"

text \<open>Testing and setting one flag of the entry of a page: the dirty and the accessed flag.\<close>

definition pte_flag :: "u32 \<Rightarrow> u32 \<Rightarrow> u32 \<Rightarrow> ('a mach_scheme, bool) op" where
  "pte_flag flag pd vpage =
     bnd (lookup_page pd vpage False) (\<lambda>pte.
     if pte = 0 then ret False else bnd (load_word pte) (\<lambda>e. ret (e AND flag \<noteq> 0)))"

definition set_pte_flag :: "u32 \<Rightarrow> u32 \<Rightarrow> u32 \<Rightarrow> bool \<Rightarrow> ('a mach_scheme, unit) op" where
  "set_pte_flag flag pd vpage v =
     bnd (lookup_page pd vpage False) (\<lambda>pte.
     if pte = 0 then ret ()
     else bnd (load_word pte) (\<lambda>e.
          if v then store_word pte (e OR flag)
          else bnd (store_word pte (e AND NOT flag)) (\<lambda>_. invalidate_pagedir pd)))"

definition pagedir_is_dirty :: "u32 \<Rightarrow> u32 \<Rightarrow> ('a mach_scheme, bool) op" where
  "pagedir_is_dirty = pte_flag PTE_D"

definition pagedir_set_dirty :: "u32 \<Rightarrow> u32 \<Rightarrow> bool \<Rightarrow> ('a mach_scheme, unit) op" where
  "pagedir_set_dirty = set_pte_flag PTE_D"

definition pagedir_is_accessed :: "u32 \<Rightarrow> u32 \<Rightarrow> ('a mach_scheme, bool) op" where
  "pagedir_is_accessed = pte_flag PTE_A"

definition pagedir_set_accessed :: "u32 \<Rightarrow> u32 \<Rightarrow> bool \<Rightarrow> ('a mach_scheme, unit) op" where
  "pagedir_set_accessed = set_pte_flag PTE_A"

subsection \<open>Entries of a table\<close>

definition entry :: "u32 \<Rightarrow> nat \<Rightarrow> u32" where
  "entry t i = t + of_nat (4 * i)"

lemma pde_entry: "pd + 4 * pd_no va = entry pd (unat (pd_no va))"
  by (simp add: entry_def)

lemma pte_entry: "pt + 4 * pt_no va = entry pt (unat (pt_no va))"
  by (simp add: entry_def)

lemma page_room: "pg_ofs t = 0 \<Longrightarrow> unat t + PGSIZE \<le> 2 ^ 32"
  using unsigned_less [of t, where ?'a = nat] by (auto simp: pg_ofs_zero_iff PGSIZE_eq elim!: dvdE)

lemma unat_entry:
  assumes "pg_ofs t = 0" "i < 1024"
  shows "unat (entry t i) = unat t + 4 * i"
proof -
  have "unat (of_nat (4 * i) :: u32) = 4 * i" using assms(2) by (simp add: unat_of_nat del: of_nat_mult)
  moreover have "unat t + 4 * i < 2 ^ 32" using page_room [OF assms(1)] assms(2) by (simp add: PGSIZE_eq)
  ultimately show ?thesis by (simp add: entry_def unat_plus_if' del: of_nat_mult)
qed

lemma entry_aligned: "pg_ofs t = 0 \<Longrightarrow> i < 1024 \<Longrightarrow> 4 dvd unat (entry t i)"
  by (auto simp: unat_entry pg_ofs_zero_iff PGSIZE_eq elim!: dvdE)

lemma entry_inj:
  assumes "pg_ofs t = 0" "pg_ofs t' = 0" "i < 1024" "j < 1024" "entry t i = entry t' j"
  shows "t = t' \<and> i = j"
proof -
  have eq: "unat t + 4 * i = unat t' + 4 * j" using assms unat_entry by metis
  obtain k k' where k: "unat t = 4096 * k" "unat t' = 4096 * k'"
    using assms(1,2) by (auto simp: pg_ofs_zero_iff PGSIZE_eq elim!: dvdE)
  have "(4096 * k + 4 * i) div 4096 = k" "(4096 * k' + 4 * j) div 4096 = k'" using assms(3,4) by auto
  then have "k = k'" using eq k by metis
  then show ?thesis using eq k by (simp add: word_unat_eq_iff)
qed

lemma load_store_entry:
  assumes "pg_ofs t = 0" "pg_ofs t' = 0" "i < 1024" "j < 1024"
  shows "load32 (store32 m (entry t i) w) (entry t' j) = (if t' = t \<and> j = i then w else load32 m (entry t' j))"
proof (cases "t' = t \<and> j = i")
  case False
  then have "entry t' j \<noteq> entry t i" using entry_inj assms by blast
  then show ?thesis
    using load32_store32_other [of "entry t' j" "entry t i"] entry_aligned assms False by auto
qed simp

lemma entry_nonzero: "pg_ofs t = 0 \<Longrightarrow> t \<noteq> 0 \<Longrightarrow> i < 1024 \<Longrightarrow> entry t i \<noteq> 0"
  using unat_entry [of t i] by (auto simp: word_unat_eq_iff)

lemma entry_in_page:
  assumes "pg_ofs t = 0" "i < 1024" "in_block (entry t i) 4 x"
  shows "in_block t PGSIZE x"
proof -
  have "unat (entry t i) + 4 \<le> 2 ^ 32" using aligned_room entry_aligned assms by blast
  then have "unat (entry t i) \<le> unat x" "unat x < unat (entry t i) + 4"
    using assms(3) in_block_interval by blast+
  then show ?thesis
    using in_block_interval [OF page_room [OF assms(1)]] unat_entry [OF assms(1,2)] assms(2)
    by (simp add: PGSIZE_eq)
qed

lemma pages_disjoint:
  assumes "pg_ofs t = 0" "pg_ofs t' = 0" "t \<noteq> t'" "in_block t PGSIZE x"
  shows "\<not> in_block t' PGSIZE x"
proof
  assume "in_block t' PGSIZE x"
  have "unat x div 4096 * 4096 = unat c" if "pg_ofs c = 0" "in_block c PGSIZE x" for c
    using that in_block_interval [OF page_room [OF that(1)], of x]
    by (auto simp: pg_ofs_zero_iff PGSIZE_eq elim!: dvdE)
  then show False using assms \<open>in_block t' PGSIZE x\<close> by (metis word_unat_eq_iff)
qed

lemma pd_entries: "unat (pd_no va) < 1024" "unat (pt_no va) < 1024"
  by (rule pd_no_bound) (rule pt_no_bound)

lemma user_pd_entries: "is_user_vaddr va \<Longrightarrow> unat (pd_no va) < 768"
  using user_pd_no [of va] by (simp add: word_less_nat_alt unat_pd_no PHYS_BASE_def PGSIZE_eq)

subsection \<open>Well-formed page directories\<close>

definition pt_of :: "u32 \<Rightarrow> u32" where
  "pt_of e = (e AND PTE_ADDR) + PHYS_BASE"

text \<open>A page of the kernel pool that is in use.\<close>

definition used_kpage :: "'a mach_scheme \<Rightarrow> u32 \<Rightarrow> bool" where
  "used_kpage s a \<longleftrightarrow> (\<exists>i < bit_cnt (used_map (kernel_pool s)).
     a = page_addr (kernel_pool s) i \<and> bm_bit (used_map (kernel_pool s)) i)"

definition pde_val :: "'a mach_scheme \<Rightarrow> u32 \<Rightarrow> nat \<Rightarrow> u32" where
  "pde_val s pd i = load32 (mem s) (entry pd i)"

definition wf_pd :: "'a mach_scheme \<Rightarrow> u32 \<Rightarrow> bool" where
  "wf_pd s pd \<longleftrightarrow> wf_mach s \<and> used_kpage s pd
     \<and> (\<forall>i < 768. pde_val s pd i \<noteq> 0 \<longrightarrow>
          bit (pde_val s pd i) 0 \<and> used_kpage s (pt_of (pde_val s pd i)) \<and> pt_of (pde_val s pd i) \<noteq> pd)
     \<and> (\<forall>i < 768. \<forall>j < 768. i \<noteq> j \<and> pde_val s pd i \<noteq> 0 \<and> pde_val s pd j \<noteq> 0 \<longrightarrow>
          pt_of (pde_val s pd i) \<noteq> pt_of (pde_val s pd j))"

text \<open>The pages a page directory consists of, and the entry it gives a user address: 0 where it
  has no table.\<close>

definition tables :: "'a mach_scheme \<Rightarrow> u32 \<Rightarrow> u32 set" where
  "tables s pd = insert pd {pt_of (pde_val s pd i) | i. i < 768 \<and> pde_val s pd i \<noteq> 0}"

definition pte_val :: "'a mach_scheme \<Rightarrow> u32 \<Rightarrow> u32 \<Rightarrow> u32" where
  "pte_val s pd va =
    (let e = pde_val s pd (unat (pd_no va)) in
     if e = 0 then 0 else load32 (mem s) (entry (pt_of e) (unat (pt_no va))))"

lemma kpage_props:
  assumes "wf_mach s" "used_kpage s a"
  shows "pg_ofs a = 0" "a \<noteq> 0" "is_kernel_vaddr a"
  using assms page_addr_props [of "init_ram_pages s" "kernel_pool s"]
  by (auto simp: used_kpage_def wf_mach_def)

lemma pt_of_inv:
  assumes "is_kernel_vaddr (pt_of e)"
  shows "e AND PTE_ADDR < PHYS_BASE"
proof -
  let ?x = "e AND PTE_ADDR"
  have x: "unat ?x < 2 ^ 32" using unsigned_less [of ?x, where ?'a = nat] by simp
  have "3221225472 \<le> (unat ?x + 3221225472) mod 2 ^ 32"
    using assms by (simp add: pt_of_def is_kernel_vaddr_def word_le_nat_alt PHYS_BASE_def unat_word_ariths)
  then have "unat ?x < 0x40000000" using x by (auto simp: mod_if split: if_splits)
  then show ?thesis by (simp add: word_less_nat_alt PHYS_BASE_def)
qed

lemma wf_pdD:
  assumes "wf_pd s pd" "i < 768" "pde_val s pd i \<noteq> 0"
  shows "pde_get_pt (pde_val s pd i) = Inr (pt_of (pde_val s pd i))"
    "pg_ofs (pt_of (pde_val s pd i)) = 0" "pt_of (pde_val s pd i) \<noteq> 0" "pt_of (pde_val s pd i) \<noteq> pd"
    "used_kpage s (pt_of (pde_val s pd i))"
proof -
  have wf: "wf_mach s" and k: "used_kpage s (pt_of (pde_val s pd i))" and p: "bit (pde_val s pd i) 0"
    and "pt_of (pde_val s pd i) \<noteq> pd"
    using assms by (auto simp: wf_pd_def)
  then show "pt_of (pde_val s pd i) \<noteq> pd" "used_kpage s (pt_of (pde_val s pd i))" by blast+
  note kp = kpage_props [OF wf k]
  then show "pg_ofs (pt_of (pde_val s pd i)) = 0" "pt_of (pde_val s pd i) \<noteq> 0" by blast+
  show "pde_get_pt (pde_val s pd i) = Inr (pt_of (pde_val s pd i))"
    using flag_set_iff(1) [of "pde_val s pd i"] p pt_of_inv [OF kp(3)]
    by (simp add: pde_get_pt_def ptov_def pt_of_def)
qed

lemma wf_pd_distinct:
  "wf_pd s pd \<Longrightarrow> i < 768 \<Longrightarrow> j < 768 \<Longrightarrow> pde_val s pd i \<noteq> 0 \<Longrightarrow> pde_val s pd j \<noteq> 0 \<Longrightarrow>
   pt_of (pde_val s pd i) = pt_of (pde_val s pd j) \<longleftrightarrow> i = j"
  unfolding wf_pd_def by blast

lemma wf_pd_self:
  assumes "wf_pd s pd"
  shows "pg_ofs pd = 0" "pd \<noteq> 0" "wf_mach s" "used_kpage s pd"
  using assms kpage_props by (auto simp: wf_pd_def)

lemma tables_kpage: "wf_pd s pd \<Longrightarrow> t \<in> tables s pd \<Longrightarrow> used_kpage s t"
  by (auto simp: tables_def wf_pd_def)

lemma load_word_entry:
  "pg_ofs t = 0 \<Longrightarrow> t \<noteq> 0 \<Longrightarrow> i < 1024 \<Longrightarrow> load_word (entry t i) s = (Inr (load32 (mem s) (entry t i)), s)"
  using entry_nonzero by (simp add: load_word_def)

lemma store_word_entry:
  "pg_ofs t = 0 \<Longrightarrow> t \<noteq> 0 \<Longrightarrow> i < 1024 \<Longrightarrow>
   store_word (entry t i) w s = (Inr (), s\<lparr>mem := store32 (mem s) (entry t i) w\<rparr>)"
  using entry_nonzero by (simp add: store_word_def)

lemma lookup_page_exec:
  assumes "wf_pd s pd" "is_user_vaddr va"
  defines "e \<equiv> pde_val s pd (unat (pd_no va))"
  shows "lookup_page pd va False s = (Inr (if e = 0 then 0 else entry (pt_of e) (unat (pt_no va))), s)"
    and "e \<noteq> 0 \<Longrightarrow> lookup_page pd va True s = (Inr (entry (pt_of e) (unat (pt_no va))), s)"
proof -
  note self = wf_pd_self [OF assms(1)]
  have ld: "load_word (entry pd (unat (pd_no va))) s = (Inr e, s)"
    using load_word_entry [OF self(1,2) pd_entries(1)] by (simp add: e_def pde_val_def)
  have get: "e \<noteq> 0 \<Longrightarrow> pde_get_pt e = Inr (pt_of e)"
    using wf_pdD(1) [OF assms(1) user_pd_entries [OF assms(2)]] by (simp add: e_def)
  show "lookup_page pd va False s = (Inr (if e = 0 then 0 else entry (pt_of e) (unat (pt_no va))), s)"
    using self(2) ld get by (simp add: lookup_page_def pde_entry pte_entry bnd_apply Let_def)
  show "e \<noteq> 0 \<Longrightarrow> lookup_page pd va True s = (Inr (entry (pt_of e) (unat (pt_no va))), s)"
    using self(2) ld get assms(2) by (simp add: lookup_page_def pde_entry pte_entry bnd_apply Let_def)
qed

subsection \<open>What a change of state leaves alone\<close>

text \<open>\<open>pages_kept s s'\<close>: the pools are where they were and every kernel page in use still is.\<close>

definition pages_kept :: "'a mach_scheme \<Rightarrow> 'a mach_scheme \<Rightarrow> bool" where
  "pages_kept s s' \<longleftrightarrow> wf_mach s' \<and> base (kernel_pool s') = base (kernel_pool s)
     \<and> bit_cnt (used_map (kernel_pool s')) = bit_cnt (used_map (kernel_pool s))
     \<and> (\<forall>i. bm_bit (used_map (kernel_pool s)) i \<longrightarrow> bm_bit (used_map (kernel_pool s')) i)"

definition same_page_at :: "'a mach_scheme \<Rightarrow> 'a mach_scheme \<Rightarrow> u32 \<Rightarrow> bool" where
  "same_page_at s s' t \<longleftrightarrow> (\<forall>x. in_block t PGSIZE x \<longrightarrow> mem s' x = mem s x)"

lemma pages_kept_kpage: "pages_kept s s' \<Longrightarrow> used_kpage s a \<Longrightarrow> used_kpage s' a"
  by (auto simp: pages_kept_def used_kpage_def page_addr_def)

lemma pages_kept_refl: "wf_mach s \<Longrightarrow> pages_kept s s"
  by (simp add: pages_kept_def)

lemma pages_kept_mem [simp]: "pages_kept s (s'\<lparr>mem := f\<rparr>) = pages_kept s s'"
  by (simp add: pages_kept_def)

lemma pages_kept_trans: "pages_kept s s' \<Longrightarrow> pages_kept s' s'' \<Longrightarrow> pages_kept s s''"
  by (auto simp: pages_kept_def)

lemma same_page_load:
  "same_page_at s s' t \<Longrightarrow> pg_ofs t = 0 \<Longrightarrow> i < 1024 \<Longrightarrow> load32 (mem s') (entry t i) = load32 (mem s) (entry t i)"
  by (rule load32_cong) (auto simp: same_page_at_def dest: entry_in_page)

lemma wf_pd_cong:
  assumes wf: "wf_pd s pd" and kept: "pages_kept s s'" and pde: "\<And>i. i < 768 \<Longrightarrow> pde_val s' pd i = pde_val s pd i"
  shows "wf_pd s' pd" "tables s' pd = tables s pd"
proof -
  show "tables s' pd = tables s pd" unfolding tables_def using pde by metis
  have "wf_mach s'" "used_kpage s' pd"
    using kept pages_kept_kpage wf_pd_self(4) [OF wf] by (auto simp: pages_kept_def)
  then show "wf_pd s' pd"
    using wf pde pages_kept_kpage [OF kept] by (simp add: wf_pd_def)
qed

lemma pd_frame:
  assumes wf: "wf_pd s pd" and kept: "pages_kept s s'" and same: "\<forall>t \<in> tables s pd. same_page_at s s' t"
  shows "wf_pd s' pd" "tables s' pd = tables s pd" "is_user_vaddr va \<Longrightarrow> pte_val s' pd va = pte_val s pd va"
proof -
  note self = wf_pd_self [OF wf]
  have pde: "pde_val s' pd i = pde_val s pd i" if "i < 1024" for i
    using same_page_load [of s s' pd i] same self(1) that by (simp add: pde_val_def tables_def)
  show "wf_pd s' pd" "tables s' pd = tables s pd"
    using wf_pd_cong [OF wf kept, OF pde] by simp_all
  assume u: "is_user_vaddr va"
  let ?e = "pde_val s pd (unat (pd_no va))"
  show "pte_val s' pd va = pte_val s pd va"
  proof (cases "?e = 0")
    case False
    have "pt_of ?e \<in> tables s pd" using user_pd_entries [OF u] False by (auto simp: tables_def)
    then show ?thesis
      using pde [OF pd_entries(1)] same_page_load [of s s' "pt_of ?e"] same False pd_entries(2)
        wf_pdD(2) [OF wf user_pd_entries [OF u] False] by (simp add: pte_val_def Let_def)
  qed (simp add: pte_val_def pde [OF pd_entries(1)])
qed

text \<open>Another page directory that shares no page with \<open>pd\<close> keeps its entries.\<close>

definition others_kept :: "'a mach_scheme \<Rightarrow> 'a mach_scheme \<Rightarrow> u32 \<Rightarrow> bool" where
  "others_kept s s' pd \<longleftrightarrow> (\<forall>pd'. wf_pd s pd' \<and> tables s pd \<inter> tables s pd' = {} \<longrightarrow>
     wf_pd s' pd' \<and> tables s' pd \<inter> tables s' pd' = {}
     \<and> (\<forall>va. is_user_vaddr va \<longrightarrow> pte_val s' pd' va = pte_val s pd' va))"

lemma others_kept_trans:
  "others_kept s s' pd \<Longrightarrow> others_kept s' s'' pd \<Longrightarrow> others_kept s s'' pd"
  by (simp add: others_kept_def)

lemma others_keptI:
  assumes wf: "wf_pd s pd" and kept: "pages_kept s s'"
    and same: "\<And>t. used_kpage s t \<Longrightarrow> t \<notin> tables s pd \<Longrightarrow> same_page_at s s' t"
    and new: "\<And>t. t \<in> tables s' pd \<Longrightarrow> t \<in> tables s pd \<or> \<not> used_kpage s t"
  shows "others_kept s s' pd"
  unfolding others_kept_def
proof (intro allI impI)
  fix pd'
  assume a: "wf_pd s pd' \<and> tables s pd \<inter> tables s pd' = {}"
  have "\<forall>t \<in> tables s pd'. same_page_at s s' t" using a same tables_kpage by blast
  note f = pd_frame [OF conjunct1 [OF a] kept this]
  have "tables s' pd \<inter> tables s' pd' = {}" using a new f(2) tables_kpage by blast
  with f show "wf_pd s' pd' \<and> tables s' pd \<inter> tables s' pd' = {}
     \<and> (\<forall>va. is_user_vaddr va \<longrightarrow> pte_val s' pd' va = pte_val s pd' va)" by blast
qed

subsection \<open>Changing an entry\<close>

lemma same_page_store:
  assumes "pg_ofs t = 0" "pg_ofs t' = 0" "t \<noteq> t'" "i < 1024"
  shows "same_page_at s (s\<lparr>mem := store32 (mem s) (entry t i) w\<rparr>) t'"
  unfolding same_page_at_def
proof (intro allI impI)
  fix x
  assume "in_block t' PGSIZE x"
  then have "\<not> in_block (entry t i) 4 x" using pages_disjoint assms entry_in_page by blast
  then show "mem (s\<lparr>mem := store32 (mem s) (entry t i) w\<rparr>) x = mem s x" by (simp add: store32_outside)
qed

lemma pte_store:
  fixes s :: "'a mach_scheme" and w :: u32
  assumes wf: "wf_pd s pd" and u: "is_user_vaddr va"
  defines "e \<equiv> pde_val s pd (unat (pd_no va))"
  assumes e: "e \<noteq> 0"
  defines "s' \<equiv> s\<lparr>mem := store32 (mem s) (entry (pt_of e) (unat (pt_no va))) w\<rparr>"
  shows "wf_pd s' pd" "tables s' pd = tables s pd"
    "is_user_vaddr va' \<Longrightarrow>
      pte_val s' pd va' = (if pg_round_down va' = pg_round_down va then w else pte_val s pd va')"
    "others_kept s s' pd" "pages_kept s s'"
proof -
  note self = wf_pd_self [OF wf]
  have k: "unat (pd_no va) < 768" using u by (rule user_pd_entries)
  have pt: "pg_ofs (pt_of e) = 0" "pt_of e \<noteq> 0" "pt_of e \<noteq> pd"
    using wf_pdD [OF wf k] e by (auto simp: e_def)
  have pde: "pde_val s' pd i = pde_val s pd i" if "i < 1024" for i
    using load_store_entry [OF pt(1) self(1) pd_entries(2) that] pt(3) by (simp add: pde_val_def s'_def)
  show kept: "pages_kept s s'" using self(3) by (simp add: s'_def pages_kept_refl)
  show wf': "wf_pd s' pd" "tables s' pd = tables s pd"
    using wf_pd_cong [OF wf kept, OF pde] by simp_all
  show "pte_val s' pd va' = (if pg_round_down va' = pg_round_down va then w else pte_val s pd va')"
    if u': "is_user_vaddr va'"
  proof (cases "pde_val s pd (unat (pd_no va')) = 0")
    case True
    then have "pd_no va' \<noteq> pd_no va" using e by (auto simp: e_def)
    then show ?thesis using True pde [OF pd_entries(1)] by (simp add: pte_val_def same_page_iff)
  next
    case False
    let ?t = "pt_of (pde_val s pd (unat (pd_no va')))"
    have k': "unat (pd_no va') < 768" using u' by (rule user_pd_entries)
    have "pg_ofs ?t = 0" using wf_pdD(2) [OF wf k'] False by blast
    moreover have "?t = pt_of e \<longleftrightarrow> pd_no va' = pd_no va"
      using wf_pd_distinct [OF wf k' k False] e by (simp add: e_def word_unat_eq_iff)
    ultimately show ?thesis
      using False pde [OF pd_entries(1)] load_store_entry [OF pt(1) _ pd_entries(2) pd_entries(2), of ?t]
      by (simp add: pte_val_def Let_def s'_def same_page_iff word_unat_eq_iff [symmetric])
  qed
  have "pt_of e \<in> tables s pd" using k e by (auto simp: tables_def e_def)
  then have "same_page_at s s' t" if "used_kpage s t" "t \<notin> tables s pd" for t
    using same_page_store [OF pt(1), of t "unat (pt_no va)" s w] kpage_props(1) [OF self(3) that(1)] that(2)
      pd_entries(2) by (auto simp: s'_def)
  then show "others_kept s s' pd" using others_keptI [OF wf kept] wf'(2) by blast
qed

subsection \<open>Adding a table\<close>

lemma page_addr_inj:
  assumes "wf_pool ram p" "ram \<le> 2 ^ 18" "i < bit_cnt (used_map p)" "j < bit_cnt (used_map p)"
    "page_addr p i = page_addr p j"
  shows "i = j"
  using unat_page_addr [OF assms(1,2)] assms(3-5) by (metis PGSIZE_eq add_left_cancel mult_left_cancel zero_neq_numeral)

text \<open>What an allocation of one kernel page does.\<close>

text \<open>Memory is exhausted when every page of the kernel pool is in use.\<close>

definition kernel_full :: "'a mach_scheme \<Rightarrow> bool" where
  "kernel_full s \<longleftrightarrow> (\<forall>i < bit_cnt (used_map (kernel_pool s)). bm_bit (used_map (kernel_pool s)) i)"

lemma fresh_not_full:
  assumes "pages_kept s s'" "used_kpage s' p" "\<not> used_kpage s p"
  shows "\<not> kernel_full s"
  using assms by (auto simp: kernel_full_def used_kpage_def pages_kept_def page_addr_def)

lemma get_kpage:
  assumes "wf_mach s" and k: "wants_user flags = False" "flags AND PAL_ASSERT = 0"
  obtains (found) p s' where "palloc_get_page flags s = (Inr p, s')" "pages_kept s s'" "used_kpage s' p" "\<not> used_kpage s p"
      "p \<noteq> 0" "mem s' = (if flags AND PAL_ZERO \<noteq> 0 then mem_fill (mem s) p 0 PGSIZE else mem s)"
      "user_pool s' = user_pool s" "init_page_dir s' = init_page_dir s"
      "init_ram_pages s' = init_ram_pages s" "cr3 s' = cr3 s" "mach.more s' = mach.more s"
  | (full) "palloc_get_page flags s = (Inr 0, s)" "kernel_full s"
proof -
  show thesis
  proof (cases rule: palloc_get_cases [OF assms(1) zero_less_one, of flags, case_names ok none])
    case (ok i s')
    let ?p = "page_addr (kernel_pool s) i"
    have kp: "pool_of (wants_user flags) t = kernel_pool t" for t :: "'a mach_scheme" by (simp add: k pool_of_def)
    have wf: "wf_bitmap (used_map (kernel_pool s))" "wf_pool (init_ram_pages s) (kernel_pool s)" "init_ram_pages s \<le> 2 ^ 18"
      using assms(1) by (auto simp: wf_mach_def wf_pool_def)
    note bits = bm.take_found [OF wf(1) ok(2) [unfolded kp] ok(3)]
    have i: "i < bit_cnt (used_map (kernel_pool s))" using ok(4) by (simp add: kp)
    have same: "base (kernel_pool s') = base (kernel_pool s)"
        "bit_cnt (used_map (kernel_pool s')) = bit_cnt (used_map (kernel_pool s))"
      using ok(6) [of False] ok(8) [of False] by (simp_all add: pool_of_def)
    have "pages_kept s s'" using ok(5) bits same by (simp add: pages_kept_def)
    moreover have "used_kpage s' ?p" unfolding used_kpage_def by (intro exI [of _ i]) (use i bits same in \<open>simp add: page_addr_def\<close>)
    moreover have "\<not> used_kpage s ?p" using bits by (auto simp: used_kpage_def dest: page_addr_inj [OF wf(2,3) i])
    moreover have "?p \<noteq> 0" using page_addr_props(2) [OF wf(2,3) i] .
    moreover have "user_pool s' = user_pool s" using ok(7) [of True] by (simp add: k pool_of_def)
    ultimately show thesis
      using found [of ?p s'] ok kp k by (simp add: palloc_get_page_def)
  next
    case none
    have "kernel_full s"
      unfolding kernel_full_def
    proof (intro allI impI)
      fix i
      assume "i < bit_cnt (used_map (kernel_pool s))"
      then show "bm_bit (used_map (kernel_pool s)) i" using none(2) [rule_format, of i] by (simp add: k pool_of_def)
    qed
    then show thesis using full none(1) k by (simp add: palloc_get_page_def)
  qed
qed

lemma get_zeroed_page:
  assumes "wf_mach s"
  obtains (found) p s' where "palloc_get_page PAL_ZERO s = (Inr p, s')" "pages_kept s s'" "used_kpage s' p" "\<not> used_kpage s p"
      "p \<noteq> 0" "mem s' = mem_fill (mem s) p 0 PGSIZE" "user_pool s' = user_pool s"
      "init_page_dir s' = init_page_dir s" "init_ram_pages s' = init_ram_pages s" "cr3 s' = cr3 s" "mach.more s' = mach.more s"
  | (full) "palloc_get_page PAL_ZERO s = (Inr 0, s)" "kernel_full s"
proof -
  have k: "wants_user PAL_ZERO = False" "PAL_ZERO AND PAL_ASSERT = 0" "PAL_ZERO AND PAL_ZERO \<noteq> 0"
    by (simp_all add: wants_user_def PAL_ZERO_def PAL_USER_def PAL_ASSERT_def)
  show thesis by (rule get_kpage [OF assms k(1,2)]) (use k(3) that in auto)
qed

lemma get_kernel_page:
  assumes "wf_mach s"
  obtains (found) p s' where "palloc_get_page 0 s = (Inr p, s')" "pages_kept s s'" "used_kpage s' p" "\<not> used_kpage s p"
      "p \<noteq> 0" "mem s' = mem s" "user_pool s' = user_pool s" "init_page_dir s' = init_page_dir s"
  | (full) "palloc_get_page 0 s = (Inr 0, s)" "kernel_full s"
proof -
  have k: "wants_user 0 = False" "(0::u32) AND PAL_ASSERT = 0" "(0::u32) AND PAL_ZERO = 0"
    by (simp_all add: wants_user_def)
  show thesis by (rule get_kpage [OF assms k(1,2)]) (use k(3) that in auto)
qed

lemma same_page_fill:
  assumes "pg_ofs t = 0" "pg_ofs p = 0" "t \<noteq> p" "mem s' = mem_fill (mem s) p v PGSIZE"
  shows "same_page_at s s' t"
  using pages_disjoint [OF assms(1-3)] assms(4) by (simp add: same_page_at_def mem_fill_def)

lemma same_page_trans: "same_page_at s s' t \<Longrightarrow> same_page_at s' s'' t \<Longrightarrow> same_page_at s s'' t"
  by (simp add: same_page_at_def)

text \<open>Installing a fresh zeroed table \<open>p\<close> in an empty slot of the directory.\<close>

lemma add_table:
  fixes s t :: "'a mach_scheme"
  assumes wf: "wf_pd s pd" and k: "k < 768" and empty: "pde_val s pd k = 0"
    and t: "pages_kept s t" "used_kpage t p" "\<not> used_kpage s p" "mem t = mem_fill (mem s) p 0 PGSIZE"
    and w: "w \<noteq> 0" "bit w 0" "pt_of w = p"
  defines "s' \<equiv> t\<lparr>mem := store32 (mem t) (entry pd k) w\<rparr>"
  shows "wf_pd s' pd" "pde_val s' pd k = w" "is_user_vaddr va \<Longrightarrow> pte_val s' pd va = pte_val s pd va"
    "others_kept s s' pd" "pages_kept s s'"
proof -
  note self = wf_pd_self [OF wf]
  have wft: "wf_mach t" using t(1) by (simp add: pages_kept_def)
  note p = kpage_props [OF wft t(2)]
  have ne: "a \<noteq> p" if "used_kpage s a" for a using that t(3) by blast
  have ne_pd: "pd \<noteq> p" using ne self(4) by blast
  have same_t: "same_page_at s t a" if "used_kpage s a" for a
    using same_page_fill [OF _ p(1) ne] kpage_props(1) [OF self(3)] that t(4) by blast
  have same: "same_page_at s s' a" if "used_kpage s a" "a \<noteq> pd" for a
    using same_page_trans [OF same_t [OF that(1)]] same_page_store [OF self(1) _ _, of a k t w]
      kpage_props(1) [OF self(3) that(1)] that(2) k by (simp add: s'_def)
  have pde: "pde_val s' pd i = (if i = k then w else pde_val s pd i)" if "i < 1024" for i
    using load_store_entry [OF self(1,1), of k i "mem t" w] k that same_page_load [OF same_t [OF self(4)] self(1) that]
    by (simp add: pde_val_def s'_def)
  then show "pde_val s' pd k = w" using k by simp
  show kept: "pages_kept s s'" using t(1) by (simp add: s'_def)
  have kp: "used_kpage s' p" using t(2) by (simp add: s'_def used_kpage_def)
  have tab: "used_kpage s (pt_of (pde_val s pd i))" "pt_of (pde_val s pd i) \<noteq> pd" "bit (pde_val s pd i) 0"
    if "i < 768" "pde_val s pd i \<noteq> 0" for i using wf that by (auto simp: wf_pd_def)
  then have tab_ne: "p \<noteq> pt_of (pde_val s pd i)" if "i < 768" "pde_val s pd i \<noteq> 0" for i
    using that ne by blast
  show "wf_pd s' pd"
    unfolding wf_pd_def
  proof (intro conjI allI impI; (elim conjE)?)
    show "wf_mach s'" using wft by (simp add: s'_def)
    show "used_kpage s' pd" using pages_kept_kpage [OF kept self(4)] .
    fix i
    assume i: "i < 768" "pde_val s' pd i \<noteq> 0"
    show "bit (pde_val s' pd i) 0" "used_kpage s' (pt_of (pde_val s' pd i))" "pt_of (pde_val s' pd i) \<noteq> pd"
      using pde [of i] i w kp ne_pd tab [of i] pages_kept_kpage [OF kept] by (auto split: if_splits)
    fix j
    assume j: "j < 768" "i \<noteq> j" "pde_val s' pd j \<noteq> 0"
    show "pt_of (pde_val s' pd i) \<noteq> pt_of (pde_val s' pd j)"
      using pde [of i] pde [of j] i j w(3) tab_ne [of i] tab_ne [of j] wf_pd_distinct [OF wf, of i j]
      by (auto split: if_splits)
  qed
  have "tables s' pd \<subseteq> insert p (tables s pd)"
    using pde w(3) by (auto simp: tables_def split: if_splits)
  then show "others_kept s s' pd"
    using others_keptI [OF wf kept] same t(3) by (auto simp: tables_def)
  assume u: "is_user_vaddr va"
  have d: "unat (pd_no va) < 768" using u by (rule user_pd_entries)
  show "pte_val s' pd va = pte_val s pd va"
  proof (cases "unat (pd_no va) = k")
    case True
    have "load32 (mem s') (entry p (unat (pt_no va))) = load32 (mem t) (entry p (unat (pt_no va)))"
      using load_store_entry [OF self(1) p(1), of k "unat (pt_no va)"] k pd_entries(2) ne_pd by (simp add: s'_def)
    also have "\<dots> = 0" unfolding t(4) by (rule load32_fill_zero) (rule entry_in_page [OF p(1) pd_entries(2)])
    finally show ?thesis using True empty pde [of k] k w by (simp add: pte_val_def Let_def)
  next
    case False
    show ?thesis
    proof (cases "pde_val s pd (unat (pd_no va)) = 0")
      case True
      then show ?thesis using False pde [OF pd_entries(1)] by (simp add: pte_val_def)
    next
      case nz: False
      then show ?thesis
        using False pde [OF pd_entries(1)] same_page_load [OF same [OF tab(1,2) [OF d nz]] _ pd_entries(2)]
          wf_pdD(2) [OF wf d nz] by (simp add: pte_val_def Let_def)
    qed
  qed
qed

text \<open>\<open>lookup_page\<close> with \<open>create\<close>: either the table is there, possibly fresh, and no entry changed,
  or memory ran out and nothing changed.\<close>

lemma lookup_create:
  assumes wf: "wf_pd s pd" and u: "is_user_vaddr va"
  obtains (found) s' where "lookup_page pd va True s
        = (Inr (entry (pt_of (pde_val s' pd (unat (pd_no va)))) (unat (pt_no va))), s')"
      "pde_val s' pd (unat (pd_no va)) \<noteq> 0" "wf_pd s' pd"
      "\<And>v. is_user_vaddr v \<Longrightarrow> pte_val s' pd v = pte_val s pd v" "others_kept s s' pd" "pages_kept s s'"
      "init_page_dir s' = init_page_dir s" "init_ram_pages s' = init_ram_pages s" "cr3 s' = cr3 s"
      "user_pool s' = user_pool s" "mach.more s' = mach.more s"
      "pde_val s pd (unat (pd_no va)) \<noteq> 0 \<or> \<not> kernel_full s"
  | (full) "lookup_page pd va True s = (Inr 0, s)" "pde_val s pd (unat (pd_no va)) = 0" "kernel_full s"
proof (cases "pde_val s pd (unat (pd_no va)) = 0")
  case False
  have "others_kept s s pd" by (simp add: others_kept_def)
  then show thesis
    using found [of s] lookup_page_exec(2) [OF wf u False] False wf pages_kept_refl [OF wf_pd_self(3) [OF wf]] by simp
next
  case True
  note self = wf_pd_self [OF wf]
  have k: "unat (pd_no va) < 768" using u by (rule user_pd_entries)
  have ld: "load_word (entry pd (unat (pd_no va))) s = (Inr 0, s)"
    using load_word_entry [OF self(1,2) pd_entries(1), where s = s] True by (simp add: pde_val_def)
  show thesis
  proof (cases rule: get_zeroed_page [OF self(3), case_names ok none])
    case none
    then show thesis using full ld True self(2) u by (simp add: lookup_page_def pde_entry bnd_apply Let_def)
  next
    case (ok p t)
    have "wf_mach t" using ok(2) by (simp add: pages_kept_def)
    note p = kpage_props [OF this ok(3)]
    obtain w where w: "pde_create p = Inr w" "bit w 0" "w \<noteq> 0" "pt_of w = p"
      using pde_roundtrip [OF p(1,3)] by (auto simp: pt_of_def)
    let ?s = "t\<lparr>mem := store32 (mem t) (entry pd (unat (pd_no va))) w\<rparr>"
    note add = add_table [OF wf k True ok(2,3,4,6) w(3,2,4)]
    have st: "store_word (entry pd (unat (pd_no va))) w t = (Inr (), ?s)"
      using store_word_entry [OF self(1,2) pd_entries(1)] by blast
    have ld2: "load_word (entry pd (unat (pd_no va))) ?s = (Inr w, ?s)"
      using load_word_entry [OF self(1,2) pd_entries(1), where s = ?s] add(2) by (simp add: pde_val_def)
    have get: "pde_get_pt w = Inr p"
      using wf_pdD(1) [OF add(1) k] add(2) w(3,4) by simp
    have "lookup_page pd va True s = (Inr (entry p (unat (pt_no va))), ?s)"
      using ld ok(1,5) w(1) st ld2 get self(2) u
      by (simp add: lookup_page_def pde_entry pte_entry bnd_apply Let_def)
    then show thesis using found [of ?s] add ok w fresh_not_full [OF ok(2-4)] by simp
  qed
qed

subsection \<open>The operations\<close>

definition translation :: "'a mach_scheme \<Rightarrow> u32 \<Rightarrow> u32 \<Rightarrow> u32 res" where
  "translation s pd va =
    (if pte_val s pd va AND PTE_P \<noteq> 0
     then rbind (pte_get_page (pte_val s pd va)) (\<lambda>k. Inr (k + pg_ofs va)) else Inr 0)"

lemma pte_val_load:
  "pde_val s pd (unat (pd_no va)) \<noteq> 0 \<Longrightarrow>
   load32 (mem s) (entry (pt_of (pde_val s pd (unat (pd_no va)))) (unat (pt_no va))) = pte_val s pd va"
  by (simp add: pte_val_def Let_def)

lemma lookup_nonzero:
  assumes "wf_pd s pd" "is_user_vaddr va" "pde_val s pd (unat (pd_no va)) \<noteq> 0"
  defines "a \<equiv> entry (pt_of (pde_val s pd (unat (pd_no va)))) (unat (pt_no va))"
  shows "a \<noteq> 0" "load_word a s = (Inr (pte_val s pd va), s)"
    "store_word a w s = (Inr (), s\<lparr>mem := store32 (mem s) a w\<rparr>)"
proof -
  note pt = wf_pdD [OF assms(1) user_pd_entries [OF assms(2)] assms(3)]
  show "a \<noteq> 0" unfolding a_def using entry_nonzero [OF pt(2,3) pd_entries(2)] .
  show "load_word a s = (Inr (pte_val s pd va), s)"
    unfolding a_def using load_word_entry [OF pt(2,3) pd_entries(2), where s = s] pte_val_load [OF assms(3)] by simp
  show "store_word a w s = (Inr (), s\<lparr>mem := store32 (mem s) a w\<rparr>)"
    unfolding a_def by (rule store_word_entry [OF pt(2,3) pd_entries(2)])
qed

lemma pagedir_get_page_exec:
  assumes "wf_pd s pd" "is_user_vaddr va"
  shows "pagedir_get_page pd va s = (translation s pd va, s)"
proof (cases "pde_val s pd (unat (pd_no va)) = 0")
  case True
  then show ?thesis
    using lookup_page_exec(1) [OF assms] assms(2) by (simp add: pagedir_get_page_def translation_def pte_val_def)
next
  case False
  then show ?thesis
    using lookup_page_exec(1) [OF assms] lookup_nonzero [OF assms False] assms(2)
    by (cases "pte_get_page (pte_val s pd va)")
      (simp_all add: pagedir_get_page_def translation_def bnd_apply)
qed

lemma pte_flag_exec:
  assumes "wf_pd s pd" "is_user_vaddr va"
  shows "pte_flag flag pd va s = (Inr (pte_val s pd va AND flag \<noteq> 0), s)"
proof (cases "pde_val s pd (unat (pd_no va)) = 0")
  case True
  then show ?thesis
    using lookup_page_exec(1) [OF assms] by (simp add: pte_flag_def pte_val_def)
next
  case False
  then show ?thesis
    using lookup_page_exec(1) [OF assms] lookup_nonzero [OF assms False] by (simp add: pte_flag_def)
qed

text \<open>Reloading \<open>cr3\<close> with the directory it already holds changes nothing.\<close>

lemma invalidate_exec:
  assumes "cr3 s < PHYS_BASE" "is_kernel_vaddr pd" "pd \<noteq> 0"
  shows "invalidate_pagedir pd s = (Inr (), s)"
proof -
  have "active_pd s = (Inr (cr3 s + PHYS_BASE), s)"
    using assms(1) by (simp add: active_pd_def ptov_def)
  then show ?thesis
    using assms by (auto simp: invalidate_pagedir_def pagedir_activate_def vtop_def)
qed

subsection \<open>Properties\<close>

text \<open>C4: \<open>pagedir_set_page\<close> on an unmapped user page fails exactly when the page has no page table and
  every page of the kernel pool is in use, and then it changes nothing. Otherwise it maps exactly
  that page: every address in it translates to the same offset in the frame, its entry lets the
  user write exactly when \<open>writable\<close> is set, the entries of all other user pages are what they
  were, and no other page directory changes.\<close>

theorem pagedir_set_page_maps:
  assumes "wf_pd s pd" and "pd \<noteq> init_page_dir s"
    and "pg_ofs upage = 0" and "is_user_vaddr upage"
    and "pg_ofs kpage = 0" and "is_kernel_vaddr kpage"
    and "unat (drop_bit PGBITS (kpage - PHYS_BASE)) < init_ram_pages s"
    and "pte_val s pd upage AND PTE_P = 0"
  shows "\<exists>r s'. pagedir_set_page pd upage kpage writable s = (Inr r, s') \<and> wf_pd s' pd \<and> others_kept s s' pd
    \<and> (r \<longleftrightarrow> pde_val s pd (unat (pd_no upage)) \<noteq> 0 \<or> \<not> kernel_full s)
    \<and> (if r then (\<forall>va. is_user_vaddr va \<longrightarrow> fst (pagedir_get_page pd va s') =
           (if pg_round_down va = upage then Inr (kpage + pg_ofs va) else fst (pagedir_get_page pd va s)))
         \<and> (pte_val s' pd upage AND PTE_W \<noteq> 0 \<longleftrightarrow> writable) \<and> pte_val s' pd upage AND PTE_U \<noteq> 0
         \<and> pte_val s' pd upage AND PTE_A = 0 \<and> pte_val s' pd upage AND PTE_D = 0
         \<and> (\<forall>va. is_user_vaddr va \<and> pg_round_down va \<noteq> upage \<longrightarrow> pte_val s' pd va = pte_val s pd va)
       else s' = s)"
proof (cases rule: lookup_create [OF assms(1,4), case_names found full])
  case full
  then show ?thesis
    using assms by (intro exI [of _ False] exI [of _ s]) (simp add: pagedir_set_page_def vtop_kernel others_kept_def)
next
  case (found t)
  let ?a = "entry (pt_of (pde_val t pd (unat (pd_no upage)))) (unat (pt_no upage))"
  obtain pte where pte: "pte_create_user kpage writable = Inr pte" "pte_get_page pte = Inr kpage" "pte AND PTE_P \<noteq> 0"
      "pte AND PTE_U \<noteq> 0" "pte AND PTE_W \<noteq> 0 \<longleftrightarrow> writable" "pte AND PTE_A = 0" "pte AND PTE_D = 0"
    using pte_user_entry [OF assms(5,6)] by blast
  let ?s = "t\<lparr>mem := store32 (mem t) ?a pte\<rparr>"
  note a = lookup_nonzero [OF found(3) assms(4) found(2)]
  note st = pte_store [OF found(3) assms(4) found(2), where w = pte]
  note page = pg_round_down_aligned [OF assms(3)]
  have "pte_val t pd upage AND PTE_P = 0" using found(4) [OF assms(4)] assms(8) by simp
  then have run: "pagedir_set_page pd upage kpage writable s = (Inr True, ?s)"
    using assms(2-7) found(1) a pte(1) by (simp add: pagedir_set_page_def vtop_kernel)
  have entries: "pte_val ?s pd va = (if pg_round_down va = upage then pte else pte_val s pd va)"
    if "is_user_vaddr va" for va
    using st(3) [OF that] found(4) [OF that] page by simp
  have "fst (pagedir_get_page pd va ?s) =
      (if pg_round_down va = upage then Inr (kpage + pg_ofs va) else fst (pagedir_get_page pd va s))"
    if "is_user_vaddr va" for va
    using entries [OF that] pagedir_get_page_exec [OF st(1) that] pagedir_get_page_exec [OF assms(1) that] pte(2,3)
    by (simp add: translation_def)
  moreover have "pte_val ?s pd upage = pte" using entries [OF assms(4)] page by simp
  ultimately show ?thesis
    using run st(1) others_kept_trans [OF found(5) st(4)] found(12) entries pte(4-7)
    by (intro exI [of _ True] exI [of _ ?s]) simp
qed

text \<open>C12: \<open>pagedir_clear_page\<close> unmaps exactly the page it is given: its addresses no longer
  translate, so that later accesses fault, and every other mapping stays.\<close>

theorem pagedir_clear_page_unmaps:
  assumes "wf_pd s pd" and "cr3 s < PHYS_BASE" and "pg_ofs upage = 0" and "is_user_vaddr upage"
  shows "\<exists>s'. pagedir_clear_page pd upage s = (Inr (), s') \<and> wf_pd s' pd \<and> others_kept s s' pd
    \<and> (\<forall>va. is_user_vaddr va \<longrightarrow> fst (pagedir_get_page pd va s') =
         (if pg_round_down va = upage then Inr 0 else fst (pagedir_get_page pd va s)))"
proof (cases "pte_val s pd upage AND PTE_P = 0")
  case True
  have same: "pte_val s pd va = pte_val s pd upage" if "pg_round_down va = upage" for va
    using same_page_iff [of va upage] that pg_round_down_aligned [OF assms(3)] by (simp add: pte_val_def Let_def)
  have "pagedir_clear_page pd upage s = (Inr (), s)"
    using lookup_page_exec(1) [OF assms(1,4)] lookup_nonzero(1,2) [OF assms(1,4)] True assms(3,4)
    by (cases "pde_val s pd (unat (pd_no upage)) = 0") (simp_all add: pagedir_clear_page_def)
  then show ?thesis
    using assms(1) True same pagedir_get_page_exec [OF assms(1)] by (auto simp: others_kept_def translation_def)
next
  case False
  then have nz: "pde_val s pd (unat (pd_no upage)) \<noteq> 0" by (auto simp: pte_val_def)
  let ?a = "entry (pt_of (pde_val s pd (unat (pd_no upage)))) (unat (pt_no upage))"
  let ?w = "pte_val s pd upage AND NOT PTE_P"
  let ?s = "s\<lparr>mem := store32 (mem s) ?a ?w\<rparr>"
  note self = wf_pd_self [OF assms(1)] and a = lookup_nonzero [OF assms(1,4) nz]
  note st = pte_store [OF assms(1,4) nz, where w = ?w]
  have "invalidate_pagedir pd ?s = (Inr (), ?s)"
    using invalidate_exec [of ?s pd] assms(2) self kpage_props(3) [OF self(3,4)] by simp
  then have run: "pagedir_clear_page pd upage s = (Inr (), ?s)"
    using lookup_page_exec(1) [OF assms(1,4)] a nz False assms(3,4)
    by (simp add: pagedir_clear_page_def)
  have "\<not> bit ?w 0" by (simp add: bit_and_iff bit_not_iff bit_PTE_flags)
  then have clear: "?w AND PTE_P = 0" using flag_set_iff(1) [of ?w] by blast
  have "fst (pagedir_get_page pd va ?s) = (if pg_round_down va = upage then Inr 0 else fst (pagedir_get_page pd va s))"
    if "is_user_vaddr va" for va
    using st(3) [OF that] pagedir_get_page_exec [OF st(1) that] pagedir_get_page_exec [OF assms(1) that]
      clear pg_round_down_aligned [OF assms(3)] by (simp add: translation_def)
  then show ?thesis using run st(1,4) by blast
qed

text \<open>C17: Setting or clearing the accessed flag of a mapped page changes that bit of the entry of the
  page and nothing else: every other bit of the entry, the entries of all other user pages,
  the pages outside the page directory and the other registers stay, and no other page directory
  changes. A later test of the flag sees the new value; translations and dirty flags stay.\<close>

theorem pagedir_set_accessed_only:
  assumes "wf_pd s pd" and "cr3 s < PHYS_BASE" and "is_user_vaddr va" and "pte_val s pd va \<noteq> 0"
  shows "\<exists>s'. pagedir_set_accessed pd va v s = (Inr (), s') \<and> wf_pd s' pd \<and> others_kept s s' pd
    \<and> s' = s\<lparr>mem := mem s'\<rparr> \<and> (\<forall>x. mem s' x \<noteq> mem s x \<longrightarrow> (\<exists>t \<in> tables s pd - {pd}. in_block t PGSIZE x))
    \<and> (\<forall>a. is_user_vaddr a \<longrightarrow>
         (\<forall>n. bit (pte_val s' pd a) n =
            (if n = 5 \<and> pg_round_down a = pg_round_down va then v else bit (pte_val s pd a) n))
         \<and> fst (pagedir_is_accessed pd a s') =
           (if pg_round_down a = pg_round_down va then Inr v else fst (pagedir_is_accessed pd a s))
         \<and> fst (pagedir_is_dirty pd a s') = fst (pagedir_is_dirty pd a s)
         \<and> fst (pagedir_get_page pd a s') = fst (pagedir_get_page pd a s))"
proof -
  have nz: "pde_val s pd (unat (pd_no va)) \<noteq> 0" using assms(4) by (auto simp: pte_val_def)
  let ?a = "entry (pt_of (pde_val s pd (unat (pd_no va)))) (unat (pt_no va))"
  let ?w = "if v then pte_val s pd va OR PTE_A else pte_val s pd va AND NOT PTE_A"
  let ?s = "s\<lparr>mem := store32 (mem s) ?a ?w\<rparr>"
  note self = wf_pd_self [OF assms(1)] and a = lookup_nonzero [OF assms(1,3) nz]
  note st = pte_store [OF assms(1,3) nz, where w = ?w]
  have "invalidate_pagedir pd ?s = (Inr (), ?s)"
    using invalidate_exec [of ?s pd] assms(2) self kpage_props(3) [OF self(3,4)] by simp
  then have run: "pagedir_set_accessed pd va v s = (Inr (), ?s)"
    using lookup_page_exec(1) [OF assms(1,3)] a nz
    by (cases v) (simp_all add: pagedir_set_accessed_def set_pte_flag_def)
  have bits: "bit ?w n = (if n = 5 then v else bit (pte_val s pd va) n)" for n
    by (auto simp: bit_or_iff bit_and_iff bit_not_iff bit_PTE_flags dest: bit_imp_le_length)
  have flags: "?w AND PTE_A \<noteq> 0 \<longleftrightarrow> v" "?w AND PTE_D \<noteq> 0 \<longleftrightarrow> pte_val s pd va AND PTE_D \<noteq> 0"
      "?w AND PTE_P \<noteq> 0 \<longleftrightarrow> pte_val s pd va AND PTE_P \<noteq> 0"
    unfolding flag_set_iff bits by simp_all
  have addr: "?w AND PTE_ADDR = pte_val s pd va AND PTE_ADDR"
    by (rule bit_word_eqI) (auto simp: bit_and_iff [of ?w] bit_and_iff [of "pte_val s pd va"] bits PTE_ADDR_mask bit_not_iff bit_mask_iff)
  have same: "pte_val s pd b = pte_val s pd va" if "pg_round_down b = pg_round_down va" for b
    using same_page_iff [of b va] that by (simp add: pte_val_def Let_def)
  have entry: "bit (pte_val ?s pd b) n =
      (if n = 5 \<and> pg_round_down b = pg_round_down va then v else bit (pte_val s pd b) n)" if "is_user_vaddr b" for b n
  proof (cases "pg_round_down b = pg_round_down va")
    case True
    then have "pte_val ?s pd b = ?w" using st(3) [OF that] by (simp only: if_True simp_thms)
    then show ?thesis using bits [of n] True unfolding same [OF True] by (simp only: simp_thms)
  next
    case False
    then have "pte_val ?s pd b = pte_val s pd b" using st(3) [OF that] by (simp only: if_False)
    then show ?thesis using False by (simp only: simp_thms if_False)
  qed
  have pt: "pt_of (pde_val s pd (unat (pd_no va))) \<in> tables s pd - {pd}"
    using user_pd_entries [OF assms(3)] nz wf_pdD(4) [OF assms(1) user_pd_entries [OF assms(3)] nz] by (auto simp: tables_def)
  have "mem ?s x = mem s x" if "\<not> (\<exists>t \<in> tables s pd - {pd}. in_block t PGSIZE x)" for x
  proof -
    have "\<not> in_block ?a 4 x"
      using entry_in_page [OF wf_pdD(2) [OF assms(1) user_pd_entries [OF assms(3)] nz] pd_entries(2)] pt that by blast
    then show ?thesis by (simp add: store32_outside)
  qed
  then have frame: "\<forall>x. mem ?s x \<noteq> mem s x \<longrightarrow> (\<exists>t \<in> tables s pd - {pd}. in_block t PGSIZE x)" by blast
  have "fst (pagedir_is_accessed pd b ?s) =
           (if pg_round_down b = pg_round_down va then Inr v else fst (pagedir_is_accessed pd b s))
         \<and> fst (pagedir_is_dirty pd b ?s) = fst (pagedir_is_dirty pd b s)
         \<and> fst (pagedir_get_page pd b ?s) = fst (pagedir_get_page pd b s)"
    if "is_user_vaddr b" for b
    using pte_flag_exec [OF st(1) that] pte_flag_exec [OF assms(1) that] pagedir_get_page_exec [OF st(1) that]
      pagedir_get_page_exec [OF assms(1) that] st(3) [OF that] flags addr same [of b]
    by (simp add: pagedir_is_accessed_def pagedir_is_dirty_def translation_def pte_get_page_def)
  then show ?thesis using run st(1,4) frame entry by (intro exI [of _ ?s]) simp
qed

subsection \<open>Creation\<close>

lemma mem_copy_entry:
  assumes "pg_ofs dst = 0" "i < 1024"
  shows "load32 (mem_copy m dst src PGSIZE) (entry dst i) = load32 m (entry src i)"
proof -
  have *: "mem_copy m dst src PGSIZE (entry dst i + k) = m (entry src i + k)" if "in_block (entry dst i) 4 (entry dst i + k)" for k
    using entry_in_page [OF assms that] by (simp add: mem_copy_def entry_def algebra_simps)
  show ?thesis
    using * [of 0] * [of 1] * [of 2] * [of 3] by (simp add: load32_def in_block_def)
qed

text \<open>C13: \<open>pagedir_create\<close> returns null exactly when every page of the kernel pool is in use, and then
  changes nothing. Otherwise it returns a page directory that maps no user address, has the
  kernel's entries, and disturbs no existing page directory.\<close>

theorem pagedir_create_empty:
  assumes "wf_mach s" and "\<forall>i < 768. load32 (mem s) (entry (init_page_dir s) i) = 0" and "init_page_dir s \<noteq> 0"
  shows "\<exists>pd s'. pagedir_create s = (Inr pd, s') \<and> (pd = 0 \<longleftrightarrow> kernel_full s) \<and>
    (if pd = 0 then s' = s
     else wf_pd s' pd
       \<and> (\<forall>va. is_user_vaddr va \<longrightarrow> fst (pagedir_get_page pd va s') = Inr 0)
       \<and> (\<forall>i < 1024. load32 (mem s') (entry pd i) = load32 (mem s) (entry (init_page_dir s) i))
       \<and> (\<forall>pd'. wf_pd s pd' \<longrightarrow> wf_pd s' pd' \<and> pd \<notin> tables s' pd'
            \<and> (\<forall>va. is_user_vaddr va \<longrightarrow> pte_val s' pd' va = pte_val s pd' va)))"
proof -
  have fl: "wants_user 0 = False" by (simp add: wants_user_def)
  show ?thesis
  proof (cases rule: get_kernel_page [OF assms(1), case_names ok none])
    case none
    then show ?thesis by (simp add: pagedir_create_def)
  next
    case (ok p t)
    let ?s = "t\<lparr>mem := mem_copy (mem t) p (init_page_dir t) PGSIZE\<rparr>"
    have wft: "wf_mach t" using ok(2) by (simp add: pages_kept_def)
    note p = kpage_props [OF wft ok(3)]
    have run: "pagedir_create s = (Inr p, ?s)" using ok(1,5,8) assms(3) by (simp add: pagedir_create_def)
    have pde: "load32 (mem ?s) (entry p i) = load32 (mem s) (entry (init_page_dir s) i)" if "i < 1024" for i
      using mem_copy_entry [OF p(1) that] ok(6,8) by simp
    have zero: "pde_val ?s p i = 0" if "i < 768" for i using pde [of i] that assms(2) by (simp add: pde_val_def)
    have wf: "wf_pd ?s p" using wft ok(3) zero by (simp add: wf_pd_def used_kpage_def)
    have "pte_val ?s p va = 0" if "is_user_vaddr va" for va
      using zero [OF user_pd_entries [OF that]] by (simp add: pte_val_def)
    then have none: "fst (pagedir_get_page p va ?s) = Inr 0" if "is_user_vaddr va" for va
      using pagedir_get_page_exec [OF wf that] that by (simp add: translation_def)
    have kept: "pages_kept s ?s" using ok(2) by simp
    have same: "same_page_at s ?s a" if "used_kpage s a" for a
    proof -
      have "pg_ofs a = 0" "a \<noteq> p" using kpage_props(1) [OF assms(1) that] that ok(4) by auto
      then show ?thesis
        using pages_disjoint [OF _ p(1)] ok(6) by (simp add: same_page_at_def mem_copy_def)
    qed
    have "wf_pd ?s pd' \<and> p \<notin> tables ?s pd' \<and> (\<forall>va. is_user_vaddr va \<longrightarrow> pte_val ?s pd' va = pte_val s pd' va)"
      if "wf_pd s pd'" for pd'
      using pd_frame [OF that kept] tables_kpage [OF that] same ok(4) by blast
    then show ?thesis using run p(2) wf none pde fresh_not_full [OF ok(2-4)] by (intro exI [of _ p] exI [of _ ?s]) simp
  qed
qed

subsection \<open>An example\<close>

text \<open>A page directory at the first kernel page with one table, at the second, that maps user page 0.\<close>

definition ex_pd :: u32 where "ex_pd = 0xc0101000"

definition ex_pd_mach :: mach where
  "ex_pd_mach = ex_mach\<lparr>
     kernel_pool := \<lparr>pool_lock = False, used_map = \<lparr>bit_cnt = 8, bits = [3]\<rparr>, base = 0xc0101000\<rparr>,
     mem := store32 (store32 (\<lambda>_. 0) (entry 0xc0101000 0) 0x102007) (entry 0xc0102000 0) 0x200067\<rparr>"

lemma load_zero: "load32 (\<lambda>_. 0) a = 0"
  by (simp add: load32_def bytes_u32_def)

lemma ex_aligned: "pg_ofs (0xc0101000 :: u32) = 0" "pg_ofs (0xc0102000 :: u32) = 0"
  by (simp_all add: pg_ofs_zero_iff PGSIZE_eq)

lemma ex_pde: "i < 1024 \<Longrightarrow> pde_val ex_pd_mach ex_pd i = (if i = 0 then 0x102007 else 0)"
  using load_store_entry [OF ex_aligned(2,1), of 0 i] load_store_entry [OF ex_aligned(1,1), of 0 i]
  by (simp add: pde_val_def ex_pd_mach_def ex_pd_def load_zero)

lemma ex_pt_of: "pt_of 0x102007 = 0xc0102000"
  by (simp add: pt_of_def PTE_ADDR_def PHYS_BASE_def)

lemma ex_pte: "pte_val ex_pd_mach ex_pd va = (if pg_round_down va = 0 then 0x200067 else 0)"
proof -
  have "pd_no 0 = 0" "pt_no 0 = 0" by (simp_all add: pd_no_def pt_no_def)
  then have z: "pg_round_down va = 0 \<longleftrightarrow> pd_no va = 0 \<and> pt_no va = 0"
    using same_page_iff [of va 0] by (simp add: pg_round_down_def)
  have "load32 (mem ex_pd_mach) (entry 0xc0102000 (unat (pt_no va))) = (if pt_no va = 0 then 0x200067 else 0)"
    using load_store_entry [OF ex_aligned(2,2) _ pd_entries(2), of 0 _ _ va]
      load_store_entry [OF ex_aligned(1,2) _ pd_entries(2), of 0 _ _ va]
    by (simp add: ex_pd_mach_def load_zero unat_eq_0)
  then show ?thesis
    using ex_pde [OF pd_entries(1)]
    by (cases "pt_no va = 0") (simp_all add: pte_val_def Let_def ex_pt_of z unat_eq_0)
qed

lemma ex_pd_mach_sel:
  "init_page_dir ex_pd_mach = 0xc0100000" "init_ram_pages ex_pd_mach = 1024" "cr3 ex_pd_mach = 0"
  by (simp_all add: ex_pd_mach_def ex_mach_def)

lemmas ex_addr = is_user_vaddr_def is_kernel_vaddr_def PHYS_BASE_def PGBITS_def pg_round_down_def PGMASK_def
  BITMASK_def push_bit_eq_mult pg_ofs_zero_iff PGSIZE_eq

lemma ex_wf_pd: "wf_pd ex_pd_mach ex_pd"
proof -
  have wf: "wf_mach ex_pd_mach"
    by (simp add: wf_mach_def wf_pool_def wf_bitmap_def ex_pd_mach_def ex_mach_def PHYS_BASE_def PGSIZE_eq pg_ofs_zero_iff)
  have "used_kpage ex_pd_mach 0xc0101000"
    unfolding used_kpage_def by (rule exI [of _ 0]) (simp add: ex_pd_mach_def page_addr_def bm_bit_def bit_1_iff)
  moreover have "used_kpage ex_pd_mach 0xc0102000"
    unfolding used_kpage_def
    by (rule exI [of _ 1]) (simp add: ex_pd_mach_def page_addr_def bm_bit_def PGSIZE_eq bit_numeral_rec)
  ultimately show ?thesis using wf by (auto simp: wf_pd_def ex_pde ex_pt_of ex_pd_def [symmetric] bit_numeral_rec)
     (simp_all add: ex_pd_def)
qed

lemma ex_not_full: "\<not> kernel_full ex_pd_mach" "\<not> kernel_full ex_mach"
  by (auto simp: kernel_full_def ex_pd_mach_def ex_mach_def bm_bit_def bit_numeral_rec intro!: exI [of _ 2])

theorem pagedir_set_page_witness:
  "\<exists>s'. pagedir_set_page ex_pd 0x08048000 0xc0200000 False ex_pd_mach = (Inr True, s') \<and> wf_pd s' ex_pd
    \<and> others_kept ex_pd_mach s' ex_pd \<and> pte_val s' ex_pd 0x08048000 AND PTE_W = 0
    \<and> fst (pagedir_get_page ex_pd 0x08048010 s') = Inr 0xc0200010"
proof -
  let ?s = ex_pd_mach
  have "\<exists>r s'. pagedir_set_page ex_pd 0x08048000 0xc0200000 False ?s = (Inr r, s') \<and> wf_pd s' ex_pd \<and> others_kept ?s s' ex_pd
    \<and> (r \<longleftrightarrow> pde_val ?s ex_pd (unat (pd_no 0x08048000)) \<noteq> 0 \<or> \<not> kernel_full ?s)
    \<and> (if r then (\<forall>va. is_user_vaddr va \<longrightarrow> fst (pagedir_get_page ex_pd va s') =
           (if pg_round_down va = 0x08048000 then Inr (0xc0200000 + pg_ofs va) else fst (pagedir_get_page ex_pd va ?s)))
         \<and> (pte_val s' ex_pd 0x08048000 AND PTE_W \<noteq> 0 \<longleftrightarrow> False) \<and> pte_val s' ex_pd 0x08048000 AND PTE_U \<noteq> 0
         \<and> pte_val s' ex_pd 0x08048000 AND PTE_A = 0 \<and> pte_val s' ex_pd 0x08048000 AND PTE_D = 0
         \<and> (\<forall>va. is_user_vaddr va \<and> pg_round_down va \<noteq> 0x08048000 \<longrightarrow> pte_val s' ex_pd va = pte_val ?s ex_pd va)
       else s' = ?s)"
    by (rule pagedir_set_page_maps [OF ex_wf_pd])
      (simp_all add: ex_pte ex_pd_mach_sel ex_addr drop_bit_eq_div, simp add: ex_pd_def)
  moreover have "is_user_vaddr 0x08048010" "pg_round_down 0x08048010 = 0x08048000" "pg_ofs 0x08048010 = 0x10"
    by (simp_all add: ex_addr pg_ofs_def)
  ultimately show ?thesis using ex_not_full by force
qed

theorem pagedir_clear_page_witness:
  "\<exists>s'. pagedir_clear_page ex_pd 0 ex_pd_mach = (Inr (), s') \<and> wf_pd s' ex_pd \<and> others_kept ex_pd_mach s' ex_pd
    \<and> (\<forall>va. is_user_vaddr va \<longrightarrow> fst (pagedir_get_page ex_pd va s') =
         (if pg_round_down va = 0 then Inr 0 else fst (pagedir_get_page ex_pd va ex_pd_mach)))"
  by (rule pagedir_clear_page_unmaps [OF ex_wf_pd])
    (simp_all add: ex_pd_mach_sel ex_addr)

theorem pagedir_set_accessed_witness:
  "\<exists>s'. pagedir_set_accessed ex_pd 0x10 False ex_pd_mach = (Inr (), s') \<and> wf_pd s' ex_pd
    \<and> fst (pagedir_is_accessed ex_pd 0 s') = Inr False \<and> fst (pagedir_is_accessed ex_pd 0 ex_pd_mach) = Inr True
    \<and> bit (pte_val s' ex_pd 0) 1 = bit (pte_val ex_pd_mach ex_pd 0) 1"
proof -
  let ?s = ex_pd_mach
  have "\<exists>s'. pagedir_set_accessed ex_pd 0x10 False ?s = (Inr (), s') \<and> wf_pd s' ex_pd \<and> others_kept ?s s' ex_pd
    \<and> s' = ?s\<lparr>mem := mem s'\<rparr> \<and> (\<forall>x. mem s' x \<noteq> mem ?s x \<longrightarrow> (\<exists>t \<in> tables ?s ex_pd - {ex_pd}. in_block t PGSIZE x))
    \<and> (\<forall>a. is_user_vaddr a \<longrightarrow>
         (\<forall>n. bit (pte_val s' ex_pd a) n =
            (if n = 5 \<and> pg_round_down a = pg_round_down 0x10 then False else bit (pte_val ?s ex_pd a) n))
         \<and> fst (pagedir_is_accessed ex_pd a s') =
           (if pg_round_down a = pg_round_down 0x10 then Inr False else fst (pagedir_is_accessed ex_pd a ?s))
         \<and> fst (pagedir_is_dirty ex_pd a s') = fst (pagedir_is_dirty ex_pd a ?s)
         \<and> fst (pagedir_get_page ex_pd a s') = fst (pagedir_get_page ex_pd a ?s))"
    by (rule pagedir_set_accessed_only [OF ex_wf_pd]) (simp_all add: ex_pte ex_pd_mach_sel ex_addr)
  moreover have u: "is_user_vaddr 0" "pg_round_down 0 = pg_round_down 0x10" "pg_round_down 0 = 0"
    by (simp_all add: ex_addr)
  moreover have "fst (pagedir_is_accessed ex_pd 0 ?s) = Inr True"
    using pte_flag_exec [OF ex_wf_pd u(1)] u(3) by (simp add: pagedir_is_accessed_def ex_pte PTE_A_def)
  ultimately show ?thesis by force
qed

theorem pagedir_create_witness:
  "\<exists>pd s'. pagedir_create ex_mach = (Inr pd, s') \<and> pd \<noteq> 0 \<and> wf_pd s' pd
     \<and> (\<forall>va. is_user_vaddr va \<longrightarrow> fst (pagedir_get_page pd va s') = Inr 0)"
proof -
  have "\<exists>pd s'. pagedir_create ex_mach = (Inr pd, s') \<and> (pd = 0 \<longleftrightarrow> kernel_full ex_mach) \<and>
    (if pd = 0 then s' = ex_mach
     else wf_pd s' pd
       \<and> (\<forall>va. is_user_vaddr va \<longrightarrow> fst (pagedir_get_page pd va s') = Inr 0)
       \<and> (\<forall>i < 1024. load32 (mem s') (entry pd i) = load32 (mem ex_mach) (entry (init_page_dir ex_mach) i))
       \<and> (\<forall>pd'. wf_pd ex_mach pd' \<longrightarrow> wf_pd s' pd' \<and> pd \<notin> tables s' pd'
            \<and> (\<forall>va. is_user_vaddr va \<longrightarrow> pte_val s' pd' va = pte_val ex_mach pd' va)))"
    by (rule pagedir_create_empty) (use ex_mach_free in \<open>simp_all add: all_free_def ex_mach_def load_zero\<close>)
  then show ?thesis using ex_not_full(2) by (elim exE conjE) (simp split: if_splits)
qed

end
