(* ===== verification/Hash.thy ===== *)
theory Hash
  imports Prelude
begin

unbundle bit_operations_syntax

text \<open>
  Hash tables, from \<^verbatim>\<open>lib/kernel/hash.c\<close>. A table is an array of buckets; a bucket is the
  sequence of its elements, front first, with \<open>list_push_front\<close> and \<open>list_remove\<close> as consing and
  removing (theory \<open>Klist\<close> shows that the linked lists do this). An element is a pointer, so the
  type of elements is a parameter, and so are the client's two functions \<open>hash\<close> and \<open>less\<close>. The
  outcome of \<open>malloc\<close> in \<open>rehash\<close> is the argument \<open>mem_ok\<close>. The locale states what a client's
  functions must satisfy; under it the table is a set of pairwise inequivalent elements, whatever
  the outcomes of the allocations.
\<close>

record 'e hash =
  elem_cnt :: nat
  bucket_cnt :: nat
  buckets :: "'e list list"

type_synonym 'e hash_func = "'e \<Rightarrow> u32"
type_synonym 'e hash_less = "'e \<Rightarrow> 'e \<Rightarrow> bool"

definition find_bucket :: "'e hash_func \<Rightarrow> 'e hash \<Rightarrow> 'e \<Rightarrow> nat" where
  "find_bucket hf h e = unat (hf e AND (of_nat (bucket_cnt h) - 1))"

definition get_bucket :: "'e hash \<Rightarrow> nat \<Rightarrow> 'e list res" where
  "get_bucket h i = (if i < length (buckets h) then Inr (buckets h ! i) else Inl OutOfBounds)"

fun find_elem :: "'e hash_less \<Rightarrow> 'e list \<Rightarrow> 'e \<Rightarrow> 'e option" where
  "find_elem lt [] e = None"
| "find_elem lt (x # xs) e = (if \<not> lt x e \<and> \<not> lt e x then Some x else find_elem lt xs e)"

definition insert_elem :: "'e hash \<Rightarrow> nat \<Rightarrow> 'e \<Rightarrow> 'e hash" where
  "insert_elem h i e = h\<lparr>elem_cnt := elem_cnt h + 1, buckets := (buckets h)[i := e # buckets h ! i]\<rparr>"

text \<open>\<open>list_remove\<close> unlinks the element from the bucket it is in.\<close>

definition remove_elem :: "'e hash \<Rightarrow> 'e \<Rightarrow> 'e hash" where
  "remove_elem h e = h\<lparr>elem_cnt := elem_cnt h - 1, buckets := map (remove1 e) (buckets h)\<rparr>"

definition turn_off_least_1bit :: "nat \<Rightarrow> nat" where
  "turn_off_least_1bit x = x AND (x - 1)"

definition is_power_of_2 :: "nat \<Rightarrow> bool" where
  "is_power_of_2 x \<longleftrightarrow> x \<noteq> 0 \<and> turn_off_least_1bit x = 0"

lemma turn_off_less: "x \<noteq> 0 \<Longrightarrow> turn_off_least_1bit x < x"
proof -
  assume "x \<noteq> 0"
  have "int x AND int (x - 1) \<le> int (x - 1)" by (rule AND_upper2) simp
  then have "nat (int x AND int (x - 1)) \<le> x - 1" by linarith
  then show ?thesis using \<open>x \<noteq> 0\<close> unfolding turn_off_least_1bit_def and_nat_def by linarith
qed

text \<open>\<open>while (!is_power_of_2 (n)) n = turn_off_least_1bit (n);\<close>: from 0 the loop does not end.\<close>

function pow2_loop :: "nat \<Rightarrow> nat res" where
  "pow2_loop n =
     (if is_power_of_2 n then Inr n
      else if n = 0 then Inl OutOfFuel else pow2_loop (turn_off_least_1bit n))"
  by pat_completeness auto
termination
  by (relation "measure id") (auto simp: turn_off_less)

declare pow2_loop.simps [simp del]

definition move_elem :: "'e hash_func \<Rightarrow> 'e \<Rightarrow> 'e hash \<Rightarrow> 'e hash" where
  "move_elem hf e h =
    (let i = find_bucket hf h e in h\<lparr>buckets := (buckets h)[i := e # buckets h ! i]\<rparr>)"

definition rehash :: "'e hash_func \<Rightarrow> bool \<Rightarrow> 'e hash \<Rightarrow> 'e hash res" where
  "rehash hf mem_ok h =
     (let new_bucket_cnt = elem_cnt h div 2 in
      let new_bucket_cnt = (if new_bucket_cnt < 4 then 4 else new_bucket_cnt) in
      rbind (pow2_loop new_bucket_cnt) (\<lambda>new_bucket_cnt.
      if new_bucket_cnt = bucket_cnt h then Inr h
      else if \<not> mem_ok then Inr h
      else
        let old_buckets = buckets h;
            h = h\<lparr>buckets := replicate new_bucket_cnt [], bucket_cnt := new_bucket_cnt\<rparr>
        in Inr (fold (move_elem hf) (concat old_buckets) h)))"

definition hash_clear :: "('e \<Rightarrow> ('s, unit) op) option \<Rightarrow> 'e hash \<Rightarrow> ('s, 'e hash) op" where
  "hash_clear destructor h =
     bnd (case destructor of None \<Rightarrow> ret ()
          | Some d \<Rightarrow> for_op 0 (length (concat (buckets h))) (\<lambda>i. d (concat (buckets h) ! i))) (\<lambda>_.
     ret (h\<lparr>elem_cnt := 0, buckets := replicate (bucket_cnt h) []\<rparr>))"

definition hash_init :: "bool \<Rightarrow> 'e hash option" where
  "hash_init mem_ok =
     (if mem_ok then Some \<lparr>elem_cnt = 0, bucket_cnt = 4, buckets = replicate 4 []\<rparr> else None)"

definition hash_insert ::
  "'e hash_func \<Rightarrow> 'e hash_less \<Rightarrow> bool \<Rightarrow> 'e hash \<Rightarrow> 'e \<Rightarrow> ('e option \<times> 'e hash) res" where
  "hash_insert hf lt mem_ok h new =
     (let bucket = find_bucket hf h new in
      rbind (get_bucket h bucket) (\<lambda>b.
      let old = find_elem lt b new;
          h = (if old = None then insert_elem h bucket new else h)
      in rbind (rehash hf mem_ok h) (\<lambda>h. Inr (old, h))))"

definition hash_replace ::
  "'e hash_func \<Rightarrow> 'e hash_less \<Rightarrow> bool \<Rightarrow> 'e hash \<Rightarrow> 'e \<Rightarrow> ('e option \<times> 'e hash) res" where
  "hash_replace hf lt mem_ok h new =
     (let bucket = find_bucket hf h new in
      rbind (get_bucket h bucket) (\<lambda>b.
      let old = find_elem lt b new;
          h = (case old of None \<Rightarrow> h | Some x \<Rightarrow> remove_elem h x)
      in rbind (rehash hf mem_ok (insert_elem h bucket new)) (\<lambda>h. Inr (old, h))))"

definition hash_find :: "'e hash_func \<Rightarrow> 'e hash_less \<Rightarrow> 'e hash \<Rightarrow> 'e \<Rightarrow> 'e option res" where
  "hash_find hf lt h e = rbind (get_bucket h (find_bucket hf h e)) (\<lambda>b. Inr (find_elem lt b e))"

definition hash_delete ::
  "'e hash_func \<Rightarrow> 'e hash_less \<Rightarrow> bool \<Rightarrow> 'e hash \<Rightarrow> 'e \<Rightarrow> ('e option \<times> 'e hash) res" where
  "hash_delete hf lt mem_ok h e =
     rbind (get_bucket h (find_bucket hf h e)) (\<lambda>b.
     case find_elem lt b e of
       None \<Rightarrow> Inr (None, h)
     | Some found \<Rightarrow> rbind (rehash hf mem_ok (remove_elem h found)) (\<lambda>h. Inr (Some found, h)))"

definition hash_apply :: "('e \<Rightarrow> ('s, unit) op) \<Rightarrow> 'e hash \<Rightarrow> ('s, unit) op" where
  "hash_apply action h =
     for_op 0 (bucket_cnt h) (\<lambda>i.
       bnd (lift_res (get_bucket h i)) (\<lambda>b. for_op 0 (length b) (\<lambda>j. action (b ! j))))"

definition hash_size :: "'e hash \<Rightarrow> nat" where
  "hash_size h = elem_cnt h"

definition hash_empty :: "'e hash \<Rightarrow> bool" where
  "hash_empty h \<longleftrightarrow> elem_cnt h = 0"

text \<open>An iterator is at position \<open>pos\<close> of bucket \<open>bkt\<close>: position 0 is the list head, position
  \<open>i + 1\<close> the element \<open>i\<close>, and the position after the last element the list end.\<close>

record iter =
  bkt :: nat
  pos :: nat

definition hash_first :: iter where
  "hash_first = \<lparr>bkt = 0, pos = 0\<rparr>"

fun next_bucket :: "'e list list \<Rightarrow> nat \<Rightarrow> nat \<Rightarrow> nat \<Rightarrow> (iter \<times> 'e) option" where
  "next_bucket bs cnt 0 b = None"
| "next_bucket bs cnt (Suc n) b =
     (if b \<ge> cnt then None
      else if bs ! b = [] then next_bucket bs cnt n (b + 1)
      else Some (\<lparr>bkt = b, pos = 1\<rparr>, hd (bs ! b)))"

definition hash_next :: "'e hash \<Rightarrow> iter \<Rightarrow> (iter \<times> 'e) option" where
  "hash_next h i =
     (if pos i < length (buckets h ! bkt i)
      then Some (i\<lparr>pos := pos i + 1\<rparr>, buckets h ! bkt i ! pos i)
      else next_bucket (buckets h) (bucket_cnt h) (bucket_cnt h) (bkt i + 1))"

subsection \<open>The sample hash functions\<close>

definition FNV_32_PRIME :: u32 where "FNV_32_PRIME = 16777619"
definition FNV_32_BASIS :: u32 where "FNV_32_BASIS = 2166136261"

definition hash_bytes :: "u8 list \<Rightarrow> u32" where
  "hash_bytes buf = foldl (\<lambda>hash b. (hash * FNV_32_PRIME) XOR ucast b) FNV_32_BASIS buf"

fun hash_string_loop :: "u32 \<Rightarrow> u8 list \<Rightarrow> u32" where
  "hash_string_loop hash [] = hash"
| "hash_string_loop hash (c # s) =
     (if c \<noteq> 0 then hash_string_loop ((hash * FNV_32_PRIME) XOR ucast c) s else hash)"

definition hash_string :: "u8 list \<Rightarrow> u32" where
  "hash_string s = hash_string_loop FNV_32_BASIS s"

definition hash_int :: "u32 \<Rightarrow> u32" where
  "hash_int i = hash_bytes [ucast i, ucast (drop_bit 8 i), ucast (drop_bit 16 i), ucast (drop_bit 24 i)]"

subsection \<open>Powers of two\<close>

lemma bit_nat_top: "2 ^ k \<le> (x::nat) \<Longrightarrow> x < 2 ^ Suc k \<Longrightarrow> bit x k"
proof -
  assume "2 ^ k \<le> x" "x < 2 ^ Suc k"
  then have "x div 2 ^ k = 1" by (intro div_nat_eqI) auto
  then show ?thesis by (simp add: bit_iff_odd)
qed

lemma bit_nat_ge: "bit (x::nat) k \<Longrightarrow> 2 ^ k \<le> x"
proof (rule ccontr)
  assume "bit x k" "\<not> 2 ^ k \<le> x"
  then have "x div 2 ^ k = 0" by simp
  with \<open>bit x k\<close> show False by (simp add: bit_iff_odd)
qed

lemma turn_off_pow2: "turn_off_least_1bit (2 ^ k) = 0"
proof -
  have "turn_off_least_1bit (2 ^ k) = take_bit k (2 ^ k)"
    by (simp add: turn_off_least_1bit_def take_bit_eq_mask mask_eq_exp_minus_1)
  then show ?thesis by (simp add: take_bit_eq_mod)
qed

lemma turn_off_keeps_top:
  assumes "2 ^ k < x" "x < 2 ^ Suc k"
  shows "2 ^ k \<le> turn_off_least_1bit x"
proof (rule bit_nat_ge)
  have "bit x k" "bit (x - 1) k" using assms by (auto intro!: bit_nat_top)
  then show "bit (turn_off_least_1bit x) k" by (simp add: turn_off_least_1bit_def bit_and_iff)
qed

lemma is_power_of_2_iff:
  assumes "2 ^ k \<le> x" "x < 2 ^ Suc k"
  shows "is_power_of_2 x \<longleftrightarrow> x = 2 ^ k"
proof
  assume *: "is_power_of_2 x"
  show "x = 2 ^ k"
  proof (rule ccontr)
    assume "x \<noteq> 2 ^ k"
    then have "2 ^ k \<le> turn_off_least_1bit x" using assms turn_off_keeps_top by simp
    then show False using * by (simp add: is_power_of_2_def)
  qed
qed (simp add: is_power_of_2_def turn_off_pow2)

lemma pow2_loop_floor:
  assumes "2 ^ k \<le> x" "x < 2 ^ Suc k"
  shows "pow2_loop x = Inr (2 ^ k)"
  using assms
proof (induction x rule: less_induct)
  case (less x)
  show ?case
  proof (cases "x = 2 ^ k")
    case True
    then show ?thesis using is_power_of_2_iff [OF less.prems] by (subst pow2_loop.simps) simp
  next
    case False
    have pos: "x \<noteq> 0" using less.prems(1) by (metis le_zero_eq power_not_zero zero_neq_numeral)
    have "2 ^ k \<le> turn_off_least_1bit x" using turn_off_keeps_top less.prems False by simp
    moreover have "turn_off_least_1bit x < x" using turn_off_less pos by blast
    ultimately have "pow2_loop (turn_off_least_1bit x) = Inr (2 ^ k)"
      using less.IH less.prems(2) by simp
    then show ?thesis using is_power_of_2_iff [OF less.prems] False pos by (subst pow2_loop.simps) simp
  qed
qed

lemma floor_pow2: "(x::nat) \<noteq> 0 \<Longrightarrow> \<exists>k. 2 ^ k \<le> x \<and> x < 2 ^ Suc k"
  using ex_power_ivl1 [of 2 x] by auto

lemma find_bucket_mod:
  assumes "bucket_cnt h = 2 ^ k" "k \<le> 32"
  shows "find_bucket hf h e = unat (hf e) mod 2 ^ k"
proof -
  have "(of_nat (2 ^ k) :: u32) - 1 = mask k" by (simp add: mask_eq_exp_minus_1)
  then have "find_bucket hf h e = unat (take_bit k (hf e))"
    using assms(1) by (simp add: find_bucket_def take_bit_eq_mask)
  then show ?thesis by (metis unsigned_take_bit_eq take_bit_eq_mod)
qed

subsection \<open>Well-formed tables\<close>

text \<open>Every element is in the bucket its hash selects.\<close>

definition placed :: "'e hash_func \<Rightarrow> 'e hash \<Rightarrow> bool" where
  "placed hf h \<longleftrightarrow> (\<forall>i < length (buckets h). \<forall>e \<in> set (buckets h ! i). find_bucket hf h e = i)"

lemma mset_concat_update:
  "i < length bs \<Longrightarrow> mset (concat (bs[i := e # bs ! i])) = add_mset e (mset (concat bs))"
proof (induction bs arbitrary: i)
  case (Cons b bs)
  then show ?case by (cases i) auto
qed simp

lemma mset_concat_remove1:
  "distinct (concat bs) \<Longrightarrow> x \<in> set (concat bs) \<Longrightarrow>
   mset (concat (map (remove1 x) bs)) = mset (concat bs) - {#x#}"
proof (induction bs)
  case (Cons b bs)
  show ?case
  proof (cases "x \<in> set b")
    case True
    then have "map (remove1 x) bs = bs" using Cons.prems(1) by (intro map_idI remove1_idem) auto
    then show ?thesis using True by simp
  next
    case False
    then have "x \<in># mset (concat bs)" "mset (concat (map (remove1 x) bs)) = mset (concat bs) - {#x#}"
      using Cons by auto
    then show ?thesis using False by (simp add: remove1_idem)
  qed
qed simp

lemma find_bucket_cong: "bucket_cnt h' = bucket_cnt h \<Longrightarrow> find_bucket hf h' = find_bucket hf h"
  by (simp add: find_bucket_def fun_eq_iff)

lemma insert_elem_placed:
  assumes "placed hf h" "i = find_bucket hf h e" "i < length (buckets h)"
  shows "placed hf (insert_elem h i e)" "mset (concat (buckets (insert_elem h i e))) = add_mset e (mset (concat (buckets h)))"
  using assms mset_concat_update [OF assms(3)]
  by (auto simp: placed_def insert_elem_def find_bucket_def nth_list_update)

lemma remove_elem_placed: "placed hf h \<Longrightarrow> placed hf (remove_elem h e)"
  by (auto simp: placed_def remove_elem_def find_bucket_def dest: set_mp [OF set_remove1_subset])

lemma fold_move_elem:
  assumes "placed hf h" "\<And>e. find_bucket hf h e < length (buckets h)"
  shows "placed hf (fold (move_elem hf) xs h) \<and> bucket_cnt (fold (move_elem hf) xs h) = bucket_cnt h
    \<and> length (buckets (fold (move_elem hf) xs h)) = length (buckets h)
    \<and> elem_cnt (fold (move_elem hf) xs h) = elem_cnt h
    \<and> mset (concat (buckets (fold (move_elem hf) xs h))) = mset xs + mset (concat (buckets h))"
  using assms
proof (induction xs arbitrary: h)
  case (Cons x xs)
  let ?h = "move_elem hf x h" and ?i = "find_bucket hf h x"
  have "placed hf ?h"
    using Cons.prems by (auto simp: placed_def move_elem_def find_bucket_def nth_list_update Let_def)
  moreover have "find_bucket hf ?h e < length (buckets ?h)" for e
    using Cons.prems(2) [of e] by (simp add: move_elem_def find_bucket_def Let_def)
  moreover have "mset (concat (buckets ?h)) = add_mset x (mset (concat (buckets h)))"
    using mset_concat_update [OF Cons.prems(2) [of x]] by (simp add: move_elem_def Let_def)
  moreover have "bucket_cnt ?h = bucket_cnt h" "length (buckets ?h) = length (buckets h)" "elem_cnt ?h = elem_cnt h"
    by (simp_all add: move_elem_def Let_def)
  ultimately show ?case using Cons.IH [of ?h] by simp
qed simp

text \<open>What the client's two functions must satisfy: \<open>less\<close> is a strict weak order, and elements that
  neither precedes the other have the same hash.\<close>

locale hash_client =
  fixes hf :: "'e hash_func" and lt :: "'e hash_less"
  assumes irrefl: "\<not> lt a a"
    and neg_trans: "lt a c \<Longrightarrow> lt a b \<or> lt b c"
    and asym: "lt a b \<Longrightarrow> \<not> lt b a"
    and hash_eq: "\<not> lt a b \<Longrightarrow> \<not> lt b a \<Longrightarrow> hf a = hf b"
begin

definition equiv :: "'e \<Rightarrow> 'e \<Rightarrow> bool" where
  "equiv a b \<longleftrightarrow> \<not> lt a b \<and> \<not> lt b a"

definition elems :: "'e hash \<Rightarrow> 'e set" where
  "elems h = set (concat (buckets h))"

definition wf_hash :: "'e hash \<Rightarrow> bool" where
  "wf_hash h \<longleftrightarrow> length (buckets h) = bucket_cnt h \<and> (\<exists>k \<le> 31. 2 \<le> k \<and> bucket_cnt h = 2 ^ k)
     \<and> elem_cnt h = length (concat (buckets h)) \<and> elem_cnt h < 2 ^ 32
     \<and> placed hf h \<and> distinct (concat (buckets h)) \<and> (\<forall>a \<in> elems h. \<forall>b \<in> elems h. equiv a b \<longrightarrow> a = b)"

lemma equiv_refl [simp]: "equiv a a"
  by (simp add: equiv_def irrefl)

lemma equiv_sym: "equiv a b = equiv b a"
  by (auto simp: equiv_def)

lemma equiv_trans: "equiv a b \<Longrightarrow> equiv b c \<Longrightarrow> equiv a c"
  unfolding equiv_def using neg_trans [of a c b] neg_trans [of c a b] by blast

lemma equiv_hash: "equiv a b \<Longrightarrow> hf a = hf b"
  by (simp add: equiv_def hash_eq)

lemma equiv_bucket: "equiv a b \<Longrightarrow> find_bucket hf h a = find_bucket hf h b"
  by (simp add: find_bucket_def equiv_hash)

lemma find_elem_Some: "find_elem lt b e = Some x \<Longrightarrow> x \<in> set b \<and> equiv x e"
  by (induction b) (auto simp: equiv_def split: if_splits)

lemma find_elem_None: "find_elem lt b e = None \<longleftrightarrow> (\<forall>x \<in> set b. \<not> equiv x e)"
  by (induction b) (auto simp: equiv_def)

lemma bucket_lt:
  assumes "wf_hash h"
  shows "find_bucket hf h e < length (buckets h)"
proof -
  obtain k where "k \<le> 31" "bucket_cnt h = 2 ^ k" using assms by (auto simp: wf_hash_def)
  then show ?thesis using assms find_bucket_mod [of h k hf e] by (simp add: wf_hash_def)
qed

lemma elems_bucket:
  assumes "wf_hash h" "x \<in> elems h"
  shows "x \<in> set (buckets h ! find_bucket hf h x)"
proof -
  obtain b where "b \<in> set (buckets h)" "x \<in> set b" using assms(2) by (auto simp: elems_def)
  then obtain i where "i < length (buckets h)" "buckets h ! i = b" by (auto simp: in_set_conv_nth)
  then show ?thesis using assms(1) \<open>x \<in> set b\<close> by (auto simp: wf_hash_def placed_def)
qed

lemma bucket_elems:
  "wf_hash h \<Longrightarrow> x \<in> set (buckets h ! find_bucket hf h e) \<Longrightarrow> x \<in> elems h"
  using bucket_lt [of h e] by (auto simp: elems_def)

text \<open>The element of a bucket found is the element of the whole table.\<close>

lemma hash_find_correct:
  assumes "wf_hash h"
  shows "\<exists>r. hash_find hf lt h e = Inr r
    \<and> (case r of None \<Rightarrow> \<forall>x \<in> elems h. \<not> equiv x e | Some x \<Rightarrow> x \<in> elems h \<and> equiv x e)"
proof -
  let ?b = "buckets h ! find_bucket hf h e"
  have run: "hash_find hf lt h e = Inr (find_elem lt ?b e)"
    using bucket_lt [OF assms] by (simp add: hash_find_def get_bucket_def)
  have in_b: "x \<in> set ?b" if "x \<in> elems h" "equiv x e" for x
    using elems_bucket [OF assms that(1)] equiv_bucket [OF that(2), of h] by simp
  show ?thesis
  proof (cases "find_elem lt ?b e")
    case None
    then have "\<forall>x \<in> elems h. \<not> equiv x e" using find_elem_None in_b by blast
    then show ?thesis using run None by simp
  next
    case (Some x)
    then have "x \<in> elems h" "equiv x e" using find_elem_Some bucket_elems [OF assms] by blast+
    then show ?thesis using run Some by simp
  qed
qed

lemma elems_cong: "mset (concat (buckets h')) = mset (concat (buckets h)) \<Longrightarrow> elems h' = elems h"
  unfolding elems_def by (rule mset_eq_setD)

text \<open>\<open>rehash\<close> keeps the elements, whether or not it can allocate.\<close>

lemma rehash_correct:
  assumes "wf_hash h"
  shows "\<exists>h'. rehash hf mem_ok h = Inr h' \<and> wf_hash h' \<and> mset (concat (buckets h')) = mset (concat (buckets h))"
proof -
  define n where "n = (if elem_cnt h div 2 < 4 then 4 else elem_cnt h div 2)"
  have n: "4 \<le> n" "n < 2 ^ 31" using assms by (auto simp: n_def wf_hash_def)
  obtain k where k: "2 ^ k \<le> n" "n < 2 ^ Suc k" using floor_pow2 [of n] n(1) by auto
  have "k < 31" using k(1) n(2) power_less_imp_less_exp [of "2::nat" k 31] by simp
  have "2 < Suc k" using k(2) n(1) power_less_imp_less_exp [of "2::nat" 2 "Suc k"] by simp
  have loop: "pow2_loop n = Inr (2 ^ k)" using pow2_loop_floor [OF k] .
  show ?thesis
  proof (cases "2 ^ k = bucket_cnt h \<or> \<not> mem_ok")
    case True
    then have "rehash hf mem_ok h = Inr h" using loop by (auto simp: rehash_def n_def [symmetric] Let_def)
    then show ?thesis using assms by blast
  next
    case False
    define h0 where "h0 = h\<lparr>buckets := replicate (2 ^ k) [], bucket_cnt := 2 ^ k\<rparr>"
    define h' where "h' = fold (move_elem hf) (concat (buckets h)) h0"
    have run: "rehash hf mem_ok h = Inr h'"
      using False loop by (auto simp: rehash_def n_def [symmetric] Let_def h0_def h'_def)
    have h0: "bucket_cnt h0 = 2 ^ k" "length (buckets h0) = 2 ^ k" "elem_cnt h0 = elem_cnt h" "concat (buckets h0) = []"
      by (simp_all add: h0_def)
    have "placed hf h0" by (simp add: placed_def h0_def)
    moreover have "find_bucket hf h0 e < length (buckets h0)" for e
      using find_bucket_mod [OF h0(1), of hf e] \<open>k < 31\<close> h0(2) by simp
    ultimately have f: "placed hf h'" "bucket_cnt h' = 2 ^ k" "length (buckets h') = 2 ^ k" "elem_cnt h' = elem_cnt h"
        "mset (concat (buckets h')) = mset (concat (buckets h))"
      using fold_move_elem [of hf h0 "concat (buckets h)"] h0 unfolding h'_def by simp_all
    have "\<exists>j \<le> 31. 2 \<le> j \<and> bucket_cnt h' = 2 ^ j"
      by (rule exI [of _ k]) (use f(2) \<open>k < 31\<close> \<open>2 < Suc k\<close> in simp)
    then have "wf_hash h'"
      using assms f mset_eq_length [OF f(5)] mset_eq_imp_distinct_iff [OF f(5)] elems_cong [OF f(5)]
      unfolding wf_hash_def by simp
    then show ?thesis using run f(5) by blast
  qed
qed

lemma rehash_elems:
  assumes "wf_hash h"
  obtains h' where "rehash hf mem_ok h = Inr h'" "wf_hash h'" "elems h' = elems h"
proof -
  obtain h' where h': "rehash hf mem_ok h = Inr h'" "wf_hash h'" "mset (concat (buckets h')) = mset (concat (buckets h))"
    using rehash_correct [OF assms] by blast
  show thesis by (rule that [OF h'(1,2) elems_cong [OF h'(3)]])
qed

lemma wf_insert_elem:
  assumes "wf_hash h" "\<forall>x \<in> elems h. \<not> equiv x e" "elem_cnt h + 1 < 2 ^ 32"
  shows "wf_hash (insert_elem h (find_bucket hf h e) e)" "elems (insert_elem h (find_bucket hf h e) e) = insert e (elems h)"
proof -
  let ?h = "insert_elem h (find_bucket hf h e) e"
  have pl: "placed hf h" using assms(1) by (simp add: wf_hash_def)
  note ins = insert_elem_placed [OF pl refl bucket_lt [OF assms(1)]]
  have set: "set (concat (buckets ?h)) = insert e (elems h)"
    using arg_cong [OF ins(2), of set_mset] by (simp add: elems_def)
  then show el: "elems ?h = insert e (elems h)" by (simp add: elems_def)
  have ne: "e \<notin> elems h" using assms(2) by auto
  have "\<not> equiv e x" if "x \<in> elems h" for x using assms(2) equiv_sym [of e x] that by blast
  then have uniq: "\<forall>a \<in> elems ?h. \<forall>b \<in> elems ?h. equiv a b \<longrightarrow> a = b"
    using assms(1,2) unfolding el by (auto simp: wf_hash_def)
  have "mset (concat (buckets ?h)) = mset (e # concat (buckets h))" using ins(2) by simp
  then have "distinct (concat (buckets ?h)) = distinct (e # concat (buckets h))"
    by (rule mset_eq_imp_distinct_iff)
  moreover have old: "distinct (concat (buckets h))" "elem_cnt h = length (concat (buckets h))"
      "length (buckets h) = bucket_cnt h" "\<exists>k \<le> 31. 2 \<le> k \<and> bucket_cnt h = 2 ^ k"
    using assms(1) unfolding wf_hash_def by blast+
  ultimately have "distinct (concat (buckets ?h))" using ne by (simp add: elems_def)
  moreover have "elem_cnt ?h = length (concat (buckets ?h))"
    using arg_cong [OF ins(2), of size] old(2) by (simp add: insert_elem_def)
  moreover have "elem_cnt ?h < 2 ^ 32" "length (buckets ?h) = bucket_cnt ?h" "\<exists>k \<le> 31. 2 \<le> k \<and> bucket_cnt ?h = 2 ^ k"
    using assms(3) old(3,4) by (simp_all add: insert_elem_def)
  ultimately show "wf_hash ?h" unfolding wf_hash_def using ins(1) uniq by blast
qed

lemma wf_remove_elem:
  assumes "wf_hash h" "x \<in> elems h"
  shows "wf_hash (remove_elem h x)" "elems (remove_elem h x) = elems h - {x}" "elem_cnt h = elem_cnt (remove_elem h x) + 1"
proof -
  let ?h = "remove_elem h x"
  have d: "distinct (concat (buckets h))" and pl: "placed hf h" and cnt: "elem_cnt h = length (concat (buckets h))"
    using assms(1) by (simp_all add: wf_hash_def)
  have x: "x \<in> set (concat (buckets h))" using assms(2) by (simp add: elems_def)
  have m: "mset (concat (buckets ?h)) = mset (remove1 x (concat (buckets h)))"
    using mset_concat_remove1 [OF d x] by (simp add: remove_elem_def)
  have set: "set (concat (buckets ?h)) = elems h - {x}"
    using mset_eq_setD [OF m] d by (simp add: elems_def set_remove1_eq)
  then show el: "elems ?h = elems h - {x}" by (simp add: elems_def)
  have "length (concat (buckets ?h)) = elem_cnt ?h"
    using mset_eq_length [OF m] x cnt by (simp add: remove_elem_def length_remove1)
  moreover have "distinct (concat (buckets ?h))"
    using mset_eq_imp_distinct_iff [OF m] d by (simp add: distinct_remove1)
  moreover have "placed hf ?h" using remove_elem_placed [OF pl] .
  moreover have "\<forall>a \<in> elems ?h. \<forall>b \<in> elems ?h. equiv a b \<longrightarrow> a = b"
    using el assms(1) by (auto simp: wf_hash_def)
  moreover have "length (buckets ?h) = length (buckets h)" "bucket_cnt ?h = bucket_cnt h" "elem_cnt ?h = elem_cnt h - 1"
    by (simp_all add: remove_elem_def)
  moreover have "elem_cnt h - 1 < 2 ^ 32" using assms(1) by (simp add: wf_hash_def less_imp_diff_less)
  ultimately show "wf_hash ?h" using assms(1) by (simp add: wf_hash_def)
  have "0 < length (concat (buckets h))" using x by (cases "concat (buckets h)") auto
  then show "elem_cnt h = elem_cnt ?h + 1" using cnt by (simp add: remove_elem_def)
qed

text \<open>The element of the bucket of \<open>e\<close> that is equivalent to it is the one of the table.\<close>

lemma find_elem_table:
  assumes "wf_hash h"
  shows "case find_elem lt (buckets h ! find_bucket hf h e) e of
      None \<Rightarrow> \<forall>x \<in> elems h. \<not> equiv x e | Some x \<Rightarrow> x \<in> elems h \<and> equiv x e"
  using hash_find_correct [OF assms, of e] bucket_lt [OF assms, of e] by (auto simp: hash_find_def get_bucket_def)

lemma hash_insert_correct:
  assumes "wf_hash h" "elem_cnt h + 1 < 2 ^ 32"
  shows "\<exists>r h'. hash_insert hf lt mem_ok h e = Inr (r, h') \<and> wf_hash h'
    \<and> (case r of None \<Rightarrow> (\<forall>x \<in> elems h. \<not> equiv x e) \<and> elems h' = insert e (elems h)
       | Some x \<Rightarrow> x \<in> elems h \<and> equiv x e \<and> elems h' = elems h)"
proof -
  let ?i = "find_bucket hf h e"
  note f = find_elem_table [OF assms(1), of e]
  have b: "get_bucket h ?i = Inr (buckets h ! ?i)" using bucket_lt [OF assms(1)] by (simp add: get_bucket_def)
  show ?thesis
  proof (cases "find_elem lt (buckets h ! ?i) e")
    case None
    then have ne: "\<forall>x \<in> elems h. \<not> equiv x e" using f by simp
    note ins = wf_insert_elem [OF assms(1) ne assms(2)]
    obtain h' where "rehash hf mem_ok (insert_elem h ?i e) = Inr h'" "wf_hash h'" "elems h' = insert e (elems h)"
      by (rule rehash_elems [OF ins(1), unfolded ins(2)])
    then show ?thesis using None b ne by (simp add: hash_insert_def)
  next
    case (Some x)
    obtain h' where "rehash hf mem_ok h = Inr h'" "wf_hash h'" "elems h' = elems h"
      by (rule rehash_elems [OF assms(1)])
    then show ?thesis using Some b f by (simp add: hash_insert_def)
  qed
qed

lemma hash_delete_correct:
  assumes "wf_hash h"
  shows "\<exists>r h'. hash_delete hf lt mem_ok h e = Inr (r, h') \<and> wf_hash h'
    \<and> (case r of None \<Rightarrow> (\<forall>x \<in> elems h. \<not> equiv x e) \<and> h' = h
       | Some x \<Rightarrow> x \<in> elems h \<and> equiv x e \<and> elems h' = elems h - {x})"
proof -
  let ?i = "find_bucket hf h e"
  note f = find_elem_table [OF assms, of e]
  have b: "get_bucket h ?i = Inr (buckets h ! ?i)" using bucket_lt [OF assms] by (simp add: get_bucket_def)
  show ?thesis
  proof (cases "find_elem lt (buckets h ! ?i) e")
    case None
    then show ?thesis using b f assms by (simp add: hash_delete_def)
  next
    case (Some x)
    then have x: "x \<in> elems h" "equiv x e" using f by simp_all
    note rm = wf_remove_elem [OF assms x(1)]
    obtain h' where "rehash hf mem_ok (remove_elem h x) = Inr h'" "wf_hash h'" "elems h' = elems h - {x}"
      by (rule rehash_elems [OF rm(1), unfolded rm(2)])
    then show ?thesis using Some b x by (simp add: hash_delete_def)
  qed
qed

lemma hash_replace_correct:
  assumes "wf_hash h" "elem_cnt h + 1 < 2 ^ 32"
  shows "\<exists>r h'. hash_replace hf lt mem_ok h e = Inr (r, h') \<and> wf_hash h'
    \<and> (case r of None \<Rightarrow> (\<forall>x \<in> elems h. \<not> equiv x e) \<and> elems h' = insert e (elems h)
       | Some x \<Rightarrow> x \<in> elems h \<and> equiv x e \<and> elems h' = insert e (elems h - {x}))"
proof -
  let ?i = "find_bucket hf h e"
  note f = find_elem_table [OF assms(1), of e]
  have b: "get_bucket h ?i = Inr (buckets h ! ?i)" using bucket_lt [OF assms(1)] by (simp add: get_bucket_def)
  show ?thesis
  proof (cases "find_elem lt (buckets h ! ?i) e")
    case None
    then have ne: "\<forall>x \<in> elems h. \<not> equiv x e" using f by simp
    note ins = wf_insert_elem [OF assms(1) ne assms(2)]
    obtain h' where "rehash hf mem_ok (insert_elem h ?i e) = Inr h'" "wf_hash h'" "elems h' = insert e (elems h)"
      by (rule rehash_elems [OF ins(1), unfolded ins(2)])
    then show ?thesis using None b ne by (simp add: hash_replace_def)
  next
    case (Some x)
    then have x: "x \<in> elems h" "equiv x e" using f by simp_all
    note rm = wf_remove_elem [OF assms(1) x(1)]
    have "y = x" if "y \<in> elems h" "equiv y e" for y
      using equiv_trans [OF that(2)] x equiv_sym [of e x] assms(1) that(1) by (simp add: wf_hash_def)
    then have ne: "\<forall>y \<in> elems (remove_elem h x). \<not> equiv y e" unfolding rm(2) by blast
    have i: "find_bucket hf (remove_elem h x) e = ?i" by (simp add: find_bucket_def remove_elem_def)
    have "elem_cnt (remove_elem h x) + 1 < 2 ^ 32" using rm(3) assms(2) by linarith
    note ins = wf_insert_elem [OF rm(1) ne this, unfolded i]
    obtain h' where "rehash hf mem_ok (insert_elem (remove_elem h x) ?i e) = Inr h'" "wf_hash h'"
        "elems h' = insert e (elems h - {x})"
      by (rule rehash_elems [OF ins(1), unfolded ins(2) rm(2)])
    then show ?thesis using Some b x by (simp add: hash_replace_def)
  qed
qed

end

subsection \<open>Iteration\<close>

text \<open>The loop \<open>hash_first (&i, h); while (hash_next (&i)) ...\<close>, as the list of elements it visits.\<close>

fun iterate :: "nat \<Rightarrow> 'e hash \<Rightarrow> iter \<Rightarrow> 'e list" where
  "iterate 0 h i = []"
| "iterate (Suc n) h i = (case hash_next h i of None \<Rightarrow> [] | Some (i', e) \<Rightarrow> e # iterate n h i')"

text \<open>The elements an iterator has still to visit.\<close>

definition remaining :: "'e hash \<Rightarrow> iter \<Rightarrow> 'e list" where
  "remaining h i = drop (pos i) (buckets h ! bkt i) @ concat (drop (bkt i + 1) (buckets h))"

lemma next_bucket_None:
  "next_bucket bs (length bs) n b = None \<Longrightarrow> length bs \<le> b + n \<Longrightarrow> concat (drop b bs) = []"
proof (induction n arbitrary: b)
  case (Suc n)
  show ?case
  proof (cases "b < length bs")
    case True
    then have "bs ! b = []" using Suc.prems(1) by (auto split: if_splits)
    moreover from this have "concat (drop (b + 1) bs) = []"
      using Suc.IH [of "b + 1"] Suc.prems True by (simp split: if_splits)
    ultimately show ?thesis using True by (simp add: Cons_nth_drop_Suc [symmetric])
  qed simp
qed simp

lemma next_bucket_Some:
  "next_bucket bs (length bs) n b = Some (i, e) \<Longrightarrow>
   pos i = 1 \<and> bkt i < length bs \<and> bs ! bkt i = e # tl (bs ! bkt i)
   \<and> concat (drop b bs) = bs ! bkt i @ concat (drop (bkt i + 1) bs)"
proof (induction n arbitrary: b)
  case (Suc n)
  have b: "b < length bs" using Suc.prems by (auto split: if_splits)
  then have split: "concat (drop b bs) = bs ! b @ concat (drop (b + 1) bs)"
    by (simp add: Cons_nth_drop_Suc [symmetric])
  show ?case
  proof (cases "bs ! b = []")
    case True
    then have "next_bucket bs (length bs) n (b + 1) = Some (i, e)" using Suc.prems b by simp
    then show ?thesis using Suc.IH [of "b + 1"] split True by simp
  next
    case False
    then have "i = \<lparr>bkt = b, pos = 1\<rparr>" "e = hd (bs ! b)" using Suc.prems b by auto
    then show ?thesis using False b split by simp
  qed
qed simp

lemma hash_next_remaining:
  assumes "length (buckets h) = bucket_cnt h" "bkt i < bucket_cnt h" "pos i \<le> length (buckets h ! bkt i)"
  shows "case hash_next h i of None \<Rightarrow> remaining h i = []
    | Some (i', e) \<Rightarrow> remaining h i = e # remaining h i' \<and> bkt i' < bucket_cnt h \<and> pos i' \<le> length (buckets h ! bkt i')"
proof (cases "pos i < length (buckets h ! bkt i)")
  case True
  then show ?thesis using assms by (simp add: hash_next_def remaining_def Cons_nth_drop_Suc [symmetric])
next
  case False
  then have rem: "remaining h i = concat (drop (bkt i + 1) (buckets h))" using assms(3) by (simp add: remaining_def)
  have nx: "hash_next h i = next_bucket (buckets h) (length (buckets h)) (bucket_cnt h) (bkt i + 1)"
    using False assms(1) by (simp add: hash_next_def)
  show ?thesis
  proof (cases "hash_next h i")
    case None
    then show ?thesis using next_bucket_None [of "buckets h" "bucket_cnt h" "bkt i + 1"] nx rem assms by simp
  next
    case (Some p)
    obtain i' e where p: "p = (i', e)" by (cases p)
    have *: "pos i' = 1" "bkt i' < length (buckets h)" "buckets h ! bkt i' = e # tl (buckets h ! bkt i')"
        "concat (drop (bkt i + 1) (buckets h)) = buckets h ! bkt i' @ concat (drop (bkt i' + 1) (buckets h))"
      using next_bucket_Some [of "buckets h" "bucket_cnt h" "bkt i + 1" i' e] nx Some p by simp_all
    have "1 \<le> length (buckets h ! bkt i')" by (subst *(3)) simp
    moreover have "buckets h ! bkt i' = e # drop 1 (buckets h ! bkt i')" using *(3) by (simp add: drop_Suc)
    ultimately show ?thesis using Some p * rem assms(1) by (simp add: remaining_def)
  qed
qed

lemma iterate_remaining:
  "length (buckets h) = bucket_cnt h \<Longrightarrow> bkt i < bucket_cnt h \<Longrightarrow> pos i \<le> length (buckets h ! bkt i) \<Longrightarrow>
   length (remaining h i) < n \<Longrightarrow> iterate n h i = remaining h i"
proof (induction n arbitrary: i)
  case (Suc n)
  then show ?case
    using hash_next_remaining [of h i] by (auto split: option.splits prod.splits)
qed simp

text \<open>C18: Iterating over a hash table visits every element exactly once, bucket by bucket, and then
  stops.\<close>

theorem hash_iteration_complete:
  assumes "length (buckets h) = bucket_cnt h" and "0 < bucket_cnt h" and "length (concat (buckets h)) < fuel"
  shows "iterate fuel h hash_first = concat (buckets h)"
proof -
  have "buckets h = buckets h ! 0 # drop 1 (buckets h)"
    using assms(1,2) by (metis Cons_nth_drop_Suc One_nat_def drop0)
  then have "remaining h hash_first = concat (buckets h)"
    by (simp add: remaining_def hash_first_def) (metis concat.simps(2))
  then show ?thesis using iterate_remaining [of h hash_first fuel] assms by (simp add: hash_first_def)
qed

theorem hash_iteration_witness:
  "iterate 4 \<lparr>elem_cnt = 3, bucket_cnt = 4, buckets = [[], [5::nat, 1], [], [3]]\<rparr> hash_first = [5, 1, 3]"
  using hash_iteration_complete [of "\<lparr>elem_cnt = 3, bucket_cnt = 4, buckets = [[], [5::nat, 1], [], [3]]\<rparr>" 4]
  by simp

end
