(* ===== verification/Block.thy ===== *)
theory Block
  imports Palloc Klist
begin

text \<open>
  Block devices and partitions: \<^verbatim>\<open>devices/block.c\<close> and \<^verbatim>\<open>devices/partition.c\<close>. A
  \<open>struct block *\<close> is the position of the device in \<open>all_blocks\<close>, which only grows. The
  driver of a device is either the controller of a drive, whose contents are a function from
  sector numbers to sectors, or the partition driver with its \<open>struct partition\<close>. Console
  output is left out. The result of the \<open>n\<close>-th \<open>malloc\<close> or \<open>calloc\<close> of a run is given by
  \<open>malloc_ok n\<close>; a block that was handed out has the address \<open>n + 1\<close>, so no two blocks share
  one.

  \<open>locate\<close> follows partitions down to the drive; reads return, and writes change, the located
  sector. The locale \<open>sector_device\<close> is the contract that the file system and the swap area
  rely on; it is interpreted on \<open>block_read\<close> and \<open>block_write\<close>.
\<close>

datatype block_type =
    BLOCK_KERNEL | BLOCK_FILESYS | BLOCK_SCRATCH | BLOCK_SWAP | BLOCK_RAW | BLOCK_FOREIGN

type_synonym sector = "u8 list"

definition BLOCK_SECTOR_SIZE :: nat where "BLOCK_SECTOR_SIZE = 512"

datatype driver = Drive "nat \<Rightarrow> sector" | Partition nat nat

record block =
  bname :: string
  btype :: block_type
  bsize :: nat
  ops_aux :: driver
  read_cnt :: u64
  write_cnt :: u64

record kern = mach +
  malloc_ok :: "nat \<Rightarrow> bool"
  malloc_cnt :: nat
  all_blocks :: "block list"
  block_by_role :: "block_type \<Rightarrow> nat option"

definition kmalloc :: "('a kern_scheme, addr) op" where
  "kmalloc = bnd (gets (\<lambda>s. (malloc_ok s (malloc_cnt s), malloc_cnt s))) (\<lambda>(good, n).
     bnd (modify (\<lambda>s. s\<lparr>malloc_cnt := Suc n\<rparr>)) (\<lambda>_. ret (if good then Suc n else NULL)))"

definition block_type_name :: "block_type \<Rightarrow> string" where
  "block_type_name t = (case t of BLOCK_KERNEL \<Rightarrow> ''kernel'' | BLOCK_FILESYS \<Rightarrow> ''filesys''
     | BLOCK_SCRATCH \<Rightarrow> ''scratch'' | BLOCK_SWAP \<Rightarrow> ''swap'' | BLOCK_RAW \<Rightarrow> ''raw''
     | BLOCK_FOREIGN \<Rightarrow> ''foreign'')"

definition is_role :: "block_type \<Rightarrow> bool" where
  "is_role t \<longleftrightarrow> t \<notin> {BLOCK_RAW, BLOCK_FOREIGN}"

definition block_get_role :: "block_type \<Rightarrow> ('a kern_scheme, nat option) op" where
  "block_get_role role = bnd (ensure (is_role role)) (\<lambda>_. gets (\<lambda>s. block_by_role s role))"

definition block_set_role :: "block_type \<Rightarrow> nat option \<Rightarrow> ('a kern_scheme, unit) op" where
  "block_set_role role b = bnd (ensure (is_role role))
     (\<lambda>_. modify (\<lambda>s. s\<lparr>block_by_role := (block_by_role s)(role := b)\<rparr>))"

definition block_first :: "'a kern_scheme \<Rightarrow> nat option" where
  "block_first s = (if all_blocks s = [] then None else Some 0)"

definition block_next :: "nat \<Rightarrow> 'a kern_scheme \<Rightarrow> nat option" where
  "block_next b s = (if Suc b < length (all_blocks s) then Some (Suc b) else None)"

fun find_name :: "string \<Rightarrow> block list \<Rightarrow> nat \<Rightarrow> nat option" where
  "find_name name [] i = None"
| "find_name name (b # bs) i = (if name = bname b then Some i else find_name name bs (Suc i))"

definition block_get_by_name :: "string \<Rightarrow> 'a kern_scheme \<Rightarrow> nat option" where
  "block_get_by_name name s = find_name name (all_blocks s) 0"

definition block_size :: "nat \<Rightarrow> 'a kern_scheme \<Rightarrow> nat" where
  "block_size b s = bsize (all_blocks s ! b)"

definition block_name :: "nat \<Rightarrow> 'a kern_scheme \<Rightarrow> string" where
  "block_name b s = bname (all_blocks s ! b)"

definition check_sector :: "nat \<Rightarrow> nat \<Rightarrow> ('a kern_scheme, unit) op" where
  "check_sector b sector = bnd (gets (block_size b))
     (\<lambda>size. if size \<le> sector then fail Panic else ret ())"

text \<open>The partition driver passes the request on to the underlying device.\<close>

definition partition_read :: "(nat \<Rightarrow> nat \<Rightarrow> ('s, sector) op) \<Rightarrow> nat \<Rightarrow> nat \<Rightarrow> nat \<Rightarrow> ('s, sector) op" where
  "partition_read rd b start sector = rd b (sz (start + sector))"

definition partition_write ::
    "(nat \<Rightarrow> nat \<Rightarrow> sector \<Rightarrow> ('s, unit) op) \<Rightarrow> nat \<Rightarrow> nat \<Rightarrow> nat \<Rightarrow> sector \<Rightarrow> ('s, unit) op" where
  "partition_write wr b start sector buf = wr b (sz (start + sector)) buf"

definition upd_block :: "nat \<Rightarrow> (block \<Rightarrow> block) \<Rightarrow> ('a kern_scheme, unit) op" where
  "upd_block b f = modify (\<lambda>s. s\<lparr>all_blocks := (all_blocks s)[b := f (all_blocks s ! b)]\<rparr>)"

fun block_read_n :: "nat \<Rightarrow> nat \<Rightarrow> nat \<Rightarrow> ('a kern_scheme, sector) op" where
  "block_read_n 0 b sector = fail OutOfFuel"
| "block_read_n (Suc n) b sector =
     bnd (check_sector b sector) (\<lambda>_.
     bnd (gets (\<lambda>s. ops_aux (all_blocks s ! b))) (\<lambda>d.
     bnd (case d of Drive f \<Rightarrow> ret (f sector)
          | Partition p start \<Rightarrow> partition_read (block_read_n n) p start sector) (\<lambda>buf.
     bnd (upd_block b (\<lambda>k. k\<lparr>read_cnt := read_cnt k + 1\<rparr>)) (\<lambda>_. ret buf))))"

fun block_write_n :: "nat \<Rightarrow> nat \<Rightarrow> nat \<Rightarrow> sector \<Rightarrow> ('a kern_scheme, unit) op" where
  "block_write_n 0 b sector buf = fail OutOfFuel"
| "block_write_n (Suc n) b sector buf =
     bnd (check_sector b sector) (\<lambda>_.
     bnd (gets (\<lambda>s. all_blocks s ! b)) (\<lambda>k.
     bnd (ensure (btype k \<noteq> BLOCK_FOREIGN)) (\<lambda>_.
     bnd (case ops_aux k of Drive f \<Rightarrow> upd_block b (\<lambda>k. k\<lparr>ops_aux := Drive (f(sector := buf))\<rparr>)
          | Partition p start \<Rightarrow> partition_write (block_write_n n) p start sector buf) (\<lambda>_.
     upd_block b (\<lambda>k. k\<lparr>write_cnt := write_cnt k + 1\<rparr>)))))"

definition block_read :: "nat \<Rightarrow> nat \<Rightarrow> ('a kern_scheme, sector) op" where
  "block_read b sector = (\<lambda>s. block_read_n (length (all_blocks s)) b sector s)"

definition block_write :: "nat \<Rightarrow> nat \<Rightarrow> sector \<Rightarrow> ('a kern_scheme, unit) op" where
  "block_write b sector buf = (\<lambda>s. block_write_n (length (all_blocks s)) b sector buf s)"

definition block_register :: "string \<Rightarrow> block_type \<Rightarrow> nat \<Rightarrow> driver \<Rightarrow> ('a kern_scheme, nat) op" where
  "block_register name type sectors drv =
     bnd kmalloc (\<lambda>p. if p = NULL then fail Panic
       else bnd (gets (\<lambda>s. length (all_blocks s))) (\<lambda>b.
            bnd (modify (\<lambda>s. s\<lparr>all_blocks := all_blocks s @ [\<lparr>bname = take 15 name, btype = type,
                   bsize = sectors, ops_aux = drv, read_cnt = 0, write_cnt = 0\<rparr>]\<rparr>)) (\<lambda>_. ret b)))"

subsection \<open>Partition tables\<close>

record partition_table_entry =
  pt_type :: u8
  pt_offset :: nat
  pt_size :: nat

definition u32_at :: "u8 list \<Rightarrow> nat \<Rightarrow> u32" where
  "u32_at bs i = bytes_u32 (bs ! i) (bs ! (i + 1)) (bs ! (i + 2)) (bs ! (i + 3))"

definition get_entry :: "sector \<Rightarrow> nat \<Rightarrow> partition_table_entry" where
  "get_entry pt i = (let o' = 446 + 16 * i in
     \<lparr>pt_type = pt ! (o' + 4), pt_offset = unat (u32_at pt (o' + 8)), pt_size = unat (u32_at pt (o' + 12))\<rparr>)"

definition is_extended :: "u8 \<Rightarrow> bool" where
  "is_extended t \<longleftrightarrow> t = 0x05 \<or> t = 0x0f \<or> t = 0x85 \<or> t = 0xc5"

fun decimal :: "nat \<Rightarrow> string" where
  "decimal n = (if n < 10 then [char_of (48 + n)] else decimal (n div 10) @ [char_of (48 + n mod 10)])"

declare decimal.simps [simp del]

definition partition_role :: "u8 \<Rightarrow> block_type" where
  "partition_role t = (if t = 0x20 then BLOCK_KERNEL else if t = 0x21 then BLOCK_FILESYS
     else if t = 0x22 then BLOCK_SCRATCH else if t = 0x23 then BLOCK_SWAP else BLOCK_FOREIGN)"

definition found_partition :: "nat \<Rightarrow> u8 \<Rightarrow> nat \<Rightarrow> nat \<Rightarrow> nat \<Rightarrow> ('a kern_scheme, unit) op" where
  "found_partition b part_type start sectors part_nr =
     bnd (gets (block_size b)) (\<lambda>dev_size.
     if dev_size \<le> start then ret ()
     else if sz (start + sectors) < start \<or> dev_size < sz (start + sectors) then ret ()
     else bnd kmalloc (\<lambda>p. if p = NULL then fail Panic
          else bnd (gets (block_name b)) (\<lambda>nm.
               bnd (block_register (take 15 (nm @ decimal part_nr)) (partition_role part_type) sectors
                      (Partition b start)) (\<lambda>_. ret ()))))"

fun parse_partitions ::
    "(nat \<Rightarrow> nat \<Rightarrow> nat \<Rightarrow> ('a kern_scheme, nat) op) \<Rightarrow> nat \<Rightarrow> nat \<Rightarrow> nat \<Rightarrow> partition_table_entry list
      \<Rightarrow> nat \<Rightarrow> ('a kern_scheme, nat) op" where
  "parse_partitions rec b sector primary [] part_nr = ret part_nr"
| "parse_partitions rec b sector primary (e # es) part_nr =
     bnd (if pt_size e = 0 \<or> pt_type e = 0 then ret part_nr
          else if is_extended (pt_type e) then
            (if sector = 0 then rec (pt_offset e) (pt_offset e) part_nr
             else rec (sz (pt_offset e + primary)) primary part_nr)
          else bnd (found_partition b (pt_type e) (sz (pt_offset e + sector)) (pt_size e) (Suc part_nr))
                 (\<lambda>_. ret (Suc part_nr)))
       (\<lambda>nr. parse_partitions rec b sector primary es nr)"

fun read_partition_table :: "nat \<Rightarrow> nat \<Rightarrow> nat \<Rightarrow> nat \<Rightarrow> nat \<Rightarrow> ('a kern_scheme, nat) op" where
  "read_partition_table 0 b sector primary part_nr = fail OutOfFuel"
| "read_partition_table (Suc n) b sector primary part_nr =
     bnd (gets (block_size b)) (\<lambda>dev_size.
     if dev_size \<le> sector then ret part_nr
     else bnd kmalloc (\<lambda>p. if p = NULL then fail Panic
          else bnd (block_read b 0) (\<lambda>pt.
               if \<not> (pt ! 510 = 0x55 \<and> pt ! 511 = 0xaa) then ret part_nr
               else parse_partitions (read_partition_table n b) b sector primary
                      (map (get_entry pt) [0..<4]) part_nr)))"

definition partition_scan :: "nat \<Rightarrow> nat \<Rightarrow> ('a kern_scheme, nat) op" where
  "partition_scan n b = read_partition_table n b 0 0 0"


subsection \<open>Where a sector of a device is kept\<close>

definition wf_blocks :: "block list \<Rightarrow> bool" where
  "wf_blocks bl \<longleftrightarrow> (\<forall>b < length bl. bsize (bl ! b) < 2 ^ 32 \<and>
     (case ops_aux (bl ! b) of Drive f \<Rightarrow> \<forall>i. length (f i) = BLOCK_SECTOR_SIZE
      | Partition p start \<Rightarrow> p < b \<and> start + bsize (bl ! b) \<le> bsize (bl ! p) \<and> btype (bl ! p) \<noteq> BLOCK_FOREIGN))"

function locate :: "block list \<Rightarrow> nat \<Rightarrow> nat \<Rightarrow> nat \<times> nat" where
  "locate bl b i = (case ops_aux (bl ! b) of Drive f \<Rightarrow> (b, i)
     | Partition p start \<Rightarrow> if p < b then locate bl p (start + i) else (b, i))"
  by pat_completeness auto
termination by (relation "measure (\<lambda>(bl, b, i). b)") auto

declare locate.simps [simp del]

definition cell :: "block list \<Rightarrow> nat \<times> nat \<Rightarrow> sector" where
  "cell bl c = (case ops_aux (bl ! fst c) of Drive f \<Rightarrow> f (snd c) | Partition _ _ \<Rightarrow> [])"

definition dsector :: "block list \<Rightarrow> nat \<Rightarrow> nat \<Rightarrow> sector" where
  "dsector bl b i = cell bl (locate bl b i)"

text \<open>\<open>quiet\<close>: nothing but the access counters differs. \<open>written\<close>: one sector of one drive has
  changed.\<close>

definition quiet :: "block list \<Rightarrow> block list \<Rightarrow> bool" where
  "quiet bl bl' \<longleftrightarrow> length bl' = length bl \<and> (\<forall>b < length bl. bname (bl' ! b) = bname (bl ! b) \<and>
     btype (bl' ! b) = btype (bl ! b) \<and> bsize (bl' ! b) = bsize (bl ! b) \<and> ops_aux (bl' ! b) = ops_aux (bl ! b))"

definition written :: "block list \<Rightarrow> nat \<times> nat \<Rightarrow> sector \<Rightarrow> block list \<Rightarrow> bool" where
  "written bl c buf bl' \<longleftrightarrow> (\<exists>f. fst c < length bl \<and> ops_aux (bl ! fst c) = Drive f \<and>
     quiet (bl[fst c := (bl ! fst c)\<lparr>ops_aux := Drive (f(snd c := buf))\<rparr>]) bl')"

lemma wf_blocksD:
  assumes "wf_blocks bl" and "b < length bl"
  shows "bsize (bl ! b) < 2 ^ 32"
    and "ops_aux (bl ! b) = Drive f \<Longrightarrow> length (f i) = BLOCK_SECTOR_SIZE"
    and "ops_aux (bl ! b) = Partition p start \<Longrightarrow> p < b"
    and "ops_aux (bl ! b) = Partition p start \<Longrightarrow> start + bsize (bl ! b) \<le> bsize (bl ! p)"
    and "ops_aux (bl ! b) = Partition p start \<Longrightarrow> btype (bl ! p) \<noteq> BLOCK_FOREIGN"
  using assms by (auto simp: wf_blocks_def)

lemma quiet_refl [simp]: "quiet bl bl"
  by (simp add: quiet_def)

lemma quiet_trans: "quiet a b \<Longrightarrow> quiet b c \<Longrightarrow> quiet a c"
  by (simp add: quiet_def)

lemma quiet_count:
  "quiet bl bl' \<Longrightarrow> b < length bl \<Longrightarrow> ops_aux k = ops_aux (bl' ! b) \<Longrightarrow> bname k = bname (bl' ! b) \<Longrightarrow>
    btype k = btype (bl' ! b) \<Longrightarrow> bsize k = bsize (bl' ! b) \<Longrightarrow> quiet bl (bl'[b := k])"
  by (auto simp: quiet_def nth_list_update)

lemma quiet_sym: "quiet bl bl' \<Longrightarrow> quiet bl' bl"
  by (simp add: quiet_def)

lemma quiet_nth:
  "quiet bl bl' \<Longrightarrow> b < length bl \<Longrightarrow> btype (bl' ! b) = btype (bl ! b) \<and> bsize (bl' ! b) = bsize (bl ! b) \<and>
    ops_aux (bl' ! b) = ops_aux (bl ! b)"
  by (simp add: quiet_def)

lemma wf_blocksI:
  assumes "\<And>b. b < length bl \<Longrightarrow> bsize (bl ! b) < 2 ^ 32"
    and "\<And>b f i. b < length bl \<Longrightarrow> ops_aux (bl ! b) = Drive f \<Longrightarrow> length (f i) = BLOCK_SECTOR_SIZE"
    and "\<And>b p start. b < length bl \<Longrightarrow> ops_aux (bl ! b) = Partition p start \<Longrightarrow>
      p < b \<and> start + bsize (bl ! b) \<le> bsize (bl ! p) \<and> btype (bl ! p) \<noteq> BLOCK_FOREIGN"
  shows "wf_blocks bl"
  using assms unfolding wf_blocks_def by (auto split: driver.split)

lemma quiet_wf_imp: "quiet bl bl' \<Longrightarrow> wf_blocks bl \<Longrightarrow> wf_blocks bl'"
proof (rule wf_blocksI)
  fix b p start
  assume q: "quiet bl bl'" and w: "wf_blocks bl" and b: "b < length bl'" and a: "ops_aux (bl' ! b) = Partition p start"
  have b': "b < length bl" using q b by (simp add: quiet_def)
  have a': "ops_aux (bl ! b) = Partition p start" using quiet_nth [OF q b'] a by simp
  note d = wf_blocksD(3-5) [OF w b' a']
  then have "p < length bl" using b' by simp
  with d quiet_nth [OF q b'] quiet_nth [OF q this]
  show "p < b \<and> start + bsize (bl' ! b) \<le> bsize (bl' ! p) \<and> btype (bl' ! p) \<noteq> BLOCK_FOREIGN"
    by simp
qed (auto simp: quiet_def wf_blocksD(1) [simplified] wf_blocksD(2))

lemma quiet_wf: "quiet bl bl' \<Longrightarrow> wf_blocks bl' = wf_blocks bl"
  using quiet_wf_imp quiet_sym by blast

lemma quiet_locate: "quiet bl bl' \<Longrightarrow> b < length bl \<Longrightarrow> locate bl' b i = locate bl b i"
proof (induction bl b i rule: locate.induct)
  case (1 bl b i)
  then show ?case
    by (subst (1 2) locate.simps) (auto simp: quiet_def split: driver.split)
qed

lemma locate_drive:
  assumes "wf_blocks bl" and "b < length bl"
  shows "\<exists>f. fst (locate bl b i) < length bl \<and> ops_aux (bl ! fst (locate bl b i)) = Drive f"
  using assms
proof (induction bl b i rule: locate.induct)
  case (1 bl b i)
  show ?case
  proof (cases "ops_aux (bl ! b)")
    case (Drive f)
    with 1 show ?thesis by (simp add: locate.simps [of bl b i])
  next
    case (Partition p start)
    have "p < b" using wf_blocksD(3) [OF 1(2,3) Partition] .
    with 1 Partition show ?thesis by (simp add: locate.simps [of bl b i])
  qed
qed

lemma quiet_dsector: "quiet bl bl' \<Longrightarrow> wf_blocks bl \<Longrightarrow> b < length bl \<Longrightarrow> dsector bl' b i = dsector bl b i"
  using locate_drive [of bl b i] by (auto simp: dsector_def cell_def quiet_locate quiet_def)

lemma locate_inj: "locate bl b i = locate bl b j \<longleftrightarrow> i = j"
proof (induction bl b i arbitrary: j rule: locate.induct)
  case (1 bl b i)
  show ?case
    using 1 by (subst (1 2) locate.simps) (auto split: driver.split)
qed

lemma length_dsector: "wf_blocks bl \<Longrightarrow> b < length bl \<Longrightarrow> length (dsector bl b i) = BLOCK_SECTOR_SIZE"
  using locate_drive [of bl b i] wf_blocksD(2) by (fastforce simp: dsector_def cell_def)

text \<open>Writing one sector of a drive moves no other sector.\<close>

lemma update_drive_locate:
  assumes "ops_aux (bl ! r) = Drive f"
  shows "locate (bl[r := (bl ! r)\<lparr>ops_aux := Drive g\<rparr>]) b i = locate bl b i"
  using assms
proof (induction bl b i rule: locate.induct)
  case (1 bl b i)
  show ?case
  proof (cases "r < length bl \<and> b = r")
    case True
    with 1(2) show ?thesis by (subst (1 2) locate.simps) simp
  next
    case False
    then have "bl[r := (bl ! r)\<lparr>ops_aux := Drive g\<rparr>] ! b = bl ! b"
      by (metis list_update_beyond not_le nth_list_update_neq)
    with 1 show ?thesis by (subst (1 2) locate.simps) (auto split: driver.split)
  qed
qed

lemma written_locate:
  "written bl c buf bl' \<Longrightarrow> b < length bl \<Longrightarrow> locate bl' b i = locate bl b i"
  unfolding written_def by (metis length_list_update quiet_locate update_drive_locate)

lemma written_same:
  assumes "written bl c buf bl'"
  shows "length bl' = length bl" and "b < length bl \<Longrightarrow> bsize (bl' ! b) = bsize (bl ! b)"
    and "b < length bl \<Longrightarrow> btype (bl' ! b) = btype (bl ! b)"
    and "b < length bl \<Longrightarrow> bname (bl' ! b) = bname (bl ! b)"
  using assms by (auto simp: written_def quiet_def nth_list_update)

lemma upd_aux_same:
  shows "btype (bl[r := (bl ! r)\<lparr>ops_aux := d\<rparr>] ! k) = btype (bl ! k)"
    and "bsize (bl[r := (bl ! r)\<lparr>ops_aux := d\<rparr>] ! k) = bsize (bl ! k)"
  by (cases "r < length bl"; auto simp: nth_list_update list_update_beyond not_less)+

lemma written_wf:
  assumes "written bl c buf bl'" "wf_blocks bl" "length buf = BLOCK_SECTOR_SIZE"
  shows "wf_blocks bl'"
proof -
  obtain f where f: "fst c < length bl" "ops_aux (bl ! fst c) = Drive f"
    and q: "quiet (bl[fst c := (bl ! fst c)\<lparr>ops_aux := Drive (f(snd c := buf))\<rparr>]) bl'" (is "quiet ?u bl'")
    using assms(1) unfolding written_def by blast
  have same: "btype (?u ! k) = btype (bl ! k)" "bsize (?u ! k) = bsize (bl ! k)" for k
    by (simp_all add: upd_aux_same)
  have "wf_blocks ?u"
  proof (rule wf_blocksI)
    fix b p start
    assume b: "b < length ?u" and a: "ops_aux (?u ! b) = Partition p start"
    then have "b \<noteq> fst c" by (auto simp: nth_list_update split: if_splits)
    with a have a': "ops_aux (bl ! b) = Partition p start" by simp
    have b': "b < length bl" using b by simp
    from wf_blocksD(3-5) [OF assms(2) b' a'] same
    show "p < b \<and> start + bsize (?u ! b) \<le> bsize (?u ! p) \<and> btype (?u ! p) \<noteq> BLOCK_FOREIGN" by simp
  next
    fix b g i
    assume b: "b < length ?u" and a: "ops_aux (?u ! b) = Drive g"
    show "length (g i) = BLOCK_SECTOR_SIZE"
    proof (cases "b = fst c")
      case True
      then have "g = f(snd c := buf)" using a f(1) by simp
      then show ?thesis using assms(3) wf_blocksD(2) [OF assms(2) f, of i] by simp
    next
      case False
      then have "b < length bl" "ops_aux (bl ! b) = Drive g" using a b by simp_all
      then show ?thesis by (rule wf_blocksD(2) [OF assms(2)])
    qed
  qed (simp add: same wf_blocksD(1) [OF assms(2), simplified])
  with quiet_wf [OF q] show ?thesis by simp
qed

lemma written_dsector:
  assumes "written bl c buf bl'" "wf_blocks bl" "b < length bl"
  shows "dsector bl' b i = (if locate bl b i = c then buf else dsector bl b i)"
proof -
  obtain f where f: "fst c < length bl" "ops_aux (bl ! fst c) = Drive f"
    and q: "quiet (bl[fst c := (bl ! fst c)\<lparr>ops_aux := Drive (f(snd c := buf))\<rparr>]) bl'" (is "quiet ?u bl'")
    using assms(1) unfolding written_def by blast
  obtain g where g: "fst (locate bl b i) < length bl" "ops_aux (bl ! fst (locate bl b i)) = Drive g"
    using locate_drive [OF assms(2,3)] by blast
  have "cell bl' (locate bl b i) = cell ?u (locate bl b i)"
    using q g(1) by (auto simp: cell_def quiet_def split: driver.split)
  also have "\<dots> = (if locate bl b i = c then buf else cell bl (locate bl b i))"
    using f g by (cases c; cases "locate bl b i") (auto simp: cell_def nth_list_update)
  finally show ?thesis
    using written_locate [OF assms(1,3)] by (simp add: dsector_def)
qed


subsection \<open>Reading and writing\<close>

lemma block_read_n_ok:
  assumes "wf_blocks (all_blocks s)" "b < length (all_blocks s)" "i < bsize (all_blocks s ! b)" "b < n"
  shows "\<exists>bl. block_read_n n b i s = (Inr (dsector (all_blocks s) b i), s\<lparr>all_blocks := bl\<rparr>) \<and> quiet (all_blocks s) bl"
  using assms
proof (induction n arbitrary: b i)
  case 0
  then show ?case by simp
next
  case (Suc n)
  note w = Suc.prems(1,2)
  have c: "check_sector b i s = (Inr (), s)"
    using Suc.prems(3) by (simp add: check_sector_def block_size_def bnd_apply)
  show ?case
  proof (cases "ops_aux (all_blocks s ! b)")
    case (Drive f)
    then have "dsector (all_blocks s) b i = f i"
      by (simp add: dsector_def cell_def locate.simps [of _ b i])
    with c Drive w(2) show ?thesis
      by (auto simp: bnd_apply upd_block_def intro!: exI quiet_count)
  next
    case (Partition p start)
    note p = wf_blocksD(3-5) [OF w Partition]
    have small: "start + i < 2 ^ 32"
      using p(1,2) Suc.prems(3) wf_blocksD(1) [OF w(1), of p] w(2) by linarith
    have "\<exists>bl. block_read_n n p (start + i) s = (Inr (dsector (all_blocks s) p (start + i)), s\<lparr>all_blocks := bl\<rparr>) \<and> quiet (all_blocks s) bl"
      using Suc.IH [of p "start + i"] p Suc.prems by simp
    then obtain bl where bl: "block_read_n n p (start + i) s = (Inr (dsector (all_blocks s) p (start + i)), s\<lparr>all_blocks := bl\<rparr>)"
      and q: "quiet (all_blocks s) bl" by blast
    have d: "dsector (all_blocks s) b i = dsector (all_blocks s) p (start + i)"
      using Partition p(1) by (simp add: dsector_def locate.simps [of _ b i])
    show ?thesis
      using c Partition bl small d q w(2)
      by (auto simp: bnd_apply partition_read_def upd_block_def intro!: exI quiet_count)
  qed
qed

lemma block_write_n_ok:
  assumes "wf_blocks (all_blocks s)" "b < length (all_blocks s)" "i < bsize (all_blocks s ! b)" "b < n"
    and "btype (all_blocks s ! b) \<noteq> BLOCK_FOREIGN"
  shows "\<exists>bl. block_write_n n b i buf s = (Inr (), s\<lparr>all_blocks := bl\<rparr>) \<and> written (all_blocks s) (locate (all_blocks s) b i) buf bl"
  using assms
proof (induction n arbitrary: b i)
  case 0
  then show ?case by simp
next
  case (Suc n)
  note w = Suc.prems(1,2)
  have c: "check_sector b i s = (Inr (), s)"
    using Suc.prems(3) by (simp add: check_sector_def block_size_def bnd_apply)
  show ?case
  proof (cases "ops_aux (all_blocks s ! b)")
    case (Drive f)
    then have "locate (all_blocks s) b i = (b, i)" by (simp add: locate.simps [of _ b i])
    with c Drive w(2) Suc.prems(5) show ?thesis
      by (auto simp: bnd_apply upd_block_def written_def quiet_def nth_list_update)
  next
    case (Partition p start)
    note p = wf_blocksD(3-5) [OF w Partition]
    have small: "start + i < 2 ^ 32"
      using p(1,2) Suc.prems(3) wf_blocksD(1) [OF w(1), of p] w(2) by linarith
    have "\<exists>bl. block_write_n n p (start + i) buf s = (Inr (), s\<lparr>all_blocks := bl\<rparr>) \<and> written (all_blocks s) (locate (all_blocks s) p (start + i)) buf bl"
      using Suc.IH [of p "start + i"] p Suc.prems by simp
    then obtain bl where bl: "block_write_n n p (start + i) buf s = (Inr (), s\<lparr>all_blocks := bl\<rparr>)"
      and wr: "written (all_blocks s) (locate (all_blocks s) p (start + i)) buf bl" by blast
    have l: "locate (all_blocks s) b i = locate (all_blocks s) p (start + i)"
      using Partition p(1) by (simp add: locate.simps [of _ b i])
    have "written (all_blocks s) (locate (all_blocks s) b i) buf (bl[b := (bl ! b)\<lparr>write_cnt := write_cnt (bl ! b) + 1\<rparr>])"
      using wr w(2) unfolding l written_def by (auto intro!: quiet_count)
    then show ?thesis
      using c Partition bl small Suc.prems(5)
      by (auto simp: bnd_apply partition_write_def upd_block_def)
  qed
qed

lemma block_past_end:
  assumes "b < length (all_blocks s)" "block_size b s \<le> i"
  shows "block_read b i s = (Inl Panic, s)" and "block_write b i buf s = (Inl Panic, s)"
proof -
  obtain n where n: "length (all_blocks s) = Suc n" using assms(1) by (cases "length (all_blocks s)") auto
  have c: "check_sector b i s = (Inl Panic, s)" using assms(2) by (simp add: check_sector_def bnd_apply)
  then show "block_read b i s = (Inl Panic, s)" "block_write b i buf s = (Inl Panic, s)"
    by (simp_all add: block_read_def block_write_def n)
qed

text \<open>
  The contract of a device with numbered sectors: reads return the sector and change nothing
  that can be read, writes replace one sector, and both panic past the end. \<open>keeps s t\<close> says
  that \<open>t\<close> differs from \<open>s\<close> only in what belongs to the device layer.
\<close>

locale sector_device =
  fixes ok :: "'s \<Rightarrow> bool"
    and nsec :: "'s \<Rightarrow> nat"
    and sect :: "'s \<Rightarrow> nat \<Rightarrow> sector"
    and rd :: "nat \<Rightarrow> ('s, sector) op"
    and wr :: "nat \<Rightarrow> sector \<Rightarrow> ('s, unit) op"
    and keeps :: "'s \<Rightarrow> 's \<Rightarrow> bool"
  assumes keeps_refl: "ok s \<Longrightarrow> keeps s s"
    and keeps_trans: "keeps s t \<Longrightarrow> keeps t u \<Longrightarrow> keeps s u"
    and sect_length: "ok s \<Longrightarrow> length (sect s i) = BLOCK_SECTOR_SIZE"
    and rd_law: "ok s \<Longrightarrow> i < nsec s \<Longrightarrow>
      \<exists>t. rd i s = (Inr (sect s i), t) \<and> keeps s t \<and> ok t \<and> nsec t = nsec s \<and> sect t = sect s"
    and wr_law: "ok s \<Longrightarrow> i < nsec s \<Longrightarrow> length buf = BLOCK_SECTOR_SIZE \<Longrightarrow>
      \<exists>t. wr i buf s = (Inr (), t) \<and> keeps s t \<and> ok t \<and> nsec t = nsec s \<and> sect t = (sect s)(i := buf)"
    and past_end: "ok s \<Longrightarrow> nsec s \<le> i \<Longrightarrow> rd i s = (Inl Panic, s) \<and> wr i buf s = (Inl Panic, s)"
begin

lemma write_run:
  assumes "ok s" "a + (k + n) \<le> nsec s" "\<And>i. k \<le> i \<Longrightarrow> i < k + n \<Longrightarrow> length (d i) = BLOCK_SECTOR_SIZE"
  shows "\<exists>t. for_op k n (\<lambda>i. wr (a + i) (d i)) s = (Inr (), t) \<and> keeps s t \<and> ok t \<and> nsec t = nsec s \<and>
    sect t = (\<lambda>j. if a + k \<le> j \<and> j < a + k + n then d (j - a) else sect s j)"
  using assms
proof (induction n arbitrary: k s)
  case 0
  then show ?case by (auto simp: keeps_refl fun_eq_iff)
next
  case (Suc n)
  obtain t where t: "wr (a + k) (d k) s = (Inr (), t)" "keeps s t" "ok t" "nsec t = nsec s"
      "sect t = (sect s)(a + k := d k)"
    using wr_law [of s "a + k" "d k"] Suc.prems by auto
  obtain u where u: "for_op (Suc k) n (\<lambda>i. wr (a + i) (d i)) t = (Inr (), u)" "keeps t u" "ok u" "nsec u = nsec t"
      "sect u = (\<lambda>j. if a + Suc k \<le> j \<and> j < a + Suc k + n then d (j - a) else sect t j)"
    using Suc.IH [of t "Suc k"] Suc.prems t(3,4) by auto
  have "sect u = (\<lambda>j. if a + k \<le> j \<and> j < a + k + Suc n then d (j - a) else sect s j)"
    unfolding u(5) t(5) by (auto simp: fun_eq_iff)
  with t(1,2) u(1-4) t(4) show ?case
    using keeps_trans by (auto simp: bnd_apply)
qed

lemma write_then_read:
  assumes "ok s" "i < nsec s" "length buf = BLOCK_SECTOR_SIZE"
  shows "\<exists>t. wr i buf s = (Inr (), t) \<and> (\<exists>u. rd i t = (Inr buf, u))"
proof -
  obtain t where t: "wr i buf s = (Inr (), t)" "ok t" "nsec t = nsec s" "sect t = (sect s)(i := buf)"
    using wr_law [OF assms] by blast
  then obtain u where "rd i t = (Inr (sect t i), u)" using rd_law [of t i] assms(2) by auto
  with t show ?thesis by auto
qed

end

definition dev_ok :: "nat \<Rightarrow> 'a kern_scheme \<Rightarrow> bool" where
  "dev_ok b s \<longleftrightarrow> wf_blocks (all_blocks s) \<and> b < length (all_blocks s) \<and> btype (all_blocks s ! b) \<noteq> BLOCK_FOREIGN"

definition dev_keeps :: "'a kern_scheme \<Rightarrow> 'a kern_scheme \<Rightarrow> bool" where
  "dev_keeps s t \<longleftrightarrow> t = s\<lparr>all_blocks := all_blocks t\<rparr>"

lemma dev_keepsI [intro]: "dev_keeps s (s\<lparr>all_blocks := bl\<rparr>)"
  by (simp add: dev_keeps_def)

lemma dev_read:
  assumes "dev_ok b s" "i < block_size b s"
  shows "\<exists>t. block_read b i s = (Inr (dsector (all_blocks s) b i), t) \<and> dev_keeps s t \<and> dev_ok b t \<and>
    block_size b t = block_size b s \<and> dsector (all_blocks t) b = dsector (all_blocks s) b"
proof -
  from assms have a: "wf_blocks (all_blocks s)" "b < length (all_blocks s)" "i < bsize (all_blocks s ! b)"
    by (auto simp: dev_ok_def block_size_def)
  obtain bl where "block_read b i s = (Inr (dsector (all_blocks s) b i), s\<lparr>all_blocks := bl\<rparr>)"
    and q: "quiet (all_blocks s) bl"
    using block_read_n_ok [OF a a(2)] by (auto simp: block_read_def)
  moreover have "dev_ok b (s\<lparr>all_blocks := bl\<rparr>)"
    using assms(1) quiet_wf [OF q] quiet_nth [OF q] q by (auto simp: dev_ok_def quiet_def)
  ultimately show ?thesis
    using q a quiet_dsector [OF q a(1,2)] quiet_nth [OF q a(2)] by (auto simp: block_size_def fun_eq_iff)
qed

lemma dev_write:
  assumes "dev_ok b s" "i < block_size b s" "length buf = BLOCK_SECTOR_SIZE"
  shows "\<exists>t. block_write b i buf s = (Inr (), t) \<and> dev_keeps s t \<and> dev_ok b t \<and>
    block_size b t = block_size b s \<and> dsector (all_blocks t) b = (dsector (all_blocks s) b)(i := buf)"
proof -
  from assms have a: "wf_blocks (all_blocks s)" "b < length (all_blocks s)" "i < bsize (all_blocks s ! b)"
      "btype (all_blocks s ! b) \<noteq> BLOCK_FOREIGN"
    by (auto simp: dev_ok_def block_size_def)
  obtain bl where "block_write b i buf s = (Inr (), s\<lparr>all_blocks := bl\<rparr>)"
    and w: "written (all_blocks s) (locate (all_blocks s) b i) buf bl"
    using block_write_n_ok [OF a(1-3) a(2,4)] by (auto simp: block_write_def)
  moreover have "dev_ok b (s\<lparr>all_blocks := bl\<rparr>)"
    using a written_wf [OF w a(1) assms(3)] written_same [OF w] by (auto simp: dev_ok_def)
  moreover have "dsector bl b = (dsector (all_blocks s) b)(i := buf)"
    using written_dsector [OF w a(1,2)] by (auto simp: fun_eq_iff locate_inj)
  ultimately show ?thesis
    using a written_same [OF w] by (auto simp: block_size_def)
qed

interpretation dev: sector_device "dev_ok b" "block_size b" "\<lambda>s. dsector (all_blocks s) b"
    "block_read b" "block_write b" dev_keeps for b
proof unfold_locales
  fix s t u :: "'a kern_scheme"
  assume "dev_keeps s t" "dev_keeps t u"
  then have "t = s\<lparr>all_blocks := all_blocks t\<rparr>" "u = t\<lparr>all_blocks := all_blocks u\<rparr>"
    by (simp_all only: dev_keeps_def)
  then have "u = s\<lparr>all_blocks := all_blocks t\<rparr>\<lparr>all_blocks := all_blocks u\<rparr>" by metis
  then show "dev_keeps s u" by (simp add: dev_keeps_def)
qed (simp add: dev_keeps_def, simp add: dev_ok_def length_dsector, rule dev_read, assumption+, rule dev_write,
    assumption+, simp add: dev_ok_def block_past_end)


subsection \<open>Partitions stay inside their device\<close>

text \<open>\<open>grown bl bl'\<close>: devices may have been added after those of \<open>bl\<close>, which are as they were.\<close>

definition grown :: "block list \<Rightarrow> block list \<Rightarrow> bool" where
  "grown bl bl' \<longleftrightarrow> length bl \<le> length bl' \<and> quiet bl (take (length bl) bl')"

lemma grown_refl [simp]: "grown bl bl"
  by (simp add: grown_def)

lemma grown_trans: "grown a b \<Longrightarrow> grown b c \<Longrightarrow> grown a c"
  by (auto simp: grown_def quiet_def)

lemma quiet_grown: "quiet bl bl' \<Longrightarrow> grown bl bl'"
  by (auto simp: grown_def quiet_def)

lemma grown_nth:
  "grown bl bl' \<Longrightarrow> b < length bl \<Longrightarrow>
    b < length bl' \<and> btype (bl' ! b) = btype (bl ! b) \<and> bsize (bl' ! b) = bsize (bl ! b)"
  by (auto simp: grown_def quiet_def)

lemma wf_append_partition:
  assumes "wf_blocks bl" "p < length bl" "btype (bl ! p) \<noteq> BLOCK_FOREIGN" "start + bsize k \<le> bsize (bl ! p)"
    and "ops_aux k = Partition p start"
  shows "wf_blocks (bl @ [k])" and "grown bl (bl @ [k])"
proof -
  have lt: "bsize k < 2 ^ 32" using wf_blocksD(1) [OF assms(1,2)] assms(4) by linarith
  show "wf_blocks (bl @ [k])"
  proof (rule wf_blocksI)
    fix b q st
    assume b: "b < length (bl @ [k])" and a: "ops_aux ((bl @ [k]) ! b) = Partition q st"
    show "q < b \<and> st + bsize ((bl @ [k]) ! b) \<le> bsize ((bl @ [k]) ! q) \<and> btype ((bl @ [k]) ! q) \<noteq> BLOCK_FOREIGN"
    proof (cases "b < length bl")
      case True
      with a have "ops_aux (bl ! b) = Partition q st" by (simp add: nth_append)
      from wf_blocksD(3-5) [OF assms(1) True this] True show ?thesis by (simp add: nth_append)
    next
      case False
      with a b assms show ?thesis by (simp add: nth_append less_Suc_eq)
    qed
  next
    fix b f i
    assume b: "b < length (bl @ [k])" and a: "ops_aux ((bl @ [k]) ! b) = Drive f"
    show "length (f i) = BLOCK_SECTOR_SIZE"
    proof (cases "b < length bl")
      case True
      with a have "ops_aux (bl ! b) = Drive f" by (simp add: nth_append)
      then show ?thesis by (rule wf_blocksD(2) [OF assms(1) True])
    next
      case False
      with a b assms(5) show ?thesis by (simp add: nth_append less_Suc_eq)
    qed
  next
    fix b
    assume "b < length (bl @ [k])"
    then show "bsize ((bl @ [k]) ! b) < 2 ^ 32"
      using lt wf_blocksD(1) [OF assms(1)] by (auto simp: nth_append less_Suc_eq)
  qed
  show "grown bl (bl @ [k])" by (simp add: grown_def)
qed

definition parts_inv :: "block list \<Rightarrow> 'a kern_scheme \<Rightarrow> bool" where
  "parts_inv bl t \<longleftrightarrow> wf_blocks (all_blocks t) \<and> grown bl (all_blocks t)"

lemma found_partition_inv:
  assumes "parts_inv bl s" "b < length bl" "btype (bl ! b) \<noteq> BLOCK_FOREIGN"
    and "start < 2 ^ 32" "sectors < 2 ^ 32" "found_partition b ty start sectors nr s = (r, t)"
  shows "parts_inv bl t"
proof -
  have g: "b < length (all_blocks s)" "btype (all_blocks s ! b) \<noteq> BLOCK_FOREIGN"
    and w: "wf_blocks (all_blocks s)" and gr: "grown bl (all_blocks s)"
    using assms(1-3) grown_nth [of bl "all_blocks s" b] by (auto simp: parts_inv_def)
  have fits: "start + sectors \<le> block_size b s" if "\<not> sz (start + sectors) < start" "\<not> block_size b s < sz (start + sectors)"
  proof (cases "start + sectors < 2 ^ 32")
    case True
    with that show ?thesis by simp
  next
    case False
    then have "sz (start + sectors) = start + sectors - 2 ^ 32"
      using assms(4,5) by (simp add: sz_def le_mod_geq)
    then show ?thesis using that(1) False assms(5) by linarith
  qed
  let ?k = "\<lambda>nm. \<lparr>bname = nm, btype = partition_role ty, bsize = sectors, ops_aux = Partition b start,
    read_cnt = 0, write_cnt = 0\<rparr>"
  have "(\<exists>n. t = s\<lparr>malloc_cnt := n\<rparr>) \<or>
    (start + sectors \<le> block_size b s \<and> (\<exists>n nm. t = s\<lparr>malloc_cnt := n, all_blocks := all_blocks s @ [?k nm]\<rparr>))"
  proof (cases "block_size b s \<le> start \<or> sz (start + sectors) < start \<or> block_size b s < sz (start + sectors)")
    case True
    then have "t = s" using assms(6) by (auto simp: found_partition_def bnd_apply split: if_splits)
    then have "t = s\<lparr>malloc_cnt := malloc_cnt s\<rparr>" by simp
    then show ?thesis by blast
  next
    case False
    then have "start + sectors \<le> block_size b s" using fits by simp
    with False assms(6) show ?thesis
      by (cases "malloc_ok s (malloc_cnt s)"; cases "malloc_ok s (Suc (malloc_cnt s))")
        (auto simp: found_partition_def block_register_def kmalloc_def bnd_apply)
  qed
  then show ?thesis
  proof
    assume "\<exists>n. t = s\<lparr>malloc_cnt := n\<rparr>"
    with assms(1) show ?thesis by (auto simp: parts_inv_def)
  next
    assume "start + sectors \<le> block_size b s \<and> (\<exists>n nm. t = s\<lparr>malloc_cnt := n, all_blocks := all_blocks s @ [?k nm]\<rparr>)"
    then obtain n nm where t: "t = s\<lparr>malloc_cnt := n, all_blocks := all_blocks s @ [?k nm]\<rparr>"
      and f: "start + bsize (?k nm) \<le> bsize (all_blocks s ! b)" by (auto simp: block_size_def)
    have "wf_blocks (all_blocks s @ [?k nm])" "grown (all_blocks s) (all_blocks s @ [?k nm])"
      by (rule wf_append_partition [OF w g f]; simp)+
    then show ?thesis using grown_trans [OF gr] by (simp add: parts_inv_def t)
  qed
qed

lemma parse_partitions_inv:
  assumes rec: "\<And>x y z u v q. parts_inv bl u \<Longrightarrow> rec x y z u = (q, v) \<Longrightarrow> parts_inv bl v"
    and "b < length bl" "btype (bl ! b) \<noteq> BLOCK_FOREIGN" "\<forall>e \<in> set es. pt_size e < 2 ^ 32"
    and "parts_inv bl s" "parse_partitions rec b sector primary es nr s = (r, t)"
  shows "parts_inv bl t"
  using assms(4-)
proof (induction es arbitrary: nr s)
  case Nil
  then show ?case by simp
next
  case (Cons e es)
  let ?m = "if pt_size e = 0 \<or> pt_type e = 0 then ret nr
          else if is_extended (pt_type e) then
            (if sector = 0 then rec (pt_offset e) (pt_offset e) nr
             else rec (sz (pt_offset e + primary)) primary nr)
          else bnd (found_partition b (pt_type e) (sz (pt_offset e + sector)) (pt_size e) (Suc nr))
                 (\<lambda>_. ret (Suc nr))"
  obtain q u where m: "?m s = (q, u)" by (cases "?m s")
  have "parts_inv bl u"
  proof (cases "pt_size e = 0 \<or> pt_type e = 0 \<or> is_extended (pt_type e)")
    case True
    with m Cons.prems(2) rec show ?thesis by (auto split: if_splits)
  next
    case False
    obtain q' u' where f: "found_partition b (pt_type e) (sz (pt_offset e + sector)) (pt_size e) (Suc nr) s = (q', u')"
      by (cases "found_partition b (pt_type e) (sz (pt_offset e + sector)) (pt_size e) (Suc nr) s")
    then have "u = u'" using m False by (auto simp: bnd_apply split: sum.splits)
    with found_partition_inv [OF Cons.prems(2) assms(2,3) sz_less _ f] Cons.prems(1) show ?thesis by simp
  qed
  with Cons m show ?case by (cases q) (auto simp: bnd_apply)
qed

lemma read_partition_table_inv:
  fixes s t :: "'a kern_scheme"
  assumes "b < length bl" "btype (bl ! b) \<noteq> BLOCK_FOREIGN" "parts_inv bl s"
    and "read_partition_table n b sector primary nr s = (r, t)"
  shows "parts_inv bl t"
  using assms(3-)
proof (induction n arbitrary: sector primary nr s r t)
  case 0
  then show ?case by simp
next
  case (Suc n)
  let ?u = "s\<lparr>malloc_cnt := Suc (malloc_cnt s)\<rparr>"
  have inv: "parts_inv bl ?u" using Suc.prems(1) by (simp add: parts_inv_def)
  show ?case
  proof (cases "block_size b s \<le> sector \<or> \<not> malloc_ok s (malloc_cnt s)")
    case True
    with Suc.prems inv show ?thesis by (auto simp: kmalloc_def bnd_apply split: if_splits)
  next
    case False
    have "dev_ok b ?u" "0 < block_size b ?u"
      using inv False assms(1,2) grown_nth [of bl "all_blocks s" b] by (auto simp: parts_inv_def dev_ok_def block_size_def)
    from dev.rd_law [OF this] obtain v where v: "block_read b 0 ?u = (Inr (dsector (all_blocks ?u) b 0), v)"
      and ok: "dev_ok b v" and k: "dev_keeps ?u v" by blast
    have q: "quiet (all_blocks ?u) (all_blocks v)"
      using block_read_n_ok [of ?u b 0 "length (all_blocks s)"] \<open>dev_ok b ?u\<close> \<open>0 < block_size b ?u\<close> v
      by (auto simp: dev_ok_def block_size_def block_read_def)
    then have vi: "parts_inv bl v"
      using inv ok quiet_grown [OF q] grown_trans by (auto simp: parts_inv_def dev_ok_def)
    have small: "\<forall>e \<in> set (map (get_entry pt) [0..<4]). pt_size e < 2 ^ 32" for pt
      using unsigned_less [where ?'a = nat and ?'b = 32] by (auto simp: get_entry_def Let_def)
    have IH: "parts_inv bl y" if "parts_inv bl x" "read_partition_table n b j k l x = (q, y)"
      for j k l q and x y :: "'a kern_scheme"
      using Suc.IH that by blast
    show ?thesis
    proof (cases "v = t")
      case True
      with vi show ?thesis by simp
    next
      case ne: False
      then have "parse_partitions (read_partition_table n b) b sector primary
          (map (get_entry (dsector (all_blocks ?u) b 0)) [0..<4]) nr v = (r, t)"
        using Suc.prems(2) False v by (auto simp: kmalloc_def bnd_apply simp del: parse_partitions.simps split: if_splits)
      from parse_partitions_inv [where rec = "read_partition_table n b", OF IH assms(1,2) small vi this]
      show ?thesis .
    qed
  qed
qed

text \<open>C24: Whatever the disk contains, scanning it for partitions registers only partitions that lie
  inside their device, and leaves every device that was there before as it was.\<close>

theorem partition_scan_inside:
  assumes "wf_blocks (all_blocks s)" "b < length (all_blocks s)" "btype (all_blocks s ! b) \<noteq> BLOCK_FOREIGN"
    and "partition_scan n b s = (r, t)"
  shows "wf_blocks (all_blocks t) \<and> grown (all_blocks s) (all_blocks t) \<and>
    (\<forall>k p start. k < length (all_blocks t) \<and> ops_aux (all_blocks t ! k) = Partition p start \<longrightarrow>
       start + bsize (all_blocks t ! k) \<le> bsize (all_blocks t ! p))"
proof -
  have "parts_inv (all_blocks s) s" using assms(1) by (simp add: parts_inv_def)
  from read_partition_table_inv [OF assms(2,3) this assms(4) [unfolded partition_scan_def]]
  have "parts_inv (all_blocks s) t" .
  then show ?thesis using wf_blocksD(4) by (auto simp: parts_inv_def)
qed


subsection \<open>A scan that never ends\<close>









definition ex_mbr :: "u8 \<Rightarrow> sector" where
  "ex_mbr ty = replicate 446 0 @ [0, 0, 0, 0, ty, 0, 0, 0, 10, 0, 0, 0, 8, 0, 0, 0] @ replicate 48 0 @ [0x55, 0xaa]"

definition ex_kern :: "u8 \<Rightarrow> kern" where
  "ex_kern ty = mach.extend ex_mach \<lparr>malloc_ok = \<lambda>_. True, malloc_cnt = 0, all_blocks = [\<lparr>bname = ''hda'',
     btype = BLOCK_RAW, bsize = 64, ops_aux = Drive (\<lambda>_. ex_mbr ty), read_cnt = 0, write_cnt = 0\<rparr>],
     block_by_role = \<lambda>_. None\<rparr>"

lemma ex_kern_simps [simp]:
  "malloc_ok (ex_kern ty) n" "malloc_cnt (ex_kern ty) = 0"
  "all_blocks (ex_kern ty) = [\<lparr>bname = ''hda'', btype = BLOCK_RAW, bsize = 64, ops_aux = Drive (\<lambda>_. ex_mbr ty),
     read_cnt = 0, write_cnt = 0\<rparr>]"
  by (simp_all add: ex_kern_def mach.extend_def)

lemma ex_kern_ok: "dev_ok 0 (ex_kern ty)"
  by (simp add: dev_ok_def wf_blocks_def ex_mbr_def BLOCK_SECTOR_SIZE_def)




theorem partition_scan_inside_witness:
  "wf_blocks (all_blocks (snd (partition_scan 1 0 (ex_kern 0x21)))) \<and>
    map bname (all_blocks (snd (partition_scan 1 0 (ex_kern 0x21)))) = [''hda'', ''hda1'']"
proof -
  have "wf_blocks (all_blocks (snd (partition_scan 1 0 (ex_kern 0x21))))"
    using partition_scan_inside [of "ex_kern 0x21" 0 1] ex_kern_ok [of "0x21"]
    by (auto simp: dev_ok_def prod_eq_iff)
  moreover have "map bname (all_blocks (snd (partition_scan 1 0 (ex_kern 0x21)))) = [''hda'', ''hda1'']"
    by (simp add: partition_scan_def kmalloc_def bnd_apply block_read_def check_sector_def block_size_def upd_block_def
        ex_mbr_def nth_append get_entry_def u32_at_def bytes_u32_def found_partition_def is_extended_def block_name_def
        block_register_def decimal.simps Let_def upt_rec char_of_def bit_0)
  ultimately show ?thesis by blast
qed

end
