(* ===== verification/Inode.thy ===== *)
theory Inode
  imports Block
begin

text \<open>
  Reading and writing the data of an inode: the first half of \<^verbatim>\<open>filesys/inode.c\<close>, with the state
  of the file system. Inodes and open files live at addresses; an access through the null
  pointer or to a freed object is the fault \<open>NullDeref\<close>. \<open>off_t\<close> is a signed 32-bit integer and
  is kept as an \<open>int\<close>; the positions that reach these functions are not negative. A buffer that
  a routine fills is returned as the list of the bytes it wrote there.

  The device is read as one array of bytes, \<open>dbyte\<close>. The main lemmas say that
  \<open>inode_read_at\<close> returns, and \<open>inode_write_at\<close> replaces, exactly the bytes of the file between
  the offset and the end of the request or of the file, whatever the alignment.
\<close>

definition INODE_MAGIC :: u32 where "INODE_MAGIC = 0x494e4f44"

record inode_disk =
  start :: nat
  ilength :: int
  magic :: u32

record inode =
  isector :: nat
  open_cnt :: int
  removed :: bool
  deny_write_cnt :: int
  idata :: inode_disk

record kfile =
  finode :: addr
  pos :: int
  deny_write :: bool

record fs = kern +
  fs_device :: nat
  free_map :: bitmap
  free_map_file :: addr
  open_inodes :: "addr list"
  inodes :: "addr \<Rightarrow> inode option"
  files :: "addr \<Rightarrow> kfile option"
  filesys_sema :: nat

text \<open>The on-disk form of an inode, one sector, and back.\<close>

definition enc_inode :: "inode_disk \<Rightarrow> sector" where
  "enc_inode d = u32_bytes (of_nat (start d)) @ u32_bytes (of_int (ilength d)) @ u32_bytes (magic d) @ replicate 500 0"

definition dec_inode :: "sector \<Rightarrow> inode_disk" where
  "dec_inode bs = \<lparr>start = unat (u32_at bs 0), ilength = sint (u32_at bs 4), magic = u32_at bs 8\<rparr>"

text \<open>\<open>DIV_ROUND_UP\<close> on the signed \<open>off_t\<close>: the sum wraps at 32 bits, the division truncates, and the
  result is converted to \<open>size_t\<close>.\<close>

definition bytes_to_sectors :: "int \<Rightarrow> nat" where
  "bytes_to_sectors n = (let v = signed_take_bit 31 (n + int BLOCK_SECTOR_SIZE - 1) in
     nat ((if v < 0 then - ((- v) div int BLOCK_SECTOR_SIZE) else v div int BLOCK_SECTOR_SIZE) mod 2 ^ 32))"

definition get_inode :: "addr \<Rightarrow> ('a fs_scheme, inode) op" where
  "get_inode ino = bnd (gets (\<lambda>s. inodes s ino)) (\<lambda>r. case r of None \<Rightarrow> fail NullDeref | Some i \<Rightarrow> ret i)"

definition put_inode :: "addr \<Rightarrow> inode \<Rightarrow> ('a fs_scheme, unit) op" where
  "put_inode ino i = modify (\<lambda>s. s\<lparr>inodes := (inodes s)(ino := Some i)\<rparr>)"

definition byte_to_sector :: "inode \<Rightarrow> int \<Rightarrow> nat" where
  "byte_to_sector i p = (if p < ilength (idata i)
     then sz (start (idata i) + nat (p div int BLOCK_SECTOR_SIZE)) else 2 ^ 32 - 1)"

definition inode_length :: "inode \<Rightarrow> int" where
  "inode_length i = ilength (idata i)"

definition fs_read :: "nat \<Rightarrow> ('a fs_scheme, sector) op" where
  "fs_read sector = (\<lambda>s. block_read (fs_device s) sector s)"

definition fs_write :: "nat \<Rightarrow> sector \<Rightarrow> ('a fs_scheme, unit) op" where
  "fs_write sector buf = (\<lambda>s. block_write (fs_device s) sector buf s)"

text \<open>The size of the next chunk: the least of what is asked for, what is left of the inode and
  what is left of the sector.\<close>

definition chunk_size :: "inode \<Rightarrow> int \<Rightarrow> int \<Rightarrow> int" where
  "chunk_size i size' offset =
     (let inode_left = inode_length i - offset;
          sector_left = int BLOCK_SECTOR_SIZE - offset mod int BLOCK_SECTOR_SIZE;
          min_left = (if inode_left < sector_left then inode_left else sector_left)
      in if size' < min_left then size' else min_left)"

text \<open>\<open>get_bounce\<close>: the bounce buffer is allocated the first time it is needed.\<close>

definition get_bounce :: "bool \<Rightarrow> ('a fs_scheme, bool) op" where
  "get_bounce have_it = (if have_it then ret True else bnd kmalloc (\<lambda>p. ret (p \<noteq> NULL)))"

fun read_loop :: "nat \<Rightarrow> addr \<Rightarrow> bool \<Rightarrow> int \<Rightarrow> int \<Rightarrow> u8 list \<Rightarrow> ('a fs_scheme, u8 list) op" where
  "read_loop 0 ino bounce size' offset out = (if size' \<le> 0 then ret out else fail OutOfFuel)"
| "read_loop (Suc n) ino bounce size' offset out =
     (if size' \<le> 0 then ret out else
      bnd (get_inode ino) (\<lambda>i.
      let sector_idx = byte_to_sector i offset;
          sector_ofs = offset mod int BLOCK_SECTOR_SIZE;
          chunk = chunk_size i size' offset
      in if chunk \<le> 0 then ret out
         else if sector_ofs = 0 \<and> chunk = int BLOCK_SECTOR_SIZE
         then bnd (fs_read sector_idx) (\<lambda>buf.
              read_loop n ino bounce (size' - chunk) (offset + chunk) (out @ buf))
         else bnd (get_bounce bounce) (\<lambda>got. if \<not> got then ret out else
              bnd (fs_read sector_idx) (\<lambda>buf.
              read_loop n ino True (size' - chunk) (offset + chunk)
                (out @ take (nat chunk) (drop (nat sector_ofs) buf))))))"

definition inode_read_at :: "addr \<Rightarrow> int \<Rightarrow> int \<Rightarrow> ('a fs_scheme, u8 list) op" where
  "inode_read_at ino size' offset = read_loop (nat size') ino False size' offset []"

text \<open>\<open>memcpy (bounce + ofs, src, n)\<close> on a sector.\<close>

definition splice :: "sector \<Rightarrow> nat \<Rightarrow> u8 list \<Rightarrow> sector" where
  "splice d ofs src = take ofs d @ src @ drop (ofs + length src) d"

fun write_loop :: "nat \<Rightarrow> addr \<Rightarrow> bool \<Rightarrow> u8 list \<Rightarrow> int \<Rightarrow> int \<Rightarrow> nat \<Rightarrow> ('a fs_scheme, nat) op" where
  "write_loop 0 ino bounce buffer size' offset bytes_written = (if size' \<le> 0 then ret bytes_written else fail OutOfFuel)"
| "write_loop (Suc n) ino bounce buffer size' offset bytes_written =
     (if size' \<le> 0 then ret bytes_written else
      bnd (get_inode ino) (\<lambda>i.
      let sector_idx = byte_to_sector i offset;
          sector_ofs = offset mod int BLOCK_SECTOR_SIZE;
          sector_left = int BLOCK_SECTOR_SIZE - sector_ofs;
          chunk = chunk_size i size' offset;
          src = take (nat chunk) (drop bytes_written buffer)
      in if chunk \<le> 0 then ret bytes_written
         else if sector_ofs = 0 \<and> chunk = int BLOCK_SECTOR_SIZE
         then bnd (fs_write sector_idx src) (\<lambda>_.
              write_loop n ino bounce buffer (size' - chunk) (offset + chunk) (bytes_written + nat chunk))
         else bnd (get_bounce bounce) (\<lambda>got. if \<not> got then ret bytes_written else
              bnd (if sector_ofs > 0 \<or> chunk < sector_left then fs_read sector_idx
                   else ret (replicate BLOCK_SECTOR_SIZE 0)) (\<lambda>buf.
              bnd (fs_write sector_idx (splice buf (nat sector_ofs) src)) (\<lambda>_.
              write_loop n ino True buffer (size' - chunk) (offset + chunk) (bytes_written + nat chunk))))))"

definition inode_write_at :: "addr \<Rightarrow> u8 list \<Rightarrow> int \<Rightarrow> int \<Rightarrow> ('a fs_scheme, nat) op" where
  "inode_write_at ino buffer size' offset =
     bnd (get_inode ino) (\<lambda>i. if deny_write_cnt i \<noteq> 0 then ret 0
       else write_loop (nat size') ino False buffer size' offset 0)"

subsection \<open>The inode sector\<close>

lemma length_u32_bytes [simp]: "length (u32_bytes w) = 4"
  by (simp add: u32_bytes_def)

lemma u32_at_append_left: "i + 4 \<le> length xs \<Longrightarrow> u32_at (xs @ ys) i = u32_at xs i"
  by (simp add: u32_at_def nth_append)

lemma u32_at_append_right: "length xs \<le> i \<Longrightarrow> u32_at (xs @ ys) i = u32_at ys (i - length xs)"
  by (auto simp: u32_at_def nth_append dest!: le_Suc_ex)

lemma u32_at_bytes [simp]: "u32_at (u32_bytes w) 0 = w"
  by (simp add: u32_at_def u32_bytes_def)

lemma length_enc_inode [simp]: "length (enc_inode d) = BLOCK_SECTOR_SIZE"
  by (simp add: enc_inode_def BLOCK_SECTOR_SIZE_def)

lemma dec_enc_inode:
  assumes "start d < 2 ^ 32" "- (2 ^ 31) \<le> ilength d" "ilength d < 2 ^ 31"
  shows "dec_inode (enc_inode d) = d"
proof -
  have "sint (word_of_int (ilength d) :: u32) = ilength d"
    unfolding sint_sbintrunc' using assms(2,3) by (intro signed_take_bit_int_eq_self) auto
  then show ?thesis
    using assms(1) by (cases d) (simp add: dec_inode_def enc_inode_def u32_at_append_left u32_at_append_right unat_of_nat take_bit_nat_eq_self)
qed

lemma bytes_to_sectors_small:
  assumes "0 \<le> n" "n + 511 < 2 ^ 31"
  shows "bytes_to_sectors n = nat ((n + 511) div 512)"
proof -
  have e: "int BLOCK_SECTOR_SIZE = 512" by (simp add: BLOCK_SECTOR_SIZE_def)
  have "signed_take_bit 31 (n + 511) = n + 511"
    using assms by (intro signed_take_bit_int_eq_self) auto
  then have v: "signed_take_bit 31 (n + 512 - 1) = n + 511" by (simp only: add_diff_eq [symmetric]) simp
  have "\<not> n + 511 < 0" using assms by simp
  moreover have "(n + 511) div 512 mod 2 ^ 32 = (n + 511) div 512"
    using assms by (intro mod_pos_pos_trivial) auto
  ultimately show ?thesis unfolding bytes_to_sectors_def Let_def e v by (simp only: if_False)
qed


subsection \<open>The device as an array of bytes\<close>

definition dsec :: "'a fs_scheme \<Rightarrow> nat \<Rightarrow> sector" where
  "dsec s = dsector (all_blocks s) (fs_device s)"

definition dbyte :: "'a fs_scheme \<Rightarrow> nat \<Rightarrow> u8" where
  "dbyte s x = dsec s (x div 512) ! (x mod 512)"

definition fs_ok :: "'a fs_scheme \<Rightarrow> bool" where
  "fs_ok s \<longleftrightarrow> dev_ok (fs_device s) s"

definition fs_size :: "'a fs_scheme \<Rightarrow> nat" where
  "fs_size s = block_size (fs_device s) s"

text \<open>\<open>io_keeps s t\<close>: only the device and the count of allocations differ.\<close>

definition io_keeps :: "'a fs_scheme \<Rightarrow> 'a fs_scheme \<Rightarrow> bool" where
  "io_keeps s t \<longleftrightarrow> fs_ok t \<and> fs_size t = fs_size s \<and> (\<exists>bl n. t = s\<lparr>all_blocks := bl, malloc_cnt := n\<rparr>)"

lemma io_keeps_refl: "fs_ok s \<Longrightarrow> io_keeps s s"
  unfolding io_keeps_def by (intro conjI exI [of _ "all_blocks s"] exI [of _ "malloc_cnt s"]) simp_all

lemma io_keeps_trans:
  assumes "io_keeps s t" "io_keeps t u"
  shows "io_keeps s u"
proof -
  obtain bl n bl' n' where "t = s\<lparr>all_blocks := bl, malloc_cnt := n\<rparr>" "u = t\<lparr>all_blocks := bl', malloc_cnt := n'\<rparr>"
    using assms unfolding io_keeps_def by blast
  then have "u = s\<lparr>all_blocks := bl', malloc_cnt := n'\<rparr>" by simp
  with assms show ?thesis unfolding io_keeps_def by metis
qed

lemma dev_keeps_io:
  assumes "dev_keeps s t"
  shows "fs_device t = fs_device s" "malloc_cnt t = malloc_cnt s" "\<exists>bl n. t = s\<lparr>all_blocks := bl, malloc_cnt := n\<rparr>"
proof -
  obtain bl where t: "t = s\<lparr>all_blocks := bl\<rparr>" using assms unfolding dev_keeps_def by blast
  have "t = s\<lparr>all_blocks := bl, malloc_cnt := malloc_cnt s\<rparr>" by (simp add: t)
  then show "\<exists>bl n. t = s\<lparr>all_blocks := bl, malloc_cnt := n\<rparr>" by blast
  show "fs_device t = fs_device s" "malloc_cnt t = malloc_cnt s" by (simp_all add: t)
qed

lemma io_keepsD:
  assumes "io_keeps s t"
  shows "fs_ok t" "fs_size t = fs_size s" "inodes t = inodes s" "files t = files s" "fs_device t = fs_device s"
    "malloc_ok t = malloc_ok s" "open_inodes t = open_inodes s" "free_map t = free_map s"
    "free_map_file t = free_map_file s"
  using assms by (auto simp: io_keeps_def)

lemma fs_read_ok:
  assumes "fs_ok s" "i < fs_size s"
  shows "\<exists>t. fs_read i s = (Inr (dsec s i), t) \<and> io_keeps s t \<and> dsec t = dsec s \<and> malloc_cnt t = malloc_cnt s"
proof -
  obtain t where t: "block_read (fs_device s) i s = (Inr (dsec s i), t)" and k: "dev_keeps s t"
    and u: "dev_ok (fs_device s) t" "block_size (fs_device s) t = block_size (fs_device s) s"
      "dsector (all_blocks t) (fs_device s) = dsec s"
    using dev.rd_law [of "fs_device s" s i] assms by (auto simp: fs_ok_def fs_size_def dsec_def)
  from t u dev_keeps_io [OF k] show ?thesis by (auto simp: fs_read_def io_keeps_def fs_ok_def fs_size_def dsec_def)
qed

lemma fs_write_ok:
  assumes "fs_ok s" "i < fs_size s" "length buf = BLOCK_SECTOR_SIZE"
  shows "\<exists>t. fs_write i buf s = (Inr (), t) \<and> io_keeps s t \<and> dsec t = (dsec s)(i := buf) \<and> malloc_cnt t = malloc_cnt s"
proof -
  obtain t where t: "block_write (fs_device s) i buf s = (Inr (), t)" and k: "dev_keeps s t"
    and u: "dev_ok (fs_device s) t" "block_size (fs_device s) t = block_size (fs_device s) s"
      "dsector (all_blocks t) (fs_device s) = (dsec s)(i := buf)"
    using dev.wr_law [of "fs_device s" s i buf] assms by (auto simp: fs_ok_def fs_size_def dsec_def)
  from t u dev_keeps_io [OF k] show ?thesis by (auto simp: fs_write_def io_keeps_def fs_ok_def fs_size_def dsec_def)
qed

lemma length_dsec: "fs_ok s \<Longrightarrow> length (dsec s i) = 512"
  using length_dsector [of "all_blocks s" "fs_device s"] by (simp add: fs_ok_def dev_ok_def dsec_def BLOCK_SECTOR_SIZE_def)

lemma fs_size_small: "fs_ok s \<Longrightarrow> fs_size s < 2 ^ 32"
  using wf_blocksD(1) by (simp add: fs_ok_def dev_ok_def fs_size_def block_size_def)

lemma get_bounce_ok:
  assumes "fs_ok s" "b \<or> malloc_ok s (malloc_cnt s)"
  shows "\<exists>t. get_bounce b s = (Inr True, t) \<and> io_keeps s t \<and> dsec t = dsec s"
proof (cases b)
  case True
  with io_keeps_refl [OF assms(1)] show ?thesis by (auto simp: get_bounce_def)
next
  case False
  have "io_keeps s (s\<lparr>malloc_cnt := Suc (malloc_cnt s)\<rparr>)"
    unfolding io_keeps_def
    using assms(1) by (intro conjI exI [of _ "all_blocks s"] exI [of _ "Suc (malloc_cnt s)"])
      (simp_all add: fs_ok_def dev_ok_def fs_size_def block_size_def)
  with False assms(2) show ?thesis by (auto simp: get_bounce_def kmalloc_def bnd_apply dsec_def)
qed

text \<open>A byte of the file and the sector that holds it.\<close>

lemma byte_position:
  assumes "o' mod 512 + j < (512::nat)"
  shows "(st * 512 + o' + j) div 512 = st + o' div 512" and "(st * 512 + o' + j) mod 512 = o' mod 512 + j"
proof -
  have "st * 512 + o' + j = (st + o' div 512) * 512 + (o' mod 512 + j)" by simp
  then show "(st * 512 + o' + j) div 512 = st + o' div 512" "(st * 512 + o' + j) mod 512 = o' mod 512 + j"
    using assms by (metis add.commute div_mult_self1_is_m div_mult_self3 div_less mod_less mod_mult_self3 add_0_left add_cancel_left_right zero_neq_numeral)+
qed

definition file_bytes :: "'a fs_scheme \<Rightarrow> inode \<Rightarrow> nat \<Rightarrow> nat \<Rightarrow> u8 list" where
  "file_bytes s i ofs n = map (\<lambda>j. dbyte s (start (idata i) * 512 + ofs + j)) [0..<n]"

lemma file_bytes_append: "file_bytes s i ofs (a + b) = file_bytes s i ofs a @ file_bytes s i (ofs + a) b"
  by (rule nth_equalityI) (auto simp: file_bytes_def nth_append add.assoc)

lemma sector_bytes:
  assumes "length (dsec s (start (idata i) + ofs div 512)) = 512" "ofs mod 512 + c \<le> 512"
  shows "take c (drop (ofs mod 512) (dsec s (start (idata i) + ofs div 512))) = file_bytes s i ofs c"
proof (rule nth_equalityI)
  show "length (take c (drop (ofs mod 512) (dsec s (start (idata i) + ofs div 512)))) = length (file_bytes s i ofs c)"
    using assms by (simp add: file_bytes_def)
next
  fix j
  assume "j < length (take c (drop (ofs mod 512) (dsec s (start (idata i) + ofs div 512))))"
  then have "j < c" by simp
  then show "take c (drop (ofs mod 512) (dsec s (start (idata i) + ofs div 512))) ! j = file_bytes s i ofs c ! j"
    using assms byte_position [of ofs j "start (idata i)"] by (simp add: file_bytes_def dbyte_def)
qed

text \<open>\<open>data_ok s i\<close>: the data of the inode lies on the device.\<close>

definition data_ok :: "'a fs_scheme \<Rightarrow> inode \<Rightarrow> bool" where
  "data_ok s i \<longleftrightarrow> start (idata i) * 512 + nat (inode_length i) \<le> fs_size s * 512"

lemma data_ok_keeps: "io_keeps s t \<Longrightarrow> data_ok t i = data_ok s i"
  by (simp add: data_ok_def io_keepsD)

lemma data_ok_sector:
  assumes "data_ok s i" "ofs < nat (inode_length i)" "fs_ok s"
  shows "byte_to_sector i (int ofs) = start (idata i) + ofs div 512" "start (idata i) + ofs div 512 < fs_size s"
proof -
  have a: "start (idata i) * 512 + ofs < fs_size s * 512" using assms(1,2) by (simp add: data_ok_def)
  have "(start (idata i) + ofs div 512) * 512 \<le> start (idata i) * 512 + ofs" by simp
  with a show l: "start (idata i) + ofs div 512 < fs_size s" by linarith
  have "nat (int ofs div 512) = ofs div 512" by (simp add: nat_div_distrib)
  with l fs_size_small [OF assms(3)] assms(2) show "byte_to_sector i (int ofs) = start (idata i) + ofs div 512"
    by (simp add: byte_to_sector_def BLOCK_SECTOR_SIZE_def inode_length_def)
qed

definition chunk_of :: "inode \<Rightarrow> nat \<Rightarrow> nat \<Rightarrow> nat" where
  "chunk_of i m ofs = min m (min (nat (inode_length i) - ofs) (512 - ofs mod 512))"

lemma chunk_size_in:
  assumes "ofs < nat (inode_length i)"
  shows "chunk_size i (int m) (int ofs) = int (chunk_of i m ofs)"
proof -
  obtain L where L: "inode_length i = int L" using assms nonneg_int_cases [of "inode_length i"] by fastforce
  define r where "r = ofs mod 512"
  have "int ofs mod 512 = int r" "r < 512" by (simp_all add: zmod_int r_def)
  moreover have "int (chunk_of i m ofs) = min (int m) (min (int L - int ofs) (512 - int r))"
    using assms L \<open>r < 512\<close> by (simp add: chunk_of_def r_def [symmetric] of_nat_min of_nat_diff)
  ultimately show ?thesis
    using L by (auto simp: chunk_size_def BLOCK_SECTOR_SIZE_def Let_def min_def)
qed

lemma chunk_size_end: "nat (inode_length i) \<le> ofs \<Longrightarrow> chunk_size i (int m) (int ofs) \<le> 0"
  by (auto simp: chunk_size_def Let_def BLOCK_SECTOR_SIZE_def)

lemma chunk_of_bounds:
  assumes "ofs < nat (inode_length i)" "0 < m"
  shows "0 < chunk_of i m ofs" "chunk_of i m ofs \<le> m" "ofs mod 512 + chunk_of i m ofs \<le> 512"
    "ofs + chunk_of i m ofs \<le> nat (inode_length i)"
proof -
  define r where "r = ofs mod 512"
  have "r < 512" by (simp add: r_def)
  then show "0 < chunk_of i m ofs" "chunk_of i m ofs \<le> m" "ofs mod 512 + chunk_of i m ofs \<le> 512"
    "ofs + chunk_of i m ofs \<le> nat (inode_length i)"
    using assms unfolding chunk_of_def r_def [symmetric] by arith+
qed

lemma rest_after_chunk:
  assumes "ofs < nat (inode_length i)" "0 < m"
  shows "min m (nat (inode_length i) - ofs) =
    chunk_of i m ofs + min (m - chunk_of i m ofs) (nat (inode_length i) - (ofs + chunk_of i m ofs))"
  using chunk_of_bounds [OF assms] by arith

lemma read_loop_ok:
  assumes "fs_ok s" "inodes s ino = Some i" "data_ok s i" "bounce \<or> malloc_ok s (malloc_cnt s)" "m \<le> n"
  shows "\<exists>t. read_loop n ino bounce (int m) (int ofs) out s =
      (Inr (out @ file_bytes s i ofs (min m (nat (inode_length i) - ofs))), t) \<and> io_keeps s t \<and> dsec t = dsec s"
  using assms
proof (induction n arbitrary: m ofs bounce out s)
  case 0
  then show ?case by (auto simp: file_bytes_def intro: io_keeps_refl)
next
  case (Suc n)
  show ?case
  proof (cases "m = 0 \<or> nat (inode_length i) \<le> ofs")
    case True
    then show ?thesis
      using Suc.prems chunk_size_end [of i ofs m] io_keeps_refl [OF Suc.prems(1)]
      by (auto simp: get_inode_def bnd_apply file_bytes_def)
  next
    case False
    then have ofs: "ofs < nat (inode_length i)" and m: "0 < m" by auto
    note c = chunk_of_bounds [OF ofs m]
    note sec = data_ok_sector [OF Suc.prems(3) ofs Suc.prems(1)]
    let ?c = "chunk_of i m ofs" and ?sec = "start (idata i) + ofs div 512"
    have step: "\<exists>t. read_loop n ino b (int m - int ?c) (int ofs + int ?c) (out @ file_bytes s i ofs ?c) u =
        (Inr (out @ file_bytes s i ofs (min m (nat (inode_length i) - ofs))), t) \<and> io_keeps s t \<and> dsec t = dsec s"
      if u: "io_keeps s u" "dsec u = dsec s" "b \<or> malloc_ok u (malloc_cnt u)" for u b
    proof -
      have e: "int m - int ?c = int (m - ?c)" "int ofs + int ?c = int (ofs + ?c)" using c(2) by simp_all
      have fb: "file_bytes u i = file_bytes s i" using u(2) by (simp add: file_bytes_def dbyte_def fun_eq_iff)
      have le: "m - ?c \<le> n" using c(1) Suc.prems(5) by simp
      obtain t where "read_loop n ino b (int (m - ?c)) (int (ofs + ?c)) (out @ file_bytes s i ofs ?c) u =
          (Inr ((out @ file_bytes s i ofs ?c) @ file_bytes u i (ofs + ?c) (min (m - ?c) (nat (inode_length i) - (ofs + ?c)))), t)"
          "io_keeps u t" "dsec t = dsec u"
        using Suc.IH [of u b "m - ?c" "ofs + ?c" "out @ file_bytes s i ofs ?c"] Suc.prems(2,3) u le io_keepsD(1,3) [OF u(1)]
          data_ok_keeps [OF u(1)] by auto
      then show ?thesis
        unfolding e fb rest_after_chunk [OF ofs m] file_bytes_append
        using u io_keeps_trans by auto
    qed
    have sb: "take ?c (drop (ofs mod 512) (dsec s ?sec)) = file_bytes s i ofs ?c"
      using sector_bytes [OF length_dsec [OF Suc.prems(1)] c(3)] .
    have ch: "chunk_size i (int m) (int ofs) = int ?c" by (rule chunk_size_in [OF ofs])
    have mo: "int ofs mod 512 = int (ofs mod 512)" by (simp add: zmod_int)
    show ?thesis
    proof (cases "ofs mod 512 = 0 \<and> ?c = 512")
      case True
      obtain u where u: "fs_read ?sec s = (Inr (dsec s ?sec), u)" "io_keeps s u" "dsec u = dsec s" "malloc_cnt u = malloc_cnt s"
        using fs_read_ok [OF Suc.prems(1) sec(2)] by blast
      have "dsec s ?sec = file_bytes s i ofs ?c" using sb True length_dsec [OF Suc.prems(1)] by simp
      with step [of u bounce] u Suc.prems(4) True ch mo sec(1) m Suc.prems(2) io_keepsD(6) [OF u(2)] show ?thesis
        by (simp add: get_inode_def bnd_apply BLOCK_SECTOR_SIZE_def Let_def)
    next
      case part: False
      obtain w where w: "get_bounce bounce s = (Inr True, w)" "io_keeps s w" "dsec w = dsec s"
        using get_bounce_ok [OF Suc.prems(1,4)] by blast
      have "?sec < fs_size w" using sec(2) io_keepsD(2) [OF w(2)] by simp
      then obtain u where u: "fs_read ?sec w = (Inr (dsec s ?sec), u)" "io_keeps w u" "dsec u = dsec s"
        using fs_read_ok [OF io_keepsD(1) [OF w(2)]] w(3) by metis
      have cond: "\<not> (int (ofs mod 512) = 0 \<and> int ?c = 512)" using part by linarith
      show ?thesis
        using step [OF io_keeps_trans [OF w(2) u(2)] u(3), of True] u(1) w(1) cond ch mo sec(1) m Suc.prems(2) c(1) sb
        by (auto simp: get_inode_def bnd_apply BLOCK_SECTOR_SIZE_def Let_def)
    qed
  qed
qed


text \<open>\<open>put_bytes f a src\<close>: the byte array \<open>f\<close> with \<open>src\<close> copied to address \<open>a\<close>.\<close>

definition put_bytes :: "(nat \<Rightarrow> u8) \<Rightarrow> nat \<Rightarrow> u8 list \<Rightarrow> nat \<Rightarrow> u8" where
  "put_bytes f a src = (\<lambda>x. if a \<le> x \<and> x < a + length src then src ! (x - a) else f x)"

lemma put_bytes_Nil [simp]: "put_bytes f a [] = f"
  by (auto simp: put_bytes_def fun_eq_iff)

lemma put_bytes_append: "put_bytes (put_bytes f a xs) (a + length xs) ys = put_bytes f a (xs @ ys)"
  by (auto simp: put_bytes_def fun_eq_iff nth_append)

lemma splice_nth:
  assumes "p + length src \<le> length d" "y < length d"
  shows "splice d p src ! y = (if p \<le> y \<and> y < p + length src then src ! (y - p) else d ! y)"
  using assms by (auto simp: splice_def nth_append)

lemma length_splice: "p + length src \<le> length d \<Longrightarrow> length (splice d p src) = length d"
  by (simp add: splice_def)

lemma sector_write_bytes:
  assumes ok: "fs_ok s" and room: "ofs mod 512 + length src \<le> 512"
    and u: "dsec u = (dsec s)(st + ofs div 512 := splice (dsec s (st + ofs div 512)) (ofs mod 512) src)"
  shows "dbyte u = put_bytes (dbyte s) (st * 512 + ofs) src"
proof
  fix x :: nat
  let ?sec = "st + ofs div 512" and ?p = "ofs mod 512"
  have a: "st * 512 + ofs = ?sec * 512 + ?p" by simp
  have x: "x = x div 512 * 512 + x mod 512" "x mod 512 < 512" by simp_all
  show "dbyte u x = put_bytes (dbyte s) (st * 512 + ofs) src x"
  proof (cases "x div 512 = ?sec")
    case True
    then have x': "x = ?sec * 512 + x mod 512" using x(1) by metis
    have e1: "st * 512 + ofs \<le> x \<longleftrightarrow> ?p \<le> x mod 512" unfolding a using x' by linarith
    have e2: "x < st * 512 + ofs + length src \<longleftrightarrow> x mod 512 < ?p + length src" unfolding a using x' by linarith
    have e3: "x - (st * 512 + ofs) = x mod 512 - ?p" unfolding a using x' by linarith
    have "splice (dsec s ?sec) ?p src ! (x mod 512) =
        (if ?p \<le> x mod 512 \<and> x mod 512 < ?p + length src then src ! (x mod 512 - ?p) else dsec s ?sec ! (x mod 512))"
      using room by (intro splice_nth) (simp_all add: length_dsec [OF ok])
    with True show ?thesis by (simp only: dbyte_def u put_bytes_def e1 e2 e3 fun_upd_same)
  next
    case False
    then consider "x div 512 < ?sec" | "?sec < x div 512" by linarith
    then have "x < st * 512 + ofs \<or> st * 512 + ofs + length src \<le> x"
    proof cases
      case 1
      then have "x div 512 * 512 + 512 \<le> ?sec * 512" by (simp add: Suc_leI flip: mult_Suc)
      with x a show ?thesis by linarith
    next
      case 2
      then have "?sec * 512 + 512 \<le> x div 512 * 512" by (simp add: Suc_leI flip: mult_Suc)
      with x a room show ?thesis by linarith
    qed
    with False show ?thesis by (auto simp: dbyte_def u put_bytes_def)
  qed
qed

lemma write_loop_ok:
  assumes "fs_ok s" "inodes s ino = Some i" "data_ok s i" "bounce \<or> malloc_ok s (malloc_cnt s)" "m \<le> n"
    and "w + m \<le> length buffer"
  shows "\<exists>t. write_loop n ino bounce buffer (int m) (int ofs) w s = (Inr (w + min m (nat (inode_length i) - ofs)), t) \<and>
    io_keeps s t \<and> dbyte t = put_bytes (dbyte s) (start (idata i) * 512 + ofs)
      (take (min m (nat (inode_length i) - ofs)) (drop w buffer))"
  using assms
proof (induction n arbitrary: m ofs bounce w s)
  case 0
  then show ?case by (auto intro: io_keeps_refl)
next
  case (Suc n)
  show ?case
  proof (cases "m = 0 \<or> nat (inode_length i) \<le> ofs")
    case True
    then show ?thesis
      using Suc.prems chunk_size_end [of i ofs m] io_keeps_refl [OF Suc.prems(1)]
      by (auto simp: get_inode_def bnd_apply Let_def)
  next
    case False
    then have ofs: "ofs < nat (inode_length i)" and m: "0 < m" by auto
    note c = chunk_of_bounds [OF ofs m]
    note sec = data_ok_sector [OF Suc.prems(3) ofs Suc.prems(1)]
    let ?c = "chunk_of i m ofs" and ?sec = "start (idata i) + ofs div 512"
    let ?src = "take ?c (drop w buffer)" and ?L = "nat (inode_length i)"
    have lsrc: "length ?src = ?c" using c(2) Suc.prems(6) by simp
    have step: "\<exists>t. write_loop n ino b buffer (int m - int ?c) (int ofs + int ?c) (w + ?c) u =
          (Inr (w + min m (?L - ofs)), t) \<and> io_keeps s t \<and>
        dbyte t = put_bytes (dbyte s) (start (idata i) * 512 + ofs) (take (min m (?L - ofs)) (drop w buffer))"
      if u: "io_keeps s u" "dsec u = (dsec s)(?sec := splice (dsec s ?sec) (ofs mod 512) ?src)"
        "b \<or> malloc_ok u (malloc_cnt u)" for u b
    proof -
      let ?k = "min (m - ?c) (?L - (ofs + ?c))"
      have e: "int m - int ?c = int (m - ?c)" "int ofs + int ?c = int (ofs + ?c)" using c(2) by simp_all
      have le: "m - ?c \<le> n" "w + ?c + (m - ?c) \<le> length buffer" using c(1,2) Suc.prems(5,6) by simp_all
      have du: "dbyte u = put_bytes (dbyte s) (start (idata i) * 512 + ofs) ?src"
        using sector_write_bytes [OF Suc.prems(1) _ u(2)] lsrc c(3) by simp
      obtain t where t: "write_loop n ino b buffer (int (m - ?c)) (int (ofs + ?c)) (w + ?c) u = (Inr (w + ?c + ?k), t)"
          "io_keeps u t" "dbyte t = put_bytes (dbyte u) (start (idata i) * 512 + (ofs + ?c)) (take ?k (drop (w + ?c) buffer))"
        using Suc.IH [of u b "m - ?c" "w + ?c" "ofs + ?c"] Suc.prems(2,3) u(1,3) le io_keepsD(1,3) [OF u(1)]
          data_ok_keeps [OF u(1)] by auto
      have "?src @ take ?k (drop (w + ?c) buffer) = take (?c + ?k) (drop w buffer)"
        by (simp add: take_add add.commute)
      then have "dbyte t = put_bytes (dbyte s) (start (idata i) * 512 + ofs) (take (?c + ?k) (drop w buffer))"
        using put_bytes_append [of "dbyte s" "start (idata i) * 512 + ofs" ?src] lsrc
        unfolding t(3) du by (simp add: add.assoc)
      with t(1,2) show ?thesis
        unfolding e rest_after_chunk [OF ofs m] using io_keeps_trans [OF u(1)] by (auto simp: add.assoc)
    qed
    have ch: "chunk_size i (int m) (int ofs) = int ?c" by (rule chunk_size_in [OF ofs])
    have mo: "int ofs mod 512 = int (ofs mod 512)" by (simp add: zmod_int)
    show ?thesis
    proof (cases "ofs mod 512 = 0 \<and> ?c = 512")
      case True
      have sp: "splice (dsec s ?sec) (ofs mod 512) ?src = ?src"
        using True lsrc length_dsec [OF Suc.prems(1)] by (simp add: splice_def)
      obtain u where u: "fs_write ?sec ?src s = (Inr (), u)" "io_keeps s u" "dsec u = (dsec s)(?sec := ?src)" "malloc_cnt u = malloc_cnt s"
        using fs_write_ok [OF Suc.prems(1) sec(2), of ?src] lsrc True by (auto simp: BLOCK_SECTOR_SIZE_def)
      from step [OF u(2) _, of bounce] u sp Suc.prems(4) True ch mo sec(1) m Suc.prems(2) io_keepsD(6) [OF u(2)] show ?thesis
        by (simp add: get_inode_def bnd_apply BLOCK_SECTOR_SIZE_def Let_def)
    next
      case part: False
      let ?new = "splice (dsec s ?sec) (ofs mod 512) ?src"
      obtain x where x: "get_bounce bounce s = (Inr True, x)" "io_keeps s x" "dsec x = dsec s"
        using get_bounce_ok [OF Suc.prems(1,4)] by blast
      have "?sec < fs_size x" using sec(2) io_keepsD(2) [OF x(2)] by simp
      then obtain y where y: "fs_read ?sec x = (Inr (dsec s ?sec), y)" "io_keeps x y" "dsec y = dsec s"
        using fs_read_ok [OF io_keepsD(1) [OF x(2)]] x(3) by metis
      have "?sec < fs_size y" using sec(2) io_keepsD(2) [OF x(2)] io_keepsD(2) [OF y(2)] by simp
      moreover have "length ?new = BLOCK_SECTOR_SIZE"
        using length_splice [of "ofs mod 512" ?src "dsec s ?sec"] length_dsec [OF Suc.prems(1)] lsrc c(3)
        by (simp add: BLOCK_SECTOR_SIZE_def)
      ultimately obtain u where u: "fs_write ?sec ?new y = (Inr (), u)" "io_keeps y u" "dsec u = (dsec s)(?sec := ?new)"
        using fs_write_ok [OF io_keepsD(1) [OF y(2)]] y(3) by metis
      have cond: "\<not> (int (ofs mod 512) = 0 \<and> int ?c = 512)" "0 < int (ofs mod 512) \<or> int ?c < 512 - int (ofs mod 512)"
        using part c(3) by linarith+
      have ku: "io_keeps s u" using io_keeps_trans x(2) y(2) u(2) by blast
      show ?thesis
        using step [OF ku u(3), of True] x(1) y(1) u(1) cond ch mo sec(1) m Suc.prems(2) c(1)
        by (auto simp: get_inode_def bnd_apply BLOCK_SECTOR_SIZE_def Let_def)
    qed
  qed
qed

text \<open>When the bounce buffer cannot be allocated, the loop stops at the first sector it would have to write
  in part: what it has written by then is a front part of the request, and it returns its length.\<close>

lemma get_bounce_denied:
  assumes "fs_ok s" "\<not> malloc_ok s (malloc_cnt s)"
  shows "\<exists>t. get_bounce False s = (Inr False, t) \<and> io_keeps s t \<and> dsec t = dsec s"
proof -
  have "io_keeps s (s\<lparr>malloc_cnt := Suc (malloc_cnt s)\<rparr>)"
    unfolding io_keeps_def
    using assms(1) by (intro conjI exI [of _ "all_blocks s"] exI [of _ "Suc (malloc_cnt s)"])
      (simp_all add: fs_ok_def dev_ok_def fs_size_def block_size_def)
  with assms(2) show ?thesis by (auto simp: get_bounce_def kmalloc_def bnd_apply dsec_def)
qed

lemma write_loop_denied:
  assumes "fs_ok s" "inodes s ino = Some i" "data_ok s i" "\<not> malloc_ok s (malloc_cnt s)" "m \<le> n"
    and "w + m \<le> length buffer"
  shows "\<exists>k t. write_loop n ino False buffer (int m) (int ofs) w s = (Inr (w + k), t) \<and>
    k \<le> min m (nat (inode_length i) - ofs) \<and> io_keeps s t \<and>
    dbyte t = put_bytes (dbyte s) (start (idata i) * 512 + ofs) (take k (drop w buffer))"
  using assms
proof (induction n arbitrary: m ofs w s)
  case 0
  then show ?case by (auto intro!: exI [of _ 0] io_keeps_refl)
next
  case (Suc n)
  show ?case
  proof (cases "m = 0 \<or> nat (inode_length i) \<le> ofs")
    case True
    then show ?thesis
      using Suc.prems chunk_size_end [of i ofs m] io_keeps_refl [OF Suc.prems(1)]
      by (auto simp: get_inode_def bnd_apply Let_def intro!: exI [of _ 0])
  next
    case False
    then have ofs: "ofs < nat (inode_length i)" and m: "0 < m" by auto
    note c = chunk_of_bounds [OF ofs m]
    note sec = data_ok_sector [OF Suc.prems(3) ofs Suc.prems(1)]
    let ?c = "chunk_of i m ofs" and ?sec = "start (idata i) + ofs div 512"
    let ?src = "take ?c (drop w buffer)" and ?L = "nat (inode_length i)"
    have lsrc: "length ?src = ?c" using c(2) Suc.prems(6) by simp
    have ch: "chunk_size i (int m) (int ofs) = int ?c" by (rule chunk_size_in [OF ofs])
    have mo: "int ofs mod 512 = int (ofs mod 512)" by (simp add: zmod_int)
    show ?thesis
    proof (cases "ofs mod 512 = 0 \<and> ?c = 512")
      case True
      have sp: "splice (dsec s ?sec) (ofs mod 512) ?src = ?src"
        using True lsrc length_dsec [OF Suc.prems(1)] by (simp add: splice_def)
      obtain u where u: "fs_write ?sec ?src s = (Inr (), u)" "io_keeps s u" "dsec u = (dsec s)(?sec := ?src)" "malloc_cnt u = malloc_cnt s"
        using fs_write_ok [OF Suc.prems(1) sec(2), of ?src] lsrc True by (auto simp: BLOCK_SECTOR_SIZE_def)
      have e: "int m - int ?c = int (m - ?c)" "int ofs + int ?c = int (ofs + ?c)" using c(2) by simp_all
      have le: "m - ?c \<le> n" "w + ?c + (m - ?c) \<le> length buffer" using c(1,2) Suc.prems(5,6) by simp_all
      have du: "dbyte u = put_bytes (dbyte s) (start (idata i) * 512 + ofs) ?src"
        using sector_write_bytes [OF Suc.prems(1), of ofs ?src u "start (idata i)"] u(3) lsrc c(3) sp by simp
      obtain k t where t: "write_loop n ino False buffer (int (m - ?c)) (int (ofs + ?c)) (w + ?c) u = (Inr (w + ?c + k), t)"
          "k \<le> min (m - ?c) (?L - (ofs + ?c))"
          "io_keeps u t" "dbyte t = put_bytes (dbyte u) (start (idata i) * 512 + (ofs + ?c)) (take k (drop (w + ?c) buffer))"
        using Suc.IH [of u "m - ?c" "w + ?c" "ofs + ?c"] Suc.prems(2,3,4) u(4) le io_keepsD(1,3,6) [OF u(2)]
          data_ok_keeps [OF u(2)] by auto
      have "?src @ take k (drop (w + ?c) buffer) = take (?c + k) (drop w buffer)"
        using take_add [of ?c k "drop w buffer"] by (simp add: add.commute)
      then have "dbyte t = put_bytes (dbyte s) (start (idata i) * 512 + ofs) (take (?c + k) (drop w buffer))"
        using put_bytes_append [of "dbyte s" "start (idata i) * 512 + ofs" ?src] lsrc
        unfolding t(4) du by (simp add: add.assoc)
      moreover have "?c + k \<le> min m (?L - ofs)"
      proof -
        have "?c \<le> ?L - ofs" by (simp add: chunk_of_def)
        with t(2) c(2) show ?thesis by (simp only: min.bounded_iff) linarith
      qed
      moreover have "write_loop (Suc n) ino False buffer (int m) (int ofs) w s = (Inr (w + (?c + k)), t)"
        using t(1) [folded e] u(1) True ch mo sec(1) m Suc.prems(2)
        by (simp add: get_inode_def bnd_apply BLOCK_SECTOR_SIZE_def Let_def add.assoc)
      ultimately show ?thesis using io_keeps_trans [OF u(2) t(3)] by blast
    next
      case part: False
      obtain t where t: "get_bounce False s = (Inr False, t)" "io_keeps s t" "dsec t = dsec s"
        using get_bounce_denied [OF Suc.prems(1,4)] by blast
      have cond: "\<not> (int (ofs mod 512) = 0 \<and> int ?c = 512)" using part by linarith
      have "write_loop (Suc n) ino False buffer (int m) (int ofs) w s = (Inr (w + 0), t)"
        using t(1) cond ch mo sec(1) m Suc.prems(2) c(1) by (auto simp: get_inode_def bnd_apply BLOCK_SECTOR_SIZE_def Let_def)
      moreover have "dbyte t = dbyte s" using t(3) by (simp add: dbyte_def fun_eq_iff)
      ultimately show ?thesis using t(2) by (intro exI [of _ 0] exI [of _ t]) simp
    qed
  qed
qed

text \<open>Reading \<open>m\<close> bytes at \<open>ofs\<close> returns the bytes of the file from there, up to its end, for every
  alignment of the request, and changes nothing that can be read.\<close>

lemma inode_read_ok:
  assumes "fs_ok s" "inodes s ino = Some i" "data_ok s i" "malloc_ok s (malloc_cnt s)"
  shows "\<exists>t. inode_read_at ino (int m) (int ofs) s = (Inr (file_bytes s i ofs (min m (nat (inode_length i) - ofs))), t) \<and>
    io_keeps s t \<and> dbyte t = dbyte s"
proof -
  obtain t where "read_loop m ino False (int m) (int ofs) [] s = (Inr (file_bytes s i ofs (min m (nat (inode_length i) - ofs))), t)"
    "io_keeps s t" "dsec t = dsec s"
    using read_loop_ok [OF assms(1-3), of False m m ofs "[]"] assms(4) by auto
  then show ?thesis by (auto simp: inode_read_at_def dbyte_def fun_eq_iff)
qed

text \<open>Writing \<open>m\<close> bytes at \<open>ofs\<close> to an inode that is not denied writes changes exactly the bytes of the
  device that hold the file between \<open>ofs\<close> and the end of the request or of the file, and returns
  how many they are.\<close>

lemma inode_write_ok:
  assumes "fs_ok s" "inodes s ino = Some i" "data_ok s i" "malloc_ok s (malloc_cnt s)"
    and "deny_write_cnt i = 0" "m \<le> length buffer"
  shows "\<exists>t. inode_write_at ino buffer (int m) (int ofs) s = (Inr (min m (nat (inode_length i) - ofs)), t) \<and> io_keeps s t \<and>
    dbyte t = put_bytes (dbyte s) (start (idata i) * 512 + ofs) (take (min m (nat (inode_length i) - ofs)) buffer)"
proof -
  obtain t where "write_loop m ino False buffer (int m) (int ofs) 0 s = (Inr (min m (nat (inode_length i) - ofs)), t)"
    "io_keeps s t" "dbyte t = put_bytes (dbyte s) (start (idata i) * 512 + ofs) (take (min m (nat (inode_length i) - ofs)) buffer)"
    using write_loop_ok [OF assms(1-3), of False m m 0 buffer ofs] assms(4,6) by auto
  then show ?thesis using assms(2,5) by (auto simp: inode_write_at_def get_inode_def bnd_apply)
qed

text \<open>Whether or not the bounce buffer can be allocated, a write puts a front part of the request on the
  device; it is the whole request when the allocation succeeds.\<close>

lemma inode_write_part:
  assumes "fs_ok s" "inodes s ino = Some i" "data_ok s i" "deny_write_cnt i = 0" "m \<le> length buffer"
  shows "\<exists>k t. inode_write_at ino buffer (int m) (int ofs) s = (Inr k, t) \<and> k \<le> min m (nat (inode_length i) - ofs) \<and>
    (malloc_ok s (malloc_cnt s) \<longrightarrow> k = min m (nat (inode_length i) - ofs)) \<and> io_keeps s t \<and>
    dbyte t = put_bytes (dbyte s) (start (idata i) * 512 + ofs) (take k buffer)"
proof (cases "malloc_ok s (malloc_cnt s)")
  case True
  show ?thesis
    using inode_write_ok [OF assms(1-3) True assms(4,5), of ofs]
    by (elim exE conjE) (intro exI [of _ "min m (nat (inode_length i) - ofs)"] exI conjI impI, assumption, simp_all)
next
  case False
  obtain k t where "write_loop m ino False buffer (int m) (int ofs) 0 s = (Inr k, t)" "k \<le> min m (nat (inode_length i) - ofs)"
    "io_keeps s t" "dbyte t = put_bytes (dbyte s) (start (idata i) * 512 + ofs) (take k buffer)"
    using write_loop_denied [OF assms(1-3) False, of m m 0 buffer ofs] assms(5) by auto
  then show ?thesis using assms(2,4) False by (auto simp: inode_write_at_def get_inode_def bnd_apply)
qed

lemma inode_write_at_denied:
  "inodes s ino = Some i \<Longrightarrow> deny_write_cnt i \<noteq> 0 \<Longrightarrow> inode_write_at ino buffer m ofs s = (Inr 0, s)"
  by (simp add: inode_write_at_def get_inode_def bnd_apply)

end
