(* ===== verification/Files.thy ===== *)
theory Files
  imports Inode
begin

text \<open>
  Open inodes, open files and the free map: the rest of \<^verbatim>\<open>filesys/inode.c\<close>, \<^verbatim>\<open>filesys/file.c\<close>,
  \<^verbatim>\<open>filesys/free-map.c\<close> and the two functions of \<^verbatim>\<open>lib/kernel/bitmap.c\<close> that move a bitmap to
  and from a file. The list of open inodes is the sequence of their addresses.

  \<open>fm_state s i runs\<close> says that the free map records exactly the runs of sectors in use and that
  its file is open; \<open>fm_inv s i runs\<close> says moreover that no allocation of memory fails. The first is
  kept by \<open>free_map_allocate\<close> even when the allocation of the bounce buffer fails; the second is kept by
  allocation, release and the creation of an inode, and none of them changes a byte of a run that
  belongs to another file. The counters \<open>open_cnt\<close> and \<open>deny_write_cnt\<close> are values of the C type \<open>int\<close>,
  and wrap as such.
\<close>

subsection \<open>Files by position\<close>

definition get_file :: "addr \<Rightarrow> ('a fs_scheme, kfile) op" where
  "get_file f = bnd (gets (\<lambda>s. files s f)) (\<lambda>r. case r of None \<Rightarrow> fail NullDeref | Some x \<Rightarrow> ret x)"

definition put_file :: "addr \<Rightarrow> kfile \<Rightarrow> ('a fs_scheme, unit) op" where
  "put_file f x = modify (\<lambda>s. s\<lparr>files := (files s)(f := Some x)\<rparr>)"

definition file_read_at :: "addr \<Rightarrow> int \<Rightarrow> int \<Rightarrow> ('a fs_scheme, u8 list) op" where
  "file_read_at f size' ofs = bnd (get_file f) (\<lambda>x. inode_read_at (finode x) size' ofs)"

definition file_write_at :: "addr \<Rightarrow> u8 list \<Rightarrow> int \<Rightarrow> int \<Rightarrow> ('a fs_scheme, nat) op" where
  "file_write_at f buffer size' ofs = bnd (get_file f) (\<lambda>x. inode_write_at (finode x) buffer size' ofs)"

definition file_read :: "addr \<Rightarrow> int \<Rightarrow> ('a fs_scheme, u8 list) op" where
  "file_read f size' = bnd (get_file f) (\<lambda>x.
     bnd (inode_read_at (finode x) size' (pos x)) (\<lambda>bs.
     bnd (put_file f (x\<lparr>pos := pos x + int (length bs)\<rparr>)) (\<lambda>_. ret bs)))"

definition file_write :: "addr \<Rightarrow> u8 list \<Rightarrow> int \<Rightarrow> ('a fs_scheme, nat) op" where
  "file_write f buffer size' = bnd (get_file f) (\<lambda>x.
     bnd (inode_write_at (finode x) buffer size' (pos x)) (\<lambda>n.
     bnd (put_file f (x\<lparr>pos := pos x + int n\<rparr>)) (\<lambda>_. ret n)))"

subsection \<open>The free map\<close>

definition bitmap_bytes :: "bitmap \<Rightarrow> u8 list" where
  "bitmap_bytes b = concat (map u32_bytes (bits b))"

definition bitmap_file_size :: "bitmap \<Rightarrow> nat" where
  "bitmap_file_size b = byte_cnt (bit_cnt b)"

fun words_of :: "u8 list \<Rightarrow> u32 list" where
  "words_of (a # b # c # d # bs) = bytes_u32 a b c d # words_of bs"
| "words_of _ = []"

text \<open>The bytes read replace the front of the array; the bits past the end of the map are cleared.\<close>

definition bitmap_read :: "bitmap \<Rightarrow> addr \<Rightarrow> ('a fs_scheme, bool \<times> bitmap) op" where
  "bitmap_read b f =
     (if 0 < bit_cnt b
      then let size' = byte_cnt (bit_cnt b) in
        bnd (file_read_at f (int size') 0) (\<lambda>bs.
          let new = words_of (bs @ drop (length bs) (bitmap_bytes b)); k = elem_cnt (bit_cnt b) - 1
          in if k < length new
             then ret (length bs = size', b\<lparr>bits := new[k := new ! k AND last_mask b]\<rparr>)
             else fail OutOfBounds)
      else ret (True, b))"

definition bitmap_write :: "bitmap \<Rightarrow> addr \<Rightarrow> ('a fs_scheme, bool) op" where
  "bitmap_write b f = (let size' = byte_cnt (bit_cnt b) in
     bnd (file_write_at f (bitmap_bytes b) (int size') 0) (\<lambda>n. ret (n = size')))"

definition set_free_map :: "bitmap \<Rightarrow> ('a fs_scheme, unit) op" where
  "set_free_map b = modify (\<lambda>s. s\<lparr>free_map := b\<rparr>)"

definition free_map_allocate :: "nat \<Rightarrow> ('a fs_scheme, nat option) op" where
  "free_map_allocate cnt =
     bnd (gets free_map) (\<lambda>b.
     bnd (lift_res (bitmap_scan_and_flip b 0 cnt False)) (\<lambda>(sector, b).
     bnd (set_free_map b) (\<lambda>_.
     bnd (gets free_map_file) (\<lambda>f.
     bnd (if sector \<noteq> BITMAP_ERROR \<and> f \<noteq> NULL then bitmap_write b f else ret True) (\<lambda>good.
     if good then ret (if sector \<noteq> BITMAP_ERROR then Some sector else None)
     else bnd (lift_res (bitmap_set_multiple b sector cnt False)) (\<lambda>b.
          bnd (set_free_map b) (\<lambda>_. ret None)))))))"

definition free_map_release :: "nat \<Rightarrow> nat \<Rightarrow> ('a fs_scheme, unit) op" where
  "free_map_release sector cnt =
     bnd (gets free_map) (\<lambda>b.
     bnd (lift_res (bitmap_all b sector cnt)) (\<lambda>all_set.
     bnd (ensure all_set) (\<lambda>_.
     bnd (lift_res (bitmap_set_multiple b sector cnt False)) (\<lambda>b.
     bnd (set_free_map b) (\<lambda>_.
     bnd (gets free_map_file) (\<lambda>f.
     bnd (bitmap_write b f) (\<lambda>_. ret ())))))))"

subsection \<open>Inodes\<close>

definition inode_create :: "nat \<Rightarrow> int \<Rightarrow> ('a fs_scheme, bool) op" where
  "inode_create sector len =
     bnd (ensure (0 \<le> len)) (\<lambda>_.
     bnd kmalloc (\<lambda>p. if p = NULL then ret False else
     let sectors = bytes_to_sectors len in
     bnd (free_map_allocate sectors) (\<lambda>r. case r of None \<Rightarrow> ret False
     | Some st \<Rightarrow>
         bnd (fs_write sector (enc_inode \<lparr>start = st, ilength = len, magic = INODE_MAGIC\<rparr>)) (\<lambda>_.
         bnd (for_op 0 sectors (\<lambda>i. fs_write (sz (st + i)) (replicate BLOCK_SECTOR_SIZE 0))) (\<lambda>_.
         ret True)))))"

fun find_open :: "nat \<Rightarrow> addr list \<Rightarrow> ('a fs_scheme, addr option) op" where
  "find_open sector [] = ret None"
| "find_open sector (a # as) =
     bnd (get_inode a) (\<lambda>i. if isector i = sector then ret (Some a) else find_open sector as)"

definition inode_reopen :: "addr \<Rightarrow> ('a fs_scheme, addr) op" where
  "inode_reopen ino = (if ino \<noteq> NULL
     then bnd (get_inode ino) (\<lambda>i. bnd (put_inode ino (i\<lparr>open_cnt := c_int (open_cnt i + 1)\<rparr>)) (\<lambda>_. ret ino))
     else ret NULL)"

definition inode_open :: "nat \<Rightarrow> ('a fs_scheme, addr) op" where
  "inode_open sector =
     bnd (gets open_inodes) (\<lambda>as.
     bnd (find_open sector as) (\<lambda>r. case r of
       Some a \<Rightarrow> inode_reopen a
     | None \<Rightarrow>
         bnd kmalloc (\<lambda>ino. if ino = NULL then ret NULL else
         bnd (modify (\<lambda>s. s\<lparr>open_inodes := ino # open_inodes s\<rparr>)) (\<lambda>_.
         bnd (fs_read sector) (\<lambda>buf.
         bnd (put_inode ino \<lparr>isector = sector, open_cnt = 1, removed = False, deny_write_cnt = 0,
                idata = dec_inode buf\<rparr>) (\<lambda>_. ret ino))))))"

definition inode_get_inumber :: "addr \<Rightarrow> ('a fs_scheme, nat) op" where
  "inode_get_inumber ino = bnd (get_inode ino) (\<lambda>i. ret (isector i))"

definition inode_close :: "addr \<Rightarrow> ('a fs_scheme, unit) op" where
  "inode_close ino = (if ino = NULL then ret () else
     bnd (get_inode ino) (\<lambda>i.
     let i = i\<lparr>open_cnt := c_int (open_cnt i - 1)\<rparr> in
     bnd (put_inode ino i) (\<lambda>_.
     if open_cnt i = 0 then
       bnd (modify (\<lambda>s. s\<lparr>open_inodes := remove1 ino (open_inodes s)\<rparr>)) (\<lambda>_.
       bnd (if removed i
            then bnd (free_map_release (isector i) 1) (\<lambda>_.
                 free_map_release (start (idata i)) (bytes_to_sectors (ilength (idata i))))
            else ret ()) (\<lambda>_.
       modify (\<lambda>s. s\<lparr>inodes := (inodes s)(ino := None)\<rparr>)))
     else ret ())))"

definition inode_remove :: "addr \<Rightarrow> ('a fs_scheme, unit) op" where
  "inode_remove ino = bnd (ensure (ino \<noteq> NULL)) (\<lambda>_.
     bnd (get_inode ino) (\<lambda>i. put_inode ino (i\<lparr>removed := True\<rparr>)))"

definition inode_deny_write :: "addr \<Rightarrow> ('a fs_scheme, unit) op" where
  "inode_deny_write ino = bnd (get_inode ino) (\<lambda>i.
     let i = i\<lparr>deny_write_cnt := c_int (deny_write_cnt i + 1)\<rparr> in
     bnd (put_inode ino i) (\<lambda>_. ensure (deny_write_cnt i \<le> open_cnt i)))"

definition inode_allow_write :: "addr \<Rightarrow> ('a fs_scheme, unit) op" where
  "inode_allow_write ino = bnd (get_inode ino) (\<lambda>i.
     bnd (ensure (deny_write_cnt i > 0)) (\<lambda>_.
     bnd (ensure (deny_write_cnt i \<le> open_cnt i)) (\<lambda>_.
     put_inode ino (i\<lparr>deny_write_cnt := c_int (deny_write_cnt i - 1)\<rparr>))))"

subsection \<open>Open files\<close>

definition file_open :: "addr \<Rightarrow> ('a fs_scheme, addr) op" where
  "file_open ino = bnd kmalloc (\<lambda>f.
     if ino \<noteq> NULL \<and> f \<noteq> NULL
     then bnd (put_file f \<lparr>finode = ino, pos = 0, deny_write = False\<rparr>) (\<lambda>_. ret f)
     else bnd (inode_close ino) (\<lambda>_. ret NULL))"

definition file_reopen :: "addr \<Rightarrow> ('a fs_scheme, addr) op" where
  "file_reopen f = bnd (get_file f) (\<lambda>x. bnd (inode_reopen (finode x)) file_open)"

definition file_deny_write :: "addr \<Rightarrow> ('a fs_scheme, unit) op" where
  "file_deny_write f = bnd (ensure (f \<noteq> NULL)) (\<lambda>_. bnd (get_file f) (\<lambda>x.
     if \<not> deny_write x then bnd (put_file f (x\<lparr>deny_write := True\<rparr>)) (\<lambda>_. inode_deny_write (finode x))
     else ret ()))"

definition file_allow_write :: "addr \<Rightarrow> ('a fs_scheme, unit) op" where
  "file_allow_write f = bnd (ensure (f \<noteq> NULL)) (\<lambda>_. bnd (get_file f) (\<lambda>x.
     if deny_write x then bnd (put_file f (x\<lparr>deny_write := False\<rparr>)) (\<lambda>_. inode_allow_write (finode x))
     else ret ()))"

definition file_close :: "addr \<Rightarrow> ('a fs_scheme, unit) op" where
  "file_close f = (if f \<noteq> NULL
     then bnd (file_allow_write f) (\<lambda>_. bnd (get_file f) (\<lambda>x. bnd (inode_close (finode x)) (\<lambda>_.
          modify (\<lambda>s. s\<lparr>files := (files s)(f := None)\<rparr>))))
     else ret ())"

definition file_length :: "addr \<Rightarrow> ('a fs_scheme, int) op" where
  "file_length f = bnd (ensure (f \<noteq> NULL)) (\<lambda>_. bnd (get_file f) (\<lambda>x.
     bnd (get_inode (finode x)) (\<lambda>i. ret (inode_length i))))"

definition file_seek :: "addr \<Rightarrow> int \<Rightarrow> ('a fs_scheme, unit) op" where
  "file_seek f new_pos = bnd (ensure (f \<noteq> NULL)) (\<lambda>_. bnd (ensure (0 \<le> new_pos)) (\<lambda>_.
     bnd (get_file f) (\<lambda>x. put_file f (x\<lparr>pos := new_pos\<rparr>))))"

definition file_tell :: "addr \<Rightarrow> ('a fs_scheme, int) op" where
  "file_tell f = bnd (ensure (f \<noteq> NULL)) (\<lambda>_. bnd (get_file f) (\<lambda>x. ret (pos x)))"

subsection \<open>Setting the free map up\<close>

definition FREE_MAP_SECTOR :: nat where "FREE_MAP_SECTOR = 0"
definition ROOT_DIR_SECTOR :: nat where "ROOT_DIR_SECTOR = 1"

text \<open>\<open>bitmap_create\<close> with the results of its two allocations; the new array is cleared at once.\<close>

definition free_map_init :: "('a fs_scheme, unit) op" where
  "free_map_init = bnd (gets (\<lambda>s. block_size (fs_device s) s)) (\<lambda>n.
     bnd kmalloc (\<lambda>p. bnd (if p = NULL then ret NULL else kmalloc) (\<lambda>q.
     bnd (lift_res (bitmap_create (p \<noteq> NULL) (if q = NULL then None else Some (replicate (elem_cnt n) 0)) n)) (\<lambda>r.
     case r of None \<Rightarrow> fail Panic
     | Some b \<Rightarrow> bnd (lift_res (bitmap_mark b FREE_MAP_SECTOR)) (\<lambda>b.
         bnd (lift_res (bitmap_mark b ROOT_DIR_SECTOR)) (\<lambda>b. set_free_map b))))))"

definition free_map_open :: "('a fs_scheme, unit) op" where
  "free_map_open = bnd (inode_open FREE_MAP_SECTOR) (\<lambda>ino. bnd (file_open ino) (\<lambda>f.
     bnd (modify (\<lambda>s. s\<lparr>free_map_file := f\<rparr>)) (\<lambda>_.
     if f = NULL then fail Panic else
     bnd (gets free_map) (\<lambda>b. bnd (bitmap_read b f) (\<lambda>(good, b).
     bnd (set_free_map b) (\<lambda>_. if good then ret () else fail Panic))))))"

definition free_map_close :: "('a fs_scheme, unit) op" where
  "free_map_close = bnd (gets free_map_file) file_close"

definition free_map_create :: "('a fs_scheme, unit) op" where
  "free_map_create = bnd (gets free_map) (\<lambda>b.
     bnd (inode_create FREE_MAP_SECTOR (int (bitmap_file_size b))) (\<lambda>good. if \<not> good then fail Panic else
     bnd (inode_open FREE_MAP_SECTOR) (\<lambda>ino. bnd (file_open ino) (\<lambda>f.
     bnd (modify (\<lambda>s. s\<lparr>free_map_file := f\<rparr>)) (\<lambda>_.
     if f = NULL then fail Panic else
     bnd (gets free_map) (\<lambda>b. bnd (bitmap_write b f) (\<lambda>good. if good then ret () else fail Panic)))))))"


subsection \<open>The free map and its file\<close>

definition fm_file :: "'a fs_scheme \<Rightarrow> inode \<Rightarrow> bool" where
  "fm_file s i \<longleftrightarrow> free_map_file s \<noteq> NULL \<and> (\<exists>x. files s (free_map_file s) = Some x \<and> inodes s (finode x) = Some i) \<and>
     deny_write_cnt i = 0 \<and> inode_length i = int (byte_cnt (bit_cnt (free_map s))) \<and> data_ok s i"

text \<open>The run of sectors that holds the data of an inode.\<close>

definition data_run :: "inode \<Rightarrow> nat \<times> nat" where
  "data_run i = (start (idata i), bytes_to_sectors (inode_length i))"

text \<open>\<open>fm_state s i runs\<close>: the free map in memory records the runs in use, its file is open through the
  inode \<open>i\<close>, and its own data is one of the runs. \<open>fm_inv s i runs\<close> adds that the allocator of the kernel
  never runs out of memory: the facts about \<open>fm_inv\<close> are about a machine on which no allocation fails.\<close>

definition fm_state :: "'a fs_scheme \<Rightarrow> inode \<Rightarrow> (nat \<times> nat) list \<Rightarrow> bool" where
  "fm_state s i runs \<longleftrightarrow> fs_ok s \<and> bm.tracks (free_map s) runs \<and>
     bit_cnt (free_map s) = fs_size s \<and> fm_file s i \<and> data_run i \<in> set runs"

definition fm_inv :: "'a fs_scheme \<Rightarrow> inode \<Rightarrow> (nat \<times> nat) list \<Rightarrow> bool" where
  "fm_inv s i runs \<longleftrightarrow> fs_ok s \<and> (\<forall>n. malloc_ok s n) \<and> bm.tracks (free_map s) runs \<and>
     bit_cnt (free_map s) = fs_size s \<and> fm_file s i \<and> data_run i \<in> set runs"

lemma fm_inv_state: "fm_inv s i runs \<longleftrightarrow> fm_state s i runs \<and> (\<forall>n. malloc_ok s n)"
  by (auto simp: fm_inv_def fm_state_def)

text \<open>The copy of the free map on the device.\<close>

definition synced :: "'a fs_scheme \<Rightarrow> inode \<Rightarrow> bool" where
  "synced s i \<longleftrightarrow> file_bytes s i 0 (bitmap_file_size (free_map s)) =
     take (bitmap_file_size (free_map s)) (bitmap_bytes (free_map s))"

definition fm_keeps :: "'a fs_scheme \<Rightarrow> 'a fs_scheme \<Rightarrow> bool" where
  "fm_keeps s t \<longleftrightarrow> fs_ok t \<and> fs_size t = fs_size s \<and> (\<exists>b bl n. t = s\<lparr>all_blocks := bl, malloc_cnt := n, free_map := b\<rparr>)"

lemma fm_keepsD:
  assumes "fm_keeps s t"
  shows "fs_ok t" "fs_size t = fs_size s" "inodes t = inodes s" "files t = files s" "fs_device t = fs_device s"
    "malloc_ok t = malloc_ok s" "open_inodes t = open_inodes s" "free_map_file t = free_map_file s"
  using assms by (auto simp: fm_keeps_def)

lemma fm_keeps_refl: "fs_ok s \<Longrightarrow> fm_keeps s s"
  unfolding fm_keeps_def
  by (intro conjI exI [of _ "all_blocks s"] exI [of _ "malloc_cnt s"] exI [of _ "free_map s"]) simp_all

lemma fm_keeps_trans:
  assumes "fm_keeps s t" "fm_keeps t u"
  shows "fm_keeps s u"
proof -
  obtain b bl n b' bl' n' where "t = s\<lparr>all_blocks := bl, malloc_cnt := n, free_map := b\<rparr>"
    "u = t\<lparr>all_blocks := bl', malloc_cnt := n', free_map := b'\<rparr>"
    using assms unfolding fm_keeps_def by blast
  then have "u = s\<lparr>all_blocks := bl', malloc_cnt := n', free_map := b'\<rparr>" by simp
  with assms show ?thesis unfolding fm_keeps_def by metis
qed

lemma io_keeps_fm:
  assumes "io_keeps s t"
  shows "fm_keeps s t"
proof -
  obtain bl n where t: "t = s\<lparr>all_blocks := bl, malloc_cnt := n\<rparr>" using assms by (auto simp: io_keeps_def)
  have "t = s\<lparr>all_blocks := bl, malloc_cnt := n, free_map := free_map s\<rparr>" by (simp add: t)
  with assms show ?thesis unfolding fm_keeps_def io_keeps_def by blast
qed

lemma set_free_map_keeps: "fs_ok s \<Longrightarrow> fm_keeps s (s\<lparr>free_map := b\<rparr>)"
  unfolding fm_keeps_def
  by (intro conjI exI [of _ "all_blocks s"] exI [of _ "malloc_cnt s"] exI [of _ b])
    (simp_all add: fs_ok_def dev_ok_def fs_size_def block_size_def)

lemma byte_cnt_bound:
  assumes "wf_bitmap b"
  shows "byte_cnt (bit_cnt b) \<le> length (bitmap_bytes b)"
proof -
  have "elem_cnt (bit_cnt b) = (bit_cnt b + 31) div 32" using assms by (simp add: elem_cnt_exact wf_bitmap_def)
  moreover have "(bit_cnt b + 31) div 32 \<le> (32 * length (bits b) + 31) div 32"
    using assms by (intro div_le_mono) (simp add: wf_bitmap_def)
  ultimately have "elem_cnt (bit_cnt b) \<le> length (bits b)" by simp
  moreover have "sz (4 * elem_cnt (bit_cnt b)) \<le> 4 * elem_cnt (bit_cnt b)" by (simp add: sz_def)
  moreover have "length (bitmap_bytes b) = 4 * length (bits b)"
    by (simp add: bitmap_bytes_def length_concat comp_def sum_list_triv)
  ultimately show ?thesis by (simp add: byte_cnt_def)
qed

lemma bitmap_write_ok:
  assumes "fs_ok s" "\<And>n. malloc_ok s n" "fm_file s i" "wf_bitmap b" "bit_cnt b = bit_cnt (free_map s)"
  shows "\<exists>t. bitmap_write b (free_map_file s) s = (Inr True, t) \<and> io_keeps s t \<and>
    dbyte t = put_bytes (dbyte s) (start (idata i) * 512) (take (bitmap_file_size b) (bitmap_bytes b))"
proof -
  obtain x where x: "files s (free_map_file s) = Some x" "inodes s (finode x) = Some i" "data_ok s i" "deny_write_cnt i = 0"
      and len: "nat (inode_length i) = byte_cnt (bit_cnt b)"
    using assms(3,5) by (auto simp: fm_file_def)
  obtain t where "inode_write_at (finode x) (bitmap_bytes b) (int (byte_cnt (bit_cnt b))) (int 0) s = (Inr (byte_cnt (bit_cnt b)), t)"
      "io_keeps s t" "dbyte t = put_bytes (dbyte s) (start (idata i) * 512) (take (byte_cnt (bit_cnt b)) (bitmap_bytes b))"
    using inode_write_ok [OF assms(1) x(2,3) assms(2) x(4) byte_cnt_bound [OF assms(4)], of 0] unfolding len by auto
  then show ?thesis
    using x(1) by (auto simp: bitmap_write_def file_write_at_def get_file_def bnd_apply Let_def bitmap_file_size_def)
qed

text \<open>Without a bounce buffer only a front part of the map may reach the device, and then the result is
  false.\<close>

lemma bitmap_write_part:
  assumes "fs_ok s" "fm_file s i" "wf_bitmap b" "bit_cnt b = bit_cnt (free_map s)"
  shows "\<exists>k t. bitmap_write b (free_map_file s) s = (Inr (k = bitmap_file_size b), t) \<and> k \<le> bitmap_file_size b \<and>
    (malloc_ok s (malloc_cnt s) \<longrightarrow> k = bitmap_file_size b) \<and> io_keeps s t \<and>
    dbyte t = put_bytes (dbyte s) (start (idata i) * 512) (take k (bitmap_bytes b))"
proof -
  obtain x where x: "files s (free_map_file s) = Some x" "inodes s (finode x) = Some i" "data_ok s i" "deny_write_cnt i = 0"
      and len: "nat (inode_length i) = byte_cnt (bit_cnt b)"
    using assms(2,4) by (auto simp: fm_file_def)
  obtain k t where t: "inode_write_at (finode x) (bitmap_bytes b) (int (byte_cnt (bit_cnt b))) (int 0) s = (Inr k, t)"
      "k \<le> byte_cnt (bit_cnt b)" "malloc_ok s (malloc_cnt s) \<longrightarrow> k = byte_cnt (bit_cnt b)" "io_keeps s t"
      "dbyte t = put_bytes (dbyte s) (start (idata i) * 512) (take k (bitmap_bytes b))"
    using inode_write_part [OF assms(1) x(2,3,4) byte_cnt_bound [OF assms(3)], of 0] unfolding len by auto
  then have "bitmap_write b (free_map_file s) s = (Inr (k = bitmap_file_size b), t)"
    using x(1) by (simp add: bitmap_write_def file_write_at_def get_file_def bnd_apply Let_def bitmap_file_size_def)
  with t(2-) show ?thesis unfolding bitmap_file_size_def by blast
qed

text \<open>After the bitmap has been written, the device holds the same map as memory.\<close>

lemma synced_after_write:
  assumes "wf_bitmap (free_map t)"
    and "dbyte t = put_bytes f (start (idata i) * 512) (take (bitmap_file_size (free_map t)) (bitmap_bytes (free_map t)))"
  shows "synced t i"
  using byte_cnt_bound [OF assms(1)] assms(2)
  by (auto simp: synced_def file_bytes_def put_bytes_def bitmap_file_size_def intro!: nth_equalityI)

lemma fm_inv_step:
  assumes "fm_inv s i runs" "fm_keeps s t" "bm.tracks (free_map t) runs'" "bit_cnt (free_map t) = bit_cnt (free_map s)"
    and "data_run i \<in> set runs'"
  shows "fm_inv t i runs'"
  using assms fm_keepsD [OF assms(2)] by (auto simp: fm_inv_def fm_file_def data_ok_def)

lemma fm_state_step:
  assumes "fm_state s i runs" "fm_keeps s t" "bm.tracks (free_map t) runs'" "bit_cnt (free_map t) = bit_cnt (free_map s)"
    and "data_run i \<in> set runs'"
  shows "fm_state t i runs'"
  using assms fm_keepsD [OF assms(2)] by (auto simp: fm_state_def fm_file_def data_ok_def)

text \<open>The three ways \<open>free_map_allocate\<close> can end: no run is free; a run is taken and written to the device;
  or a run is free but the map could not be written completely, and the run is given back.\<close>

definition alloc_taken :: "'a fs_scheme \<Rightarrow> inode \<Rightarrow> (nat \<times> nat) list \<Rightarrow> nat \<Rightarrow> nat \<Rightarrow> 'a fs_scheme \<Rightarrow> bool" where
  "alloc_taken s i runs cnt st t \<longleftrightarrow> fm_state t i ((st, cnt) # runs) \<and> fm_keeps s t \<and> synced t i \<and>
     (\<forall>j \<in> {st..<st + cnt}. \<not> covers runs j) \<and> st + cnt \<le> fs_size s \<and>
     dbyte t = put_bytes (dbyte s) (start (idata i) * 512) (take (bitmap_file_size (free_map t)) (bitmap_bytes (free_map t)))"

definition alloc_undone :: "'a fs_scheme \<Rightarrow> inode \<Rightarrow> (nat \<times> nat) list \<Rightarrow> nat \<Rightarrow> 'a fs_scheme \<Rightarrow> bool" where
  "alloc_undone s i runs cnt t \<longleftrightarrow> \<not> malloc_ok s (malloc_cnt s) \<and> fm_state t i runs \<and> fm_keeps s t \<and>
     (\<exists>st. st + cnt \<le> fs_size s \<and> (\<forall>j \<in> {st..<st + cnt}. \<not> covers runs j)) \<and>
     (\<exists>b k. wf_bitmap b \<and> bit_cnt b = bit_cnt (free_map s) \<and> k < bitmap_file_size b \<and>
        dbyte t = put_bytes (dbyte s) (start (idata i) * 512) (take k (bitmap_bytes b)))"

lemma free_map_allocate_cases:
  assumes "fm_state s i runs"
  shows "free_map_allocate cnt s = (Inr None, s) \<and> (\<forall>k. k + cnt \<le> fs_size s \<longrightarrow> (\<exists>j \<in> {k..<k + cnt}. covers runs j)) \<or>
    (\<exists>st t. free_map_allocate cnt s = (Inr (Some st), t) \<and> alloc_taken s i runs cnt st t) \<or>
    (\<exists>t. free_map_allocate cnt s = (Inr None, t) \<and> alloc_undone s i runs cnt t)"
proof -
  have tr: "bm.tracks (free_map s) runs" and cap: "bit_cnt (free_map s) = fs_size s" and f: "fm_file s i"
    and ok: "fs_ok s" and ru: "data_run i \<in> set runs"
    using assms by (auto simp: fm_state_def)
  have wf: "wf_bitmap (free_map s)" using tr by (simp add: bm.tracks_def)
  obtain st b where sc: "bitmap_scan_and_flip (free_map s) 0 cnt False = Inr (st, b)" using bm.take_total [OF wf] by blast
  show ?thesis
  proof (cases "st = BITMAP_ERROR")
    case True
    have "b = free_map s" "\<And>k. k + cnt \<le> fs_size s \<Longrightarrow> \<exists>j \<in> {k..<k + cnt}. covers runs j"
      using bm.tracks_take_fail [OF tr sc [unfolded True]] cap by auto
    with sc True show ?thesis by (auto simp: free_map_allocate_def bnd_apply set_free_map_def)
  next
    case False
    note new = bm.tracks_take [OF tr sc False]
    have b: "wf_bitmap b" "bit_cnt b = bit_cnt (free_map s)" "st + cnt \<le> fs_size s"
      using bm.take_found [OF wf sc False] cap by auto
    let ?u = "s\<lparr>free_map := b\<rparr>"
    have ku: "fm_keeps s ?u" by (rule set_free_map_keeps [OF ok])
    have fu: "fm_file ?u i" using f b(2) fm_keepsD(2) [OF ku] by (auto simp: fm_file_def data_ok_def)
    have du: "dbyte ?u = dbyte s" by (simp add: dbyte_def dsec_def fun_eq_iff)
    obtain k t where t: "bitmap_write b (free_map_file ?u) ?u = (Inr (k = bitmap_file_size b), t)" "k \<le> bitmap_file_size b"
        "malloc_ok ?u (malloc_cnt ?u) \<longrightarrow> k = bitmap_file_size b" "io_keeps ?u t"
        "dbyte t = put_bytes (dbyte ?u) (start (idata i) * 512) (take k (bitmap_bytes b))"
      using bitmap_write_part [OF fm_keepsD(1) [OF ku] fu b(1)] b(2) by auto
    have ft: "free_map t = b" using io_keepsD(8) [OF t(4)] by simp
    have kt: "fm_keeps s t" using fm_keeps_trans [OF ku io_keeps_fm [OF t(4)]] .
    show ?thesis
    proof (cases "k = bitmap_file_size b")
      case True
      have db: "dbyte t = put_bytes (dbyte s) (start (idata i) * 512) (take (bitmap_file_size (free_map t)) (bitmap_bytes (free_map t)))"
        using t(5) ft True unfolding du by simp
      have "fm_state t i ((st, cnt) # runs)"
        using fm_state_step [OF assms kt] new(1) ft b(2) ru by simp
      then have "alloc_taken s i runs cnt st t"
        using kt db new(2) b(3) synced_after_write [OF _ db] b(1) ft unfolding alloc_taken_def by blast
      moreover have "free_map_allocate cnt s = (Inr (Some st), t)"
        using sc False t(1) f True by (simp add: free_map_allocate_def bnd_apply set_free_map_def fm_file_def)
      ultimately show ?thesis by blast
    next
      case short: False
      obtain b' where sm: "bitmap_set_multiple b st cnt False = Inr b'" and tr': "bm.tracks b' runs"
        using bm.tracks_give [OF new(1), of st cnt] by auto
      have "st + cnt \<le> bit_cnt b" using b(2,3) cap by simp
      then have b': "bit_cnt b' = bit_cnt (free_map s)" using bm.give [OF b(1), of st cnt] sm b(2) by auto
      let ?t = "t\<lparr>free_map := b'\<rparr>"
      have kt': "fm_keeps s ?t" using fm_keeps_trans [OF kt set_free_map_keeps [OF fm_keepsD(1) [OF kt]]] .
      have "fm_state ?t i runs" using fm_state_step [OF assms kt'] tr' b' ru by simp
      moreover have "dbyte ?t = put_bytes (dbyte s) (start (idata i) * 512) (take k (bitmap_bytes b))"
        using t(5) unfolding du by (simp add: dbyte_def dsec_def fun_eq_iff)
      moreover have "k < bitmap_file_size b" "\<not> malloc_ok s (malloc_cnt s)" using t(2,3) short by auto
      ultimately have "alloc_undone s i runs cnt ?t"
        using kt' new(2) b unfolding alloc_undone_def by blast
      moreover have "free_map_allocate cnt s = (Inr None, ?t)"
        using sc False t(1) f short sm by (simp add: free_map_allocate_def bnd_apply set_free_map_def fm_file_def)
      ultimately show ?thesis by blast
    qed
  qed
qed

lemma free_map_allocate_ok:
  assumes "fm_inv s i runs"
  shows "free_map_allocate cnt s = (Inr None, s) \<and> (\<forall>k. k + cnt \<le> fs_size s \<longrightarrow> (\<exists>j \<in> {k..<k + cnt}. covers runs j)) \<or>
    (\<exists>st t. free_map_allocate cnt s = (Inr (Some st), t) \<and> fm_inv t i ((st, cnt) # runs) \<and> fm_keeps s t \<and> synced t i \<and>
       (\<forall>j \<in> {st..<st + cnt}. \<not> covers runs j) \<and> st + cnt \<le> fs_size s \<and>
       dbyte t = put_bytes (dbyte s) (start (idata i) * 512) (take (bitmap_file_size (free_map t)) (bitmap_bytes (free_map t))))"
proof -
  have st: "fm_state s i runs" and m: "\<And>n. malloc_ok s n" using assms by (auto simp: fm_inv_state)
  have "fm_inv t i r" if "fm_state t i r" "fm_keeps s t" for t r
    using that m fm_keepsD(6) [OF that(2)] by (simp add: fm_inv_state)
  then show ?thesis
    using free_map_allocate_cases [OF st, of cnt] m unfolding alloc_taken_def alloc_undone_def by meson
qed

lemma free_map_release_ok:
  assumes "fm_inv s i runs" "(st, cnt) \<in> set runs" "(st, cnt) \<noteq> data_run i"
  shows "\<exists>t. free_map_release st cnt s = (Inr (), t) \<and> fm_inv t i (remove1 (st, cnt) runs) \<and> fm_keeps s t \<and> synced t i \<and>
    dbyte t = put_bytes (dbyte s) (start (idata i) * 512) (take (bitmap_file_size (free_map t)) (bitmap_bytes (free_map t)))"
proof -
  have tr: "bm.tracks (free_map s) runs" and cap: "bit_cnt (free_map s) = fs_size s" and f: "fm_file s i"
    and ok: "fs_ok s" and m: "\<And>n. malloc_ok s n"
    using assms by (auto simp: fm_inv_def)
  have wf: "wf_bitmap (free_map s)" and room: "st + cnt \<le> bit_cnt (free_map s)"
    using tr assms(2) by (auto simp: bm.tracks_def runs_within_def)
  have all: "bitmap_all (free_map s) st cnt = Inr True"
    using bitmap_contains_abs [OF wf room, of False] tr covers_mem [OF assms(2)]
    by (auto simp: bitmap_all_def bm.tracks_def)
  obtain b where sm: "bitmap_set_multiple (free_map s) st cnt False = Inr b" and trb: "bm.tracks b (remove1 (st, cnt) runs)"
    using bm.tracks_give [OF tr assms(2)] by blast
  have b: "wf_bitmap b" "bit_cnt b = bit_cnt (free_map s)"
    using bm.give [OF wf room] sm by auto
  let ?u = "s\<lparr>free_map := b\<rparr>"
  have ku: "fm_keeps s ?u" by (rule set_free_map_keeps [OF ok])
  have fu: "fm_file ?u i" using f b(2) fm_keepsD(2) [OF ku] by (auto simp: fm_file_def data_ok_def)
  obtain t where t: "bitmap_write b (free_map_file ?u) ?u = (Inr True, t)" "io_keeps ?u t"
      "dbyte t = put_bytes (dbyte ?u) (start (idata i) * 512) (take (bitmap_file_size b) (bitmap_bytes b))"
    using bitmap_write_ok [OF fm_keepsD(1) [OF ku] _ fu b(1)] m b(2) by auto
  have ft: "free_map t = b" using io_keepsD(8) [OF t(2)] by simp
  have kt: "fm_keeps s t" using fm_keeps_trans [OF ku io_keeps_fm [OF t(2)]] .
  have inv: "fm_inv t i (remove1 (st, cnt) runs)" using fm_inv_step [OF assms(1) kt] trb ft b(2) assms by (simp add: fm_inv_def)
  have db: "dbyte t = put_bytes (dbyte s) (start (idata i) * 512) (take (bitmap_file_size (free_map t)) (bitmap_bytes (free_map t)))"
    using t(3) ft by (simp add: dbyte_def dsec_def fun_eq_iff put_bytes_def)
  have "free_map_release st cnt s = (Inr (), t)"
    using all sm t(1) by (simp add: free_map_release_def bnd_apply set_free_map_def)
  with inv kt db synced_after_write [OF _ db] b(1) ft show ?thesis by blast
qed


subsection \<open>Creating an inode\<close>

interpretation fsd: sector_device fs_ok fs_size dsec fs_read fs_write io_keeps
proof
  fix s :: "'a fs_scheme" and i and buf :: sector
  assume ok: "fs_ok s"
  show "io_keeps s s" using ok by (rule io_keeps_refl)
  show "length (dsec s i) = BLOCK_SECTOR_SIZE" using length_dsec [OF ok] by (simp add: BLOCK_SECTOR_SIZE_def)
  show "\<exists>t. fs_read i s = (Inr (dsec s i), t) \<and> io_keeps s t \<and> fs_ok t \<and> fs_size t = fs_size s \<and> dsec t = dsec s"
    if "i < fs_size s"
    using fs_read_ok [OF ok that] io_keepsD(1,2) by blast
  show "\<exists>t. fs_write i buf s = (Inr (), t) \<and> io_keeps s t \<and> fs_ok t \<and> fs_size t = fs_size s \<and> dsec t = (dsec s)(i := buf)"
    if "i < fs_size s" "length buf = BLOCK_SECTOR_SIZE"
    using fs_write_ok [OF ok that] io_keepsD(1,2) by blast
  show "fs_read i s = (Inl Panic, s) \<and> fs_write i buf s = (Inl Panic, s)" if "fs_size s \<le> i"
    using ok that block_past_end [of "fs_device s" s i] by (simp add: fs_read_def fs_write_def fs_ok_def dev_ok_def fs_size_def)
qed (rule io_keeps_trans)

text \<open>What creating an inode of \<open>n\<close> sectors in \<open>sector\<close> does to the device when it gets the run at \<open>st\<close>:
  the bytes outside the inode, the new run and the free map's file stay.\<close>

definition created :: "'a fs_scheme \<Rightarrow> inode \<Rightarrow> nat \<Rightarrow> int \<Rightarrow> nat \<Rightarrow> 'a fs_scheme \<Rightarrow> bool" where
  "created s i sector len st t \<longleftrightarrow>
     dsec t sector = enc_inode \<lparr>start = st, ilength = len, magic = INODE_MAGIC\<rparr> \<and>
     (\<forall>j < bytes_to_sectors len. dsec t (st + j) = replicate 512 0) \<and>
     (\<forall>x. x div 512 \<noteq> sector \<and> \<not> (st \<le> x div 512 \<and> x div 512 < st + bytes_to_sectors len) \<and>
        \<not> (start (idata i) * 512 \<le> x \<and> x < start (idata i) * 512 + bitmap_file_size (free_map s)) \<longrightarrow> dbyte t x = dbyte s x)"

lemma fm_bytes_in_run:
  assumes "inode_length i = int n" "n + 511 < 2 ^ 31" "start (idata i) * 512 \<le> x" "x < start (idata i) * 512 + n"
  shows "start (idata i) \<le> x div 512" "x div 512 < start (idata i) + bytes_to_sectors (inode_length i)"
proof -
  have "bytes_to_sectors (inode_length i) = (n + 511) div 512"
    using bytes_to_sectors_small [of "int n"] assms(1,2) by (simp add: nat_div_distrib nat_add_distrib flip: of_nat_add)
  moreover have "n \<le> (n + 511) div 512 * 512" using div_mult_mod_eq [of "n + 511" 512] by linarith
  ultimately have "x < (start (idata i) + bytes_to_sectors (inode_length i)) * 512"
    using assms(4) by (simp add: distrib_right)
  then show "x div 512 < start (idata i) + bytes_to_sectors (inode_length i)" by (simp add: less_mult_imp_div_less)
  show "start (idata i) \<le> x div 512" using assms(3) by (simp add: div_le_mono less_eq_div_iff_mult_less_eq)
qed

lemma fm_size_small: "wf_bitmap b \<Longrightarrow> byte_cnt (bit_cnt b) + 511 < 2 ^ 31"
proof -
  assume wf: "wf_bitmap b"
  then have "elem_cnt (bit_cnt b) = (bit_cnt b + 31) div 32" by (simp add: elem_cnt_exact wf_bitmap_def)
  moreover have "(bit_cnt b + 31) div 32 \<le> 2 ^ 32 div 32" using wf by (intro div_le_mono) (simp add: wf_bitmap_def)
  moreover have "byte_cnt (bit_cnt b) \<le> 4 * elem_cnt (bit_cnt b)" by (simp add: byte_cnt_def sz_def)
  ultimately show ?thesis by simp
qed

lemma inode_create_ok:
  assumes inv: "fm_inv s i runs" and sec: "(sector, 1) \<in> set runs" and ne: "(sector, 1) \<noteq> data_run i" and len: "0 \<le> len"
  shows "(\<exists>t. inode_create sector len s = (Inr False, t) \<and> io_keeps s t \<and> dbyte t = dbyte s \<and> fm_inv t i runs) \<or>
    (\<exists>st t. inode_create sector len s = (Inr True, t) \<and> fm_inv t i ((st, bytes_to_sectors len) # runs) \<and>
       fm_keeps s t \<and> created s i sector len st t \<and> synced t i \<and> st + bytes_to_sectors len \<le> fs_size s)"
proof -
  let ?n = "bytes_to_sectors len" and ?u = "s\<lparr>malloc_cnt := Suc (malloc_cnt s)\<rparr>"
  have m: "kmalloc s = (Inr (Suc (malloc_cnt s)), ?u)" using inv by (simp add: kmalloc_def bnd_apply fm_inv_def)
  have ku: "io_keeps s ?u" "dsec ?u = dsec s"
    using get_bounce_ok [of s False] inv m by (auto simp: fm_inv_def get_bounce_def bnd_apply)
  have du: "dbyte ?u = dbyte s" using ku(2) by (simp add: dbyte_def fun_eq_iff)
  have iu: "fm_inv ?u i runs"
    using fm_inv_step [OF inv io_keeps_fm [OF ku(1)], of runs] inv by (simp add: fm_inv_def)
  from free_map_allocate_ok [OF iu, of ?n] show ?thesis
  proof (elim disjE exE conjE)
    assume "free_map_allocate ?n ?u = (Inr None, ?u)"
    then have "inode_create sector len s = (Inr False, ?u)"
      using m len by (simp add: inode_create_def bnd_apply Let_def)
    with ku du iu show ?thesis by blast
  next
    fix st v
    let ?d = "enc_inode \<lparr>start = st, ilength = len, magic = INODE_MAGIC\<rparr>"
    assume al: "free_map_allocate ?n ?u = (Inr (Some st), v)" and iv: "fm_inv v i ((st, ?n) # runs)"
      and kv: "fm_keeps ?u v" and sv: "synced v i" and new: "\<forall>j \<in> {st..<st + ?n}. \<not> covers runs j"
      and room: "st + ?n \<le> fs_size ?u"
      and dv: "dbyte v = put_bytes (dbyte ?u) (start (idata i) * 512) (take (bitmap_file_size (free_map v)) (bitmap_bytes (free_map v)))"
    have okv: "fs_ok v" "fs_size v = fs_size s" using fm_keepsD(1,2) [OF kv] io_keepsD(2) [OF ku(1)] by simp_all
    have sin: "sector < fs_size v"
      using inv sec okv by (fastforce simp: fm_inv_def bm.tracks_def runs_within_def)
    obtain w where w: "fs_write sector ?d v = (Inr (), w)" "io_keeps v w" "fs_ok w" "fs_size w = fs_size v"
        "dsec w = (dsec v)(sector := ?d)"
      using fsd.wr_law [OF okv(1) sin length_enc_inode] by blast
    have rw: "st + (0 + ?n) \<le> fs_size w" using room w(4) okv(2) io_keepsD(2) [OF ku(1)] by simp
    obtain t where t: "for_op 0 ?n (\<lambda>k. fs_write (st + k) (replicate BLOCK_SECTOR_SIZE 0)) w = (Inr (), t)" "io_keeps w t"
        "dsec t = (\<lambda>j. if st \<le> j \<and> j < st + ?n then replicate BLOCK_SECTOR_SIZE 0 else dsec w j)"
      using fsd.write_run [OF w(3) rw, of "\<lambda>_. replicate BLOCK_SECTOR_SIZE 0"] by auto
    have lp: "for_op 0 ?n (\<lambda>k. fs_write (sz (st + k)) (replicate BLOCK_SECTOR_SIZE 0)) =
        (for_op 0 ?n (\<lambda>k. fs_write (st + k) (replicate BLOCK_SECTOR_SIZE 0)) :: ('a fs_scheme, unit) op)"
      using rw fs_size_small [OF w(3)] by (intro for_op_cong) simp
    have res: "inode_create sector len s = (Inr True, t)"
      using m len al w(1) t(1) lp by (simp add: inode_create_def bnd_apply Let_def)
    have kvt: "io_keeps v t" using io_keeps_trans [OF w(2) t(2)] .
    have kt: "fm_keeps s t" using fm_keeps_trans io_keeps_fm ku(1) kv kvt by blast
    have ft: "free_map t = free_map v" by (rule io_keepsD(8) [OF kvt])
    have it: "fm_inv t i ((st, ?n) # runs)"
      using fm_inv_step [OF iv io_keeps_fm [OF kvt], of "(st, ?n) # runs"] iv ft by (simp add: fm_inv_def)
    have cs: "\<not> (st \<le> sector \<and> sector < st + ?n)" using new covers_mem [OF sec, of sector] by auto
    have wfv: "wf_bitmap (free_map v)" and ilen: "inode_length i = int (bitmap_file_size (free_map v))"
      and fr: "data_run i \<in> set runs" and dj: "disjoint_runs runs" and ilens: "inode_length i = int (bitmap_file_size (free_map s))"
      using iv inv by (auto simp: fm_inv_def bm.tracks_def fm_file_def bitmap_file_size_def)
    have dt: "dsec t k = (if st \<le> k \<and> k < st + ?n then replicate 512 0 else if k = sector then ?d else dsec v k)" for k
      using t(3) w(5) by (simp add: BLOCK_SECTOR_SIZE_def)
    have ltk: "length (take (bitmap_file_size (free_map v)) (bitmap_bytes (free_map v))) = bitmap_file_size (free_map s)"
      using byte_cnt_bound [OF wfv] ilen ilens by (simp add: bitmap_file_size_def)
    have keep: "dbyte t x = dbyte s x" if x: "x div 512 \<noteq> sector" "\<not> (st \<le> x div 512 \<and> x div 512 < st + ?n)"
        "\<not> (start (idata i) * 512 \<le> x \<and> x < start (idata i) * 512 + bitmap_file_size (free_map s))" for x
    proof -
      have "dsec t (x div 512) = dsec v (x div 512)" using x(1,2) dt by metis
      then have "dbyte t x = dbyte v x" by (simp add: dbyte_def)
      also have "\<dots> = dbyte ?u x" unfolding dv put_bytes_def ltk using x(3) by presburger
      finally show ?thesis by (simp add: du)
    qed
    have "dsec t sector = ?d" using cs by (auto simp: dt)
    moreover have "\<forall>j < ?n. dsec t (st + j) = replicate 512 0" by (simp add: dt)
    ultimately have cr: "created s i sector len st t"
      unfolding created_def using keep by blast
    have "k \<noteq> sector \<and> \<not> (st \<le> k \<and> k < st + ?n)" if k: "start (idata i) \<le> k" "k < start (idata i) + bytes_to_sectors (inode_length i)" for k
    proof -
      have fr': "(start (idata i), bytes_to_sectors (inode_length i)) \<in> set runs" using fr by (simp add: data_run_def)
      have "{sector..<sector + 1} \<inter> {start (idata i)..<start (idata i) + bytes_to_sectors (inode_length i)} = {}"
        using disjoint_runs_two [OF dj sec fr'] ne by (simp add: data_run_def)
      then have "k \<noteq> sector" using k by fastforce
      moreover have "covers runs k" using covers_mem [OF fr'] k by blast
      ultimately show ?thesis using new by auto
    qed
    then have same: "dbyte t x = dbyte v x"
      if "start (idata i) * 512 \<le> x" "x < start (idata i) * 512 + bitmap_file_size (free_map v)" for x
      using fm_bytes_in_run [OF ilen _ that] fm_size_small [OF wfv] dt [of "x div 512"]
      by (auto simp: dbyte_def bitmap_file_size_def)
    have "file_bytes t i 0 (bitmap_file_size (free_map v)) = file_bytes v i 0 (bitmap_file_size (free_map v))"
      by (simp add: file_bytes_def same)
    then have "synced t i" using sv by (simp add: synced_def ft)
    with res it kt cr room io_keepsD(2) [OF ku(1)] show ?thesis by auto
  qed
qed


subsection \<open>Runs that stay as they are\<close>

definition kept_run :: "'a fs_scheme \<Rightarrow> 'a fs_scheme \<Rightarrow> nat \<times> nat \<Rightarrow> bool" where
  "kept_run s t r \<longleftrightarrow> (\<forall>x. fst r \<le> x div 512 \<and> x div 512 < fst r + snd r \<longrightarrow> dbyte t x = dbyte s x)"

lemma kept_run_trans: "kept_run s t r \<Longrightarrow> kept_run t u r \<Longrightarrow> kept_run s u r"
  by (simp add: kept_run_def)

lemma runs_apart:
  assumes "disjoint_runs runs" "r \<in> set runs" "q \<in> set runs" "r \<noteq> q" "fst r \<le> k" "k < fst r + snd r"
  shows "\<not> (fst q \<le> k \<and> k < fst q + snd q)"
  using disjoint_runs_two [OF assms(1), of "fst r" "snd r" "fst q" "snd q"] assms(2-)
  by (metis IntI atLeastLessThan_iff empty_iff prod.collapse)

lemma fm_part_kept:
  assumes inv: "fm_state s i runs" and b: "wf_bitmap b" "bit_cnt b = bit_cnt (free_map s)" "k \<le> bitmap_file_size b"
    and d: "dbyte t = put_bytes (dbyte s) (start (idata i) * 512) (take k (bitmap_bytes b))"
    and r: "r \<in> set runs" "r \<noteq> data_run i"
  shows "kept_run s t r"
  unfolding kept_run_def
proof (intro allI impI)
  fix x
  assume x: "fst r \<le> x div 512 \<and> x div 512 < fst r + snd r"
  have l: "length (take k (bitmap_bytes b)) = k"
    using byte_cnt_bound [OF b(1)] b(3) by (simp add: bitmap_file_size_def)
  have i: "inode_length i = int (bitmap_file_size b)" "data_run i \<in> set runs" "disjoint_runs runs"
    using inv b(2) by (auto simp: fm_state_def fm_file_def bitmap_file_size_def bm.tracks_def)
  have "\<not> (start (idata i) \<le> x div 512 \<and> x div 512 < start (idata i) + bytes_to_sectors (inode_length i))"
    using runs_apart [OF i(3) r(1) i(2) r(2)] x by (simp add: data_run_def)
  then have "\<not> (start (idata i) * 512 \<le> x \<and> x < start (idata i) * 512 + k)"
    using fm_bytes_in_run [OF i(1), of x] fm_size_small [OF b(1)] b(3) by (auto simp: bitmap_file_size_def)
  then show "dbyte t x = dbyte s x" unfolding d put_bytes_def l by presburger
qed

lemma fm_write_kept:
  assumes "fm_inv s i runs" "wf_bitmap b" "bit_cnt b = bit_cnt (free_map s)"
    and "dbyte t = put_bytes (dbyte s) (start (idata i) * 512) (take (bitmap_file_size b) (bitmap_bytes b))"
    and "r \<in> set runs" "r \<noteq> data_run i"
  shows "kept_run s t r"
  using fm_part_kept [OF _ assms(2,3) order_refl assms(4-6)] assms(1) by (simp add: fm_inv_state)

lemma created_kept:
  assumes inv: "fm_inv s i runs" and new: "\<forall>j \<in> {st..<st + bytes_to_sectors len}. \<not> covers runs j"
    and c: "created s i sector len st t" and r: "r \<in> set runs" "r \<noteq> (sector, 1)" "r \<noteq> data_run i"
    and sec: "(sector, 1) \<in> set runs"
  shows "kept_run s t r"
  unfolding kept_run_def
proof (intro allI impI)
  fix x
  assume x: "fst r \<le> x div 512 \<and> x div 512 < fst r + snd r"
  have i: "inode_length i = int (bitmap_file_size (free_map s))" "data_run i \<in> set runs" "disjoint_runs runs" "wf_bitmap (free_map s)"
    using inv by (auto simp: fm_inv_def fm_file_def bitmap_file_size_def bm.tracks_def)
  have 1: "x div 512 \<noteq> sector" using runs_apart [OF i(3) r(1) sec r(2)] x by fastforce
  have "covers runs (x div 512)" using r(1) x by (auto simp: covers_def)
  then have 2: "\<not> (st \<le> x div 512 \<and> x div 512 < st + bytes_to_sectors len)" using new by auto
  have "\<not> (start (idata i) \<le> x div 512 \<and> x div 512 < start (idata i) + bytes_to_sectors (inode_length i))"
    using runs_apart [OF i(3) r(1) i(2) r(3)] x by (simp add: data_run_def)
  then have 3: "\<not> (start (idata i) * 512 \<le> x \<and> x < start (idata i) * 512 + bitmap_file_size (free_map s))"
    using fm_bytes_in_run [OF i(1), of x] fm_size_small [OF i(4)] by (auto simp: bitmap_file_size_def)
  from 1 2 3 c show "dbyte t x = dbyte s x" unfolding created_def by blast
qed

subsection \<open>The table of open inodes\<close>

text \<open>\<open>same_open s t\<close>: no inode was opened, closed or changed. Every read and write of the device, and
  every use of the free map, is such a step, however it ends.\<close>

definition same_open :: "'a fs_scheme \<Rightarrow> 'a fs_scheme \<Rightarrow> bool" where
  "same_open s t \<longleftrightarrow> inodes t = inodes s \<and> open_inodes t = open_inodes s \<and> files t = files s \<and> malloc_cnt s \<le> malloc_cnt t"

lemma same_open_refl [intro]: "same_open s s"
  by (simp add: same_open_def)

lemma same_open_trans: "same_open s t \<Longrightarrow> same_open t u \<Longrightarrow> same_open s u"
  by (auto simp: same_open_def)

lemmas so_basic = frames_basic [of same_open, OF same_open_refl]
lemmas so_bnd = frames_bnd [of same_open, OF same_open_trans]

lemma so_kmalloc: "frames same_open kmalloc"
  by (auto simp: frames_def kmalloc_def bnd_apply same_open_def)

lemma so_upd_block: "frames same_open (upd_block b f)"
  by (auto simp: frames_def upd_block_def same_open_def)

lemma so_set_free_map: "frames same_open (set_free_map b)"
  by (auto simp: frames_def set_free_map_def same_open_def)

lemma so_check_sector: "frames same_open (check_sector b i)"
  unfolding check_sector_def by (intro so_bnd so_basic frames_if)

lemma so_block_read_n: "frames same_open (block_read_n n b i)"
proof (induction n arbitrary: b i)
  case (Suc n)
  show ?case
    unfolding block_read_n.simps
    by (intro so_bnd so_basic so_check_sector so_upd_block)
      (auto split: driver.split simp: partition_read_def Suc intro: so_basic)
qed (simp add: so_basic)

lemma so_block_write_n: "frames same_open (block_write_n n b i buf)"
proof (induction n arbitrary: b i)
  case (Suc n)
  show ?case
    unfolding block_write_n.simps
    by (intro so_bnd so_basic so_check_sector so_upd_block)
      (auto split: driver.split simp: partition_write_def Suc intro: so_basic so_upd_block)
qed (simp add: so_basic)

lemma so_fs_read: "frames same_open (fs_read i)"
  unfolding frames_def fs_read_def block_read_def using framesD [OF so_block_read_n] by blast

lemma so_fs_write: "frames same_open (fs_write i buf)"
  unfolding frames_def fs_write_def block_write_def using framesD [OF so_block_write_n] by blast

lemma so_get_inode: "frames same_open (get_inode ino)"
  unfolding get_inode_def by (intro so_bnd so_basic) (auto split: option.split intro: so_basic)

lemma so_get_file: "frames same_open (get_file f)"
  unfolding get_file_def by (intro so_bnd so_basic) (auto split: option.split intro: so_basic)

lemma so_get_bounce: "frames same_open (get_bounce b)"
  unfolding get_bounce_def by (intro frames_if so_bnd so_basic so_kmalloc)

lemma so_write_loop: "frames same_open (write_loop n ino b buffer m ofs w)"
proof (induction n arbitrary: b m ofs w)
  case (Suc n)
  show ?case
    unfolding write_loop.simps Let_def
    by (intro frames_if so_bnd so_basic so_get_inode so_get_bounce so_fs_read so_fs_write Suc)
qed (auto intro: frames_if so_basic)

lemma so_inode_write_at: "frames same_open (inode_write_at ino buffer m ofs)"
  unfolding inode_write_at_def by (intro so_bnd so_get_inode frames_if so_basic so_write_loop)

lemma so_free_map_release: "frames same_open (free_map_release st cnt)"
  unfolding free_map_release_def bitmap_write_def file_write_at_def Let_def
  by (intro so_bnd so_basic so_set_free_map so_get_file so_inode_write_at)

text \<open>\<open>wf_open n s\<close>: the list holds the inodes that are open, each once, and no two of them are for the same
  sector. \<open>n\<close> is the number of times an inode has been opened so far; while it fits a C \<open>int\<close>, no counter of
  openers has wrapped.\<close>

definition wf_open :: "nat \<Rightarrow> 'a fs_scheme \<Rightarrow> bool" where
  "wf_open n s \<longleftrightarrow> distinct (open_inodes s) \<and> dom (inodes s) = set (open_inodes s) \<and>
     (\<forall>a i. inodes s a = Some i \<longrightarrow> a \<noteq> NULL \<and> a \<le> malloc_cnt s \<and> (n < 2 ^ 31 \<longrightarrow> 1 \<le> open_cnt i \<and> open_cnt i \<le> int n)) \<and>
     (\<forall>a b i j. inodes s a = Some i \<and> inodes s b = Some j \<and> isector i = isector j \<longrightarrow> a = b)"

lemma wf_open_same: "wf_open n s \<Longrightarrow> same_open s t \<Longrightarrow> wf_open n t"
  by (fastforce simp: wf_open_def same_open_def)

lemma wf_open_Suc: "wf_open n s \<Longrightarrow> wf_open (Suc n) s"
  by (fastforce simp: wf_open_def)

lemma wf_open_count: "wf_open n s \<Longrightarrow> inodes s a = Some i \<Longrightarrow> n < 2 ^ 31 \<Longrightarrow> 1 \<le> open_cnt i \<and> open_cnt i \<le> int n"
  by (simp add: wf_open_def)

text \<open>Replacing an open inode by one for the same sector.\<close>

lemma wf_open_update:
  assumes "wf_open n s" "inodes s a = Some i" "isector k = isector i"
    and "m < 2 ^ 31 \<Longrightarrow> 1 \<le> open_cnt k \<and> open_cnt k \<le> int m" "n \<le> m"
  shows "wf_open m (s\<lparr>inodes := (inodes s)(a := Some k)\<rparr>)"
  unfolding wf_open_def
proof (intro conjI allI impI)
  let ?t = "s\<lparr>inodes := (inodes s)(a := Some k)\<rparr>"
  show "distinct (open_inodes ?t)" using assms(1) by (simp add: wf_open_def)
  show "dom (inodes ?t) = set (open_inodes ?t)" using assms(1,2) by (auto simp: wf_open_def)
  fix b j
  assume b: "inodes ?t b = Some j"
  have "b \<noteq> NULL \<and> b \<le> malloc_cnt s" using assms(1,2) b unfolding wf_open_def by (cases "b = a") auto
  then show "b \<noteq> NULL" "b \<le> malloc_cnt ?t" by simp_all
  assume m: "m < 2 ^ 31"
  then have "1 \<le> open_cnt j \<and> open_cnt j \<le> int m"
    using assms(4) [OF m] wf_open_count [OF assms(1), of b j] b assms(5) by (cases "b = a") auto
  then show "1 \<le> open_cnt j" "open_cnt j \<le> int m" by simp_all
next
  let ?t = "s\<lparr>inodes := (inodes s)(a := Some k)\<rparr>"
  fix b c x y
  assume e: "inodes ?t b = Some x \<and> inodes ?t c = Some y \<and> isector x = isector y"
  have old: "\<exists>x'. inodes s b' = Some x' \<and> isector x' = isector x''" if "inodes ?t b' = Some x''" for b' x''
    using that assms(2,3) by (cases "b' = a") auto
  from e old [of b x] old [of c y] show "b = c" using assms(1) unfolding wf_open_def by metis
qed

lemma find_open_result:
  assumes "\<forall>a \<in> set as. inodes s a \<noteq> None" "find_open sector as s = (r, t)"
  shows "t = s" "r = Inr None \<and> (\<forall>a \<in> set as. \<forall>i. inodes s a = Some i \<longrightarrow> isector i \<noteq> sector) \<or>
    (\<exists>a i. a \<in> set as \<and> r = Inr (Some a) \<and> inodes s a = Some i \<and> isector i = sector)"
proof -
  have "t = s \<and> (r = Inr None \<and> (\<forall>a \<in> set as. \<forall>i. inodes s a = Some i \<longrightarrow> isector i \<noteq> sector) \<or>
    (\<exists>a i. a \<in> set as \<and> r = Inr (Some a) \<and> inodes s a = Some i \<and> isector i = sector))"
    using assms
  proof (induction as)
    case (Cons a as)
    then obtain i where i: "inodes s a = Some i" by auto
    show ?case
    proof (cases "isector i = sector")
      case True
      with Cons.prems i show ?thesis by (auto simp: get_inode_def bnd_apply)
    next
      case False
      then have "find_open sector as s = (r, t)" using Cons.prems i by (simp add: get_inode_def bnd_apply)
      with Cons.IH Cons.prems(1) i False show ?thesis by fastforce
    qed
  qed simp
  then show "t = s" "r = Inr None \<and> (\<forall>a \<in> set as. \<forall>i. inodes s a = Some i \<longrightarrow> isector i \<noteq> sector) \<or>
    (\<exists>a i. a \<in> set as \<and> r = Inr (Some a) \<and> inodes s a = Some i \<and> isector i = sector)" by blast+
qed

lemma wf_open_reopen:
  assumes "wf_open n s" "inode_reopen ino s = (Inr a, t)"
  shows "wf_open (Suc n) t"
proof (cases "ino = NULL")
  case True
  then show ?thesis using assms wf_open_Suc by (simp add: inode_reopen_def)
next
  case False
  then obtain i where i: "inodes s ino = Some i"
    using assms(2) by (auto simp: inode_reopen_def get_inode_def bnd_apply split: option.splits)
  let ?k = "i\<lparr>open_cnt := c_int (open_cnt i + 1)\<rparr>"
  have t: "t = s\<lparr>inodes := (inodes s)(ino := Some ?k)\<rparr>"
    using assms(2) False i by (auto simp: inode_reopen_def get_inode_def put_inode_def bnd_apply)
  show ?thesis
    unfolding t using wf_open_count [OF assms(1) i] by (intro wf_open_update [OF assms(1) i]) auto
qed

lemma wf_open_insert:
  assumes w: "wf_open n s" and new: "inodes s a = None" "a \<noteq> NULL" "a \<le> malloc_cnt t" "open_cnt k = 1"
      "\<And>b i. inodes s b = Some i \<Longrightarrow> isector i \<noteq> isector k"
    and t: "inodes t = (inodes s)(a := Some k)" "open_inodes t = a # open_inodes s" "malloc_cnt s \<le> malloc_cnt t"
  shows "wf_open (Suc n) t"
  unfolding wf_open_def
proof (intro conjI allI impI)
  have d: "dom (inodes s) = set (open_inodes s)" using w by (simp add: wf_open_def)
  show "distinct (open_inodes t)" using w new(1) d t(2) by (auto simp: wf_open_def)
  show "dom (inodes t) = set (open_inodes t)" using d t by simp
  fix b i
  assume b: "inodes t b = Some i"
  show "b \<noteq> NULL" "b \<le> malloc_cnt t"
    using b w new t by (cases "b = a"; fastforce simp: wf_open_def)+
  assume n: "Suc n < 2 ^ 31"
  have "1 \<le> open_cnt i \<and> open_cnt i \<le> int (Suc n)"
    using b t(1) new(4) wf_open_count [OF w, of b i] n by (cases "b = a") auto
  then show "1 \<le> open_cnt i" "open_cnt i \<le> int (Suc n)" by simp_all
next
  fix b c i j
  assume "inodes t b = Some i \<and> inodes t c = Some j \<and> isector i = isector j"
  then show "b = c" using w new(5) unfolding t(1) wf_open_def by (metis fun_upd_apply option.inject)
qed

lemma wf_open_open:
  assumes "wf_open n s" "inode_open sector s = (Inr a, t)"
  shows "wf_open (Suc n) t"
proof -
  have all: "\<forall>a \<in> set (open_inodes s). inodes s a \<noteq> None" using assms(1) by (auto simp: wf_open_def)
  obtain r u where f: "find_open sector (open_inodes s) s = (r, u)" by (cases "find_open sector (open_inodes s) s")
  note fr = find_open_result [OF all f]
  show ?thesis
  proof (cases "r = Inr None")
    case False
    then obtain b where "r = Inr (Some b)" using fr(2) by blast
    then have "inode_reopen b s = (Inr a, t)" using assms(2) f fr(1) by (simp add: inode_open_def bnd_apply)
    with wf_open_reopen [OF assms(1)] show ?thesis by blast
  next
    case True
    with fr(2) have new: "\<And>b i. inodes s b = Some i \<Longrightarrow> isector i \<noteq> sector" using assms(1) by (auto simp: wf_open_def)
    show ?thesis
    proof (cases "malloc_ok s (malloc_cnt s)")
      case False
      then have "t = s\<lparr>malloc_cnt := Suc (malloc_cnt s)\<rparr>"
        using assms(2) True f fr(1) by (simp add: inode_open_def bnd_apply kmalloc_def)
      then have "same_open s t" by (simp add: same_open_def)
      with wf_open_Suc [OF assms(1)] show ?thesis by (rule wf_open_same)
    next
      case m: True
      let ?a = "Suc (malloc_cnt s)"
      let ?u = "s\<lparr>malloc_cnt := ?a, open_inodes := ?a # open_inodes s\<rparr>"
      obtain q v where q: "fs_read sector ?u = (q, v)" by (cases "fs_read sector ?u")
      have so: "same_open ?u v" by (rule framesD [OF so_fs_read q])
      obtain buf where "q = Inr buf" and t: "t = v\<lparr>inodes := (inodes v)(?a := Some \<lparr>isector = sector, open_cnt = 1,
          removed = False, deny_write_cnt = 0, idata = dec_inode buf\<rparr>)\<rparr>"
        using assms(2) True f fr(1) m q
        by (cases q) (auto simp: inode_open_def bnd_apply kmalloc_def put_inode_def)
      have fresh: "inodes s ?a = None"
        using assms(1) unfolding wf_open_def by (metis Suc_n_not_le_n not_None_eq)
      show ?thesis
        by (rule wf_open_insert [OF assms(1) fresh]) (use so new in \<open>auto simp: t same_open_def\<close>)
    qed
  qed
qed

lemma wf_open_close:
  assumes "wf_open n s" "inode_close ino s = (Inr (), t)"
  shows "wf_open n t"
proof (cases "ino = NULL")
  case False
  then obtain i where i: "inodes s ino = Some i"
    using assms(2) by (auto simp: inode_close_def get_inode_def bnd_apply split: option.splits)
  let ?i = "i\<lparr>open_cnt := c_int (open_cnt i - 1)\<rparr>"
  let ?u = "s\<lparr>inodes := (inodes s)(ino := Some ?i)\<rparr>"
  show ?thesis
  proof (cases "c_int (open_cnt i - 1) = 0")
    case more: False
    then have t: "t = ?u" using assms(2) False i by (simp add: inode_close_def get_inode_def put_inode_def bnd_apply Let_def)
    have "1 \<le> open_cnt ?i \<and> open_cnt ?i \<le> int n" if "n < 2 ^ 31"
    proof -
      have o: "1 \<le> open_cnt i" "open_cnt i \<le> int n" "int n < 2 ^ 31"
        using wf_open_count [OF assms(1) i that] that by auto
      then have "c_int (open_cnt i - 1) = open_cnt i - 1" by (intro c_int_id) linarith+
      with o more show ?thesis by simp
    qed
    then show ?thesis unfolding t by (intro wf_open_update [OF assms(1) i]) simp_all
  next
    case True
    let ?v = "?u\<lparr>open_inodes := remove1 ino (open_inodes s)\<rparr>"
    let ?m = "if removed ?i then bnd (free_map_release (isector ?i) 1) (\<lambda>_.
                 free_map_release (start (idata ?i)) (bytes_to_sectors (ilength (idata ?i)))) else ret ()"
    obtain r w where w: "?m ?v = (r, w)" by (cases "?m ?v")
    have "frames same_open ?m" by (intro frames_if so_bnd so_free_map_release so_basic)
    then have so: "same_open ?v w" using w by (rule framesD)
    obtain x where "r = Inr x" and t: "t = w\<lparr>inodes := (inodes w)(ino := None)\<rparr>"
      using assms(2) False i True w
      by (cases r) (simp_all add: inode_close_def get_inode_def put_inode_def bnd_apply Let_def split: if_splits)
    have "set (remove1 ino (open_inodes s)) = set (open_inodes s) - {ino}" using assms(1) by (simp add: wf_open_def)
    moreover have "a \<le> malloc_cnt w" if "inodes s a = Some k" for a k
      using assms(1) so that le_trans by (fastforce simp: wf_open_def same_open_def)
    ultimately show ?thesis
      using assms(1) so unfolding wf_open_def t same_open_def by (auto split: if_splits)
  qed
qed (use assms in \<open>simp add: inode_close_def\<close>)


lemma so_read_loop: "frames same_open (read_loop n ino b m ofs out)"
proof (induction n arbitrary: b m ofs out)
  case (Suc n)
  show ?case
    unfolding read_loop.simps Let_def
    by (intro frames_if so_bnd so_basic so_get_inode so_get_bounce so_fs_read Suc)
qed (auto intro: frames_if so_basic)

text \<open>The histories of the inode module: any sequence of opens, reopens and closes, mixed with
  reads and writes. \<open>inode_run s0 n s\<close> counts the opens and reopens.\<close>

inductive inode_run :: "'a fs_scheme \<Rightarrow> nat \<Rightarrow> 'a fs_scheme \<Rightarrow> bool" for s0 where
  start: "inode_run s0 0 s0"
| opened: "inode_run s0 n s \<Longrightarrow> inode_open sector s = (Inr a, t) \<Longrightarrow> inode_run s0 (Suc n) t"
| reopened: "inode_run s0 n s \<Longrightarrow> inode_reopen ino s = (Inr a, t) \<Longrightarrow> inode_run s0 (Suc n) t"
| closed: "inode_run s0 n s \<Longrightarrow> inode_close ino s = (Inr (), t) \<Longrightarrow> inode_run s0 n t"
| data_read: "inode_run s0 n s \<Longrightarrow> inode_read_at ino m ofs s = (r, t) \<Longrightarrow> inode_run s0 n t"
| data_written: "inode_run s0 n s \<Longrightarrow> inode_write_at ino buf m ofs s = (q, t) \<Longrightarrow> inode_run s0 n t"

lemma inode_run_wf:
  assumes "inode_run s0 n s" "wf_open 0 s0"
  shows "wf_open n s"
  using assms
proof (induction rule: inode_run.induct)
  case (data_read n s ino m ofs r t)
  then have "same_open s t" using framesD [OF so_read_loop] unfolding inode_read_at_def by blast
  with data_read show ?case using wf_open_same by blast
next
  case (data_written n s ino buf m ofs q t)
  then have "same_open s t" using framesD [OF so_inode_write_at] by blast
  with data_written show ?case using wf_open_same by blast
qed (auto intro: wf_open_open wf_open_reopen wf_open_close)

lemma inode_open_known:
  assumes "wf_open n s" "inodes s a = Some i"
  shows "inode_open (isector i) s = (Inr a, s\<lparr>inodes := (inodes s)(a := Some (i\<lparr>open_cnt := c_int (open_cnt i + 1)\<rparr>))\<rparr>)"
proof -
  have all: "\<forall>a \<in> set (open_inodes s). inodes s a \<noteq> None" using assms(1) by (auto simp: wf_open_def)
  obtain r u where f: "find_open (isector i) (open_inodes s) s = (r, u)" by (cases "find_open (isector i) (open_inodes s) s")
  have mem: "a \<in> set (open_inodes s)" "a \<noteq> NULL" using assms by (auto simp: wf_open_def)
  have "\<exists>b j. r = Inr (Some b) \<and> inodes s b = Some j \<and> isector j = isector i"
    using find_open_result(2) [OF all f] mem(1) assms(2) by blast
  then have "r = Inr (Some a)" using assms by (auto simp: wf_open_def)
  with f find_open_result(1) [OF all f] mem(2) assms(2) show ?thesis
    by (simp add: inode_open_def inode_reopen_def get_inode_def put_inode_def bnd_apply)
qed

text \<open>C10: Starting from no open inode, however inodes are opened, reopened, closed, read and written, no two
  open inodes stand for the same sector, and opening a sector that is open returns the inode it already
  has, with the C \<open>int\<close> that counts its openers increased. As long as fewer than \<open>2 ^ 31 - 1\<close> opens and
  reopens have happened, the counter of every open inode is at least 1 and the increase does not wrap.\<close>

theorem open_inodes_shared:
  assumes "inode_run s0 n s" "open_inodes s0 = []" "inodes s0 = (\<lambda>_. None)"
  shows "(\<forall>a b i j. inodes s a = Some i \<and> inodes s b = Some j \<and> isector i = isector j \<longrightarrow> a = b) \<and>
    (\<forall>a i. inodes s a = Some i \<longrightarrow> (\<exists>t. inode_open (isector i) s = (Inr a, t) \<and>
         inodes t = (inodes s)(a := Some (i\<lparr>open_cnt := c_int (open_cnt i + 1)\<rparr>)) \<and> open_inodes t = open_inodes s) \<and>
       (n < 2 ^ 31 - 1 \<longrightarrow> 1 \<le> open_cnt i \<and> open_cnt i \<le> int n \<and> c_int (open_cnt i + 1) = open_cnt i + 1))"
proof -
  have "wf_open 0 s0" using assms(2,3) by (simp add: wf_open_def)
  with assms(1) have w: "wf_open n s" by (rule inode_run_wf)
  have "\<exists>t. inode_open (isector i) s = (Inr a, t) \<and>
       inodes t = (inodes s)(a := Some (i\<lparr>open_cnt := c_int (open_cnt i + 1)\<rparr>)) \<and> open_inodes t = open_inodes s"
    if "inodes s a = Some i" for a i
    using inode_open_known [OF w that] by simp
  moreover have "1 \<le> open_cnt i \<and> open_cnt i \<le> int n \<and> c_int (open_cnt i + 1) = open_cnt i + 1"
    if "inodes s a = Some i" "n < 2 ^ 31 - 1" for a i
    using wf_open_count [OF w that(1)] that(2) by auto
  moreover have "\<forall>a b i j. inodes s a = Some i \<and> inodes s b = Some j \<and> isector i = isector j \<longrightarrow> a = b"
    using w by (simp add: wf_open_def)
  ultimately show ?thesis by blast
qed

subsection \<open>What the operations promise\<close>

text \<open>C2: Bytes written to a file are the bytes read back from the same place, and no read of a file whose
  data lies elsewhere on the device can tell that the write happened.\<close>

theorem inode_write_then_read:
  assumes "fs_ok s" "\<And>n. malloc_ok s n" "inodes s ino = Some i" "data_ok s i" "deny_write_cnt i = 0"
    and "m \<le> length buffer" "ofs + m \<le> nat (inode_length i)"
    and "inodes s jno = Some j" "data_ok s j"
    and "start (idata i) * 512 + nat (inode_length i) \<le> start (idata j) * 512 \<or>
      start (idata j) * 512 + nat (inode_length j) \<le> start (idata i) * 512"
  shows "\<exists>t. inode_write_at ino buffer (int m) (int ofs) s = (Inr m, t) \<and>
    fst (inode_read_at ino (int m) (int ofs) t) = Inr (take m buffer) \<and>
    (\<forall>k p. fst (inode_read_at jno (int k) (int p) t) = fst (inode_read_at jno (int k) (int p) s))"
proof -
  have mm: "min m (nat (inode_length i) - ofs) = m" using assms(7) by simp
  obtain t where t: "inode_write_at ino buffer (int m) (int ofs) s = (Inr m, t)" "io_keeps s t"
      "dbyte t = put_bytes (dbyte s) (start (idata i) * 512 + ofs) (take m buffer)"
    using inode_write_ok [OF assms(1,3,4) assms(2) assms(5,6), of ofs] unfolding mm by blast
  note k = io_keepsD [OF t(2)]
  have mt: "malloc_ok t n" for n using assms(2) k(6) by simp
  have rd: "fst (inode_read_at a (int c) (int p) u) = Inr (file_bytes u x p (min c (nat (inode_length x) - p)))"
    if "fs_ok u" "inodes u a = Some x" "data_ok u x" "malloc_ok u (malloc_cnt u)" for a x c p and u :: "'a fs_scheme"
    using inode_read_ok [OF that, of c p] by auto
  have "file_bytes t i ofs m = take m buffer"
    using assms(6) by (auto simp: file_bytes_def t(3) put_bytes_def intro!: nth_equalityI)
  moreover have "file_bytes t j p (min c (nat (inode_length j) - p)) = file_bytes s j p (min c (nat (inode_length j) - p))" for c p
    unfolding file_bytes_def using assms(6,7,10) by (intro map_cong) (auto simp: t(3) put_bytes_def)
  ultimately show ?thesis
    using t(1) rd [OF k(1) _ _ mt] rd [OF assms(1) assms(8,9) assms(2)] assms(3,4,8,9) k(3) data_ok_keeps [OF t(2)] mm
    by auto
qed

text \<open>C8: The free map hands out only sectors that no file uses, and records the new run in memory and on the
  device. It refuses in two cases only. Either no run of that length is free, and then nothing has
  changed; or the memory to write the map through could not be allocated, and then the map in memory
  records the same runs as before, and no byte of a run other than the free map's own data has changed
  on the device.\<close>

theorem free_map_allocate_fresh:
  assumes "fm_state s i runs"
  shows "free_map_allocate cnt s = (Inr None, s) \<and> (\<forall>k. k + cnt \<le> fs_size s \<longrightarrow> (\<exists>j \<in> {k..<k + cnt}. covers runs j)) \<or>
    (\<exists>st t. free_map_allocate cnt s = (Inr (Some st), t) \<and> (\<forall>j \<in> {st..<st + cnt}. \<not> covers runs j) \<and>
       fm_state t i ((st, cnt) # runs) \<and> synced t i \<and> inodes t = inodes s \<and> files t = files s \<and>
       (\<forall>r \<in> set runs - {data_run i}. kept_run s t r)) \<or>
    (\<exists>t. free_map_allocate cnt s = (Inr None, t) \<and> \<not> malloc_ok s (malloc_cnt s) \<and>
       fm_state t i runs \<and> (\<forall>j. bm_bit (free_map t) j \<longleftrightarrow> bm_bit (free_map s) j) \<and> inodes t = inodes s \<and> files t = files s \<and>
       (\<forall>r \<in> set runs - {data_run i}. kept_run s t r))"
  using free_map_allocate_cases [OF assms, of cnt]
proof (elim disjE exE conjE)
  fix st t
  assume t: "free_map_allocate cnt s = (Inr (Some st), t)" "alloc_taken s i runs cnt st t"
  then have a: "fm_state t i ((st, cnt) # runs)" "fm_keeps s t" "synced t i" "\<forall>j \<in> {st..<st + cnt}. \<not> covers runs j"
      "dbyte t = put_bytes (dbyte s) (start (idata i) * 512) (take (bitmap_file_size (free_map t)) (bitmap_bytes (free_map t)))"
    by (auto simp: alloc_taken_def)
  have "wf_bitmap (free_map t)" "bit_cnt (free_map t) = bit_cnt (free_map s)"
    using a(1) assms fm_keepsD(2) [OF a(2)] by (auto simp: fm_state_def bm.tracks_def)
  then have "\<forall>r \<in> set runs - {data_run i}. kept_run s t r"
    using fm_part_kept [OF assms _ _ order_refl a(5)] by blast
  with t(1) a fm_keepsD(3,4) [OF a(2)] show ?thesis by blast
next
  fix t
  assume t: "free_map_allocate cnt s = (Inr None, t)" "alloc_undone s i runs cnt t"
  then obtain b k where a: "\<not> malloc_ok s (malloc_cnt s)" "fm_state t i runs" "fm_keeps s t"
      "wf_bitmap b" "bit_cnt b = bit_cnt (free_map s)" "k \<le> bitmap_file_size b"
      "dbyte t = put_bytes (dbyte s) (start (idata i) * 512) (take k (bitmap_bytes b))"
    unfolding alloc_undone_def using less_imp_le_nat by blast
  have "\<forall>r \<in> set runs - {data_run i}. kept_run s t r" using fm_part_kept [OF assms a(4-7)] by blast
  moreover have "\<forall>j. bm_bit (free_map t) j \<longleftrightarrow> bm_bit (free_map s) j"
    using a(2) assms by (simp add: fm_state_def bm.tracks_def)
  ultimately show ?thesis using t(1) a(1,2) fm_keepsD(3,4) [OF a(3)] by blast
qed blast

text \<open>C9: When no allocation of memory fails, a run given back to the free map is free again, in memory and on
  the device, and no other run is affected.\<close>

theorem free_map_release_returns:
  assumes "fm_inv s i runs" "(st, cnt) \<in> set runs" "(st, cnt) \<noteq> data_run i"
  shows "\<exists>t. free_map_release st cnt s = (Inr (), t) \<and> fm_inv t i (remove1 (st, cnt) runs) \<and> synced t i \<and>
    (\<forall>j. bm_bit (free_map t) j \<longleftrightarrow> bm_bit (free_map s) j \<and> \<not> (st \<le> j \<and> j < st + cnt))"
proof -
  obtain t where t: "free_map_release st cnt s = (Inr (), t)" "fm_inv t i (remove1 (st, cnt) runs)" "synced t i"
    using free_map_release_ok [OF assms] by blast
  then show ?thesis
    using assms(1,2) covers_remove1 [of runs st cnt] by (auto simp: fm_inv_def bm.tracks_def)
qed

text \<open>C7: When no allocation of memory fails, creating an inode either fails and leaves every byte of the
  device as it was, or writes an inode that describes a run of zeroed sectors that no file used; no byte
  of another file changes.\<close>

theorem inode_create_isolated:
  assumes "fm_inv s i runs" "(sector, 1) \<in> set runs" "(sector, 1) \<noteq> data_run i" "0 \<le> len" "len < 2 ^ 31"
  shows "\<exists>b t. inode_create sector len s = (Inr b, t) \<and>
    (if b then \<exists>st. dec_inode (dsec t sector) = \<lparr>start = st, ilength = len, magic = INODE_MAGIC\<rparr> \<and>
         (\<forall>j \<in> {st..<st + bytes_to_sectors len}. \<not> covers runs j \<and> dsec t j = replicate 512 0) \<and>
         fm_inv t i ((st, bytes_to_sectors len) # runs) \<and>
         (\<forall>r \<in> set runs - {(sector, 1), data_run i}. kept_run s t r)
     else dbyte t = dbyte s \<and> fm_inv t i runs)"
proof -
  from inode_create_ok [OF assms(1-4)] show ?thesis
  proof (elim disjE exE conjE)
    fix t
    assume "inode_create sector len s = (Inr False, t)" "dbyte t = dbyte s" "fm_inv t i runs"
    then show ?thesis by auto
  next
    fix st t
    let ?n = "bytes_to_sectors len"
    assume t: "inode_create sector len s = (Inr True, t)" "fm_inv t i ((st, ?n) # runs)" "created s i sector len st t"
      and room: "st + ?n \<le> fs_size s"
    have new: "\<forall>j \<in> {st..<st + ?n}. \<not> covers runs j" using t(2) by (simp add: fm_inv_def bm.tracks_def)
    have ok: "fs_ok s" using assms(1) by (simp add: fm_inv_def)
    have "dec_inode (dsec t sector) = \<lparr>start = st, ilength = len, magic = INODE_MAGIC\<rparr>"
      using t(3) room fs_size_small [OF ok] assms(4,5) by (simp add: created_def dec_enc_inode)
    moreover have "dsec t j = replicate 512 0" if "j \<in> {st..<st + ?n}" for j
    proof -
      have "j - st < ?n" "st + (j - st) = j" using that by auto
      then show ?thesis using t(3) unfolding created_def by metis
    qed
    moreover have "\<forall>r \<in> set runs - {(sector, 1), data_run i}. kept_run s t r"
      using created_kept [OF assms(1) new t(3) _ _ _ assms(2)] by blast
    ultimately show ?thesis using t(1,2) new by auto
  qed
qed

subsection \<open>A small file system\<close>

text \<open>A device of 64 empty sectors. The inode of the free map is in sector 0 and its data in sector 2; the
  inode of the root directory is in sector 1 and its data in sector 3; sector 4 has been taken for a
  new inode. A second inode, open at address 2, has its data in sectors 8 and 9.\<close>

definition ex_runs :: "(nat \<times> nat) list" where
  "ex_runs = [(0, 1), (1, 1), (2, 1), (3, 1), (4, 1)]"

definition ex_fm_inode :: inode where
  "ex_fm_inode = \<lparr>isector = 0, open_cnt = 1, removed = False, deny_write_cnt = 0,
     idata = \<lparr>start = 2, ilength = 8, magic = INODE_MAGIC\<rparr>\<rparr>"

definition ex_inode :: inode where
  "ex_inode = \<lparr>isector = 7, open_cnt = 1, removed = False, deny_write_cnt = 0,
     idata = \<lparr>start = 8, ilength = 600, magic = INODE_MAGIC\<rparr>\<rparr>"

definition ex_block :: block where
  "ex_block = \<lparr>bname = ''hda'', btype = BLOCK_FILESYS, bsize = 64, ops_aux = Drive (\<lambda>_. replicate 512 0),
     read_cnt = 0, write_cnt = 0\<rparr>"

definition ex_fs :: fs where
  "ex_fs = kern.extend (mach.extend ex_mach \<lparr>malloc_ok = \<lambda>_. True, malloc_cnt = 10, all_blocks = [ex_block],
       block_by_role = (\<lambda>_. None)(BLOCK_FILESYS := Some 0)\<rparr>)
     \<lparr>fs_device = 0, free_map = \<lparr>bit_cnt = 64, bits = [31, 0]\<rparr>, free_map_file = 3, open_inodes = [2, 1],
      inodes = [1 \<mapsto> ex_fm_inode, 2 \<mapsto> ex_inode], files = [3 \<mapsto> \<lparr>finode = 1, pos = 0, deny_write = False\<rparr>],
      filesys_sema = 1\<rparr>"

lemma ex_fs_simps [simp]:
  "malloc_ok ex_fs n" "malloc_cnt ex_fs = 10" "all_blocks ex_fs = [ex_block]" "fs_device ex_fs = 0"
  "free_map ex_fs = \<lparr>bit_cnt = 64, bits = [31, 0]\<rparr>" "free_map_file ex_fs = 3" "open_inodes ex_fs = [2, 1]"
  "inodes ex_fs = [1 \<mapsto> ex_fm_inode, 2 \<mapsto> ex_inode]" "files ex_fs = [3 \<mapsto> \<lparr>finode = 1, pos = 0, deny_write = False\<rparr>]"
  by (simp_all add: ex_fs_def kern.extend_def mach.extend_def)

lemma ex_fs_ok: "fs_ok ex_fs"
  by (simp add: fs_ok_def dev_ok_def wf_blocks_def ex_block_def BLOCK_SECTOR_SIZE_def)

lemma ex_fs_size [simp]: "fs_size ex_fs = 64"
  by (simp add: fs_size_def block_size_def ex_block_def)

lemma bit_31: "bit (31 :: int) j \<longleftrightarrow> j < 5"
proof -
  have "(31 :: int) = mask 5" by (simp add: mask_eq_exp_minus_1)
  then show ?thesis by (simp only: bit_mask_iff) auto
qed

lemma ex_fs_tracks: "bm.tracks (free_map ex_fs) ex_runs"
proof -
  have "bm_bit (free_map ex_fs) j \<longleftrightarrow> j < 5" for j
    by (cases "j < 32") (auto simp: bm_bit_def bit_31 nth_Cons' less_Suc_eq)
  moreover have "covers ex_runs j \<longleftrightarrow> j < 5" for j
    by (auto simp: covers_def ex_runs_def)
  ultimately show ?thesis
    by (simp add: bm.tracks_def wf_bitmap_def runs_within_def ex_runs_def covers_Cons)
qed

lemma ex_fm_inv: "fm_inv ex_fs ex_fm_inode ex_runs"
  using ex_fs_ok ex_fs_tracks
  by (simp add: fm_inv_def fm_file_def data_ok_def inode_length_def data_run_def bytes_to_sectors_small ex_runs_def
      byte_cnt_def elem_cnt_def DIV_ROUND_UP_def ELEM_BITS_def ex_fm_inode_def)

lemma ex_data_run: "data_run ex_fm_inode = (2, 1)"
  by (simp add: data_run_def inode_length_def ex_fm_inode_def bytes_to_sectors_small)

lemma ex_fm_state:
  "fm_state ex_fs ex_fm_inode ex_runs"
  "fm_state (ex_fs\<lparr>malloc_ok := \<lambda>_. False\<rparr>) ex_fm_inode ex_runs"
proof -
  show st: "fm_state ex_fs ex_fm_inode ex_runs" using ex_fm_inv by (simp add: fm_inv_state)
  let ?t = "ex_fs\<lparr>malloc_ok := \<lambda>_. False\<rparr>"
  have "fs_ok ?t = fs_ok ex_fs" "fs_size ?t = fs_size ex_fs" by (simp_all add: fs_ok_def dev_ok_def fs_size_def block_size_def)
  with st show "fm_state ?t ex_fm_inode ex_runs" by (auto simp: fm_state_def fm_file_def data_ok_def)
qed

theorem free_map_allocate_witness:
  "fm_state ex_fs ex_fm_inode ex_runs \<and>
   (\<exists>st t. free_map_allocate 2 ex_fs = (Inr (Some st), t) \<and> (\<forall>j \<in> {st..<st + 2}. \<not> covers ex_runs j)) \<and>
   (\<exists>r t. free_map_allocate 2 (ex_fs\<lparr>malloc_ok := \<lambda>_. False\<rparr>) = (Inr r, t) \<and>
      fm_state t ex_fm_inode (case r of None \<Rightarrow> ex_runs | Some st \<Rightarrow> (st, 2) # ex_runs))"
proof -
  have free: "\<not> (\<forall>k. k + 2 \<le> (64::nat) \<longrightarrow> (\<exists>j \<in> {k..<k + 2}. covers ex_runs j))"
    by (auto simp: covers_def ex_runs_def intro!: exI [of _ 10])
  have "\<exists>st t. free_map_allocate 2 ex_fs = (Inr (Some st), t) \<and> (\<forall>j \<in> {st..<st + 2}. \<not> covers ex_runs j)"
    using free_map_allocate_fresh [OF ex_fm_state(1), of 2] free by auto
  moreover have "\<exists>r t. free_map_allocate 2 (ex_fs\<lparr>malloc_ok := \<lambda>_. False\<rparr>) = (Inr r, t) \<and>
      fm_state t ex_fm_inode (case r of None \<Rightarrow> ex_runs | Some st \<Rightarrow> (st, 2) # ex_runs)"
    using free_map_allocate_fresh [OF ex_fm_state(2), of 2]
  proof (elim disjE exE conjE)
    assume "free_map_allocate 2 (ex_fs\<lparr>malloc_ok := \<lambda>_. False\<rparr>) = (Inr None, ex_fs\<lparr>malloc_ok := \<lambda>_. False\<rparr>)"
    with ex_fm_state(2) show ?thesis by (intro exI [of _ None] exI conjI) simp_all
  next
    fix st t
    assume "free_map_allocate 2 (ex_fs\<lparr>malloc_ok := \<lambda>_. False\<rparr>) = (Inr (Some st), t)" "fm_state t ex_fm_inode ((st, 2) # ex_runs)"
    then show ?thesis by (intro exI [of _ "Some st"] exI [of _ t]) simp
  next
    fix t
    assume "free_map_allocate 2 (ex_fs\<lparr>malloc_ok := \<lambda>_. False\<rparr>) = (Inr None, t)" "fm_state t ex_fm_inode ex_runs"
    then show ?thesis by (intro exI [of _ None] exI [of _ t]) simp
  qed
  ultimately show ?thesis using ex_fm_state(1) by blast
qed

theorem free_map_release_witness:
  "(4, 1) \<in> set ex_runs \<and> (\<exists>t. free_map_release 4 1 ex_fs = (Inr (), t) \<and> fm_inv t ex_fm_inode (remove1 (4, 1) ex_runs) \<and>
     \<not> bm_bit (free_map t) 4)"
  using free_map_release_returns [OF ex_fm_inv, of 4 1] by (auto simp: ex_runs_def ex_data_run)

theorem inode_create_witness:
  "fm_inv ex_fs ex_fm_inode ex_runs \<and> (4, 1) \<in> set ex_runs - {data_run ex_fm_inode} \<and> (\<exists>b t. inode_create 4 700 ex_fs = (Inr b, t))"
proof -
  have m: "(4, 1) \<in> set ex_runs" "(4, 1) \<noteq> data_run ex_fm_inode" "0 \<le> (700::int)" "(700::int) < 2 ^ 31"
    by (simp_all add: ex_runs_def ex_data_run)
  from inode_create_isolated [OF ex_fm_inv this] obtain b t where "inode_create 4 700 ex_fs = (Inr b, t)"
    by (elim exE conjE)
  then have "\<exists>b t. inode_create 4 700 ex_fs = (Inr b, t)" by (intro exI)
  with ex_fm_inv m(1,2) show ?thesis by (simp only: Diff_iff singleton_iff simp_thms)
qed

theorem inode_write_then_read_witness:
  "\<exists>t. inode_write_at 2 [1, 2, 3] 3 510 ex_fs = (Inr 3, t) \<and> fst (inode_read_at 2 3 510 t) = Inr [1, 2, 3] \<and>
     fst (inode_read_at 1 8 0 t) = fst (inode_read_at 1 8 0 ex_fs)"
proof -
  have "data_ok ex_fs ex_inode" "data_ok ex_fs ex_fm_inode"
    by (simp_all add: data_ok_def inode_length_def ex_inode_def ex_fm_inode_def)
  then show ?thesis
    using inode_write_then_read [OF ex_fs_ok, of 2 ex_inode 3 "[1, 2, 3]" 510 1 ex_fm_inode]
    by (force simp: inode_length_def ex_inode_def ex_fm_inode_def dest: spec [of _ 8] spec [of _ 0])
qed

theorem open_inodes_shared_witness:
  "\<exists>t. inode_open 5 (ex_fs\<lparr>open_inodes := [], inodes := (\<lambda>_. None)\<rparr>) = (Inr 11, t) \<and> inodes t 11 \<noteq> None \<and>
     fst (inode_open 5 t) = Inr 11"
proof -
  let ?s = "ex_fs\<lparr>open_inodes := [], inodes := (\<lambda>_. None)\<rparr>"
  let ?u = "?s\<lparr>malloc_cnt := 11, open_inodes := [11]\<rparr>"
  have "fs_ok ?u" "5 < fs_size ?u"
    using ex_fs_ok ex_fs_size by (simp_all add: fs_ok_def dev_ok_def fs_size_def block_size_def)
  then obtain v where v: "fs_read 5 ?u = (Inr (dsec ?u 5), v)" "io_keeps ?u v" using fs_read_ok by blast
  let ?i = "\<lparr>isector = 5, open_cnt = 1, removed = False, deny_write_cnt = 0, idata = dec_inode (dsec ?u 5)\<rparr>"
  let ?t = "v\<lparr>inodes := (inodes v)(11 := Some ?i)\<rparr>"
  have t: "inode_open 5 ?s = (Inr 11, ?t)"
    using v(1) by (simp add: inode_open_def bnd_apply kmalloc_def put_inode_def)
  then have run: "inode_run ?s (Suc 0) ?t" by (rule inode_run.opened [OF inode_run.start])
  have "open_inodes ?s = []" "inodes ?s = (\<lambda>_. None)" "inodes ?t 11 = Some ?i" by simp_all
  from open_inodes_shared [OF run this(1,2), THEN conjunct2, THEN spec [of _ 11], THEN spec [of _ ?i], THEN mp, OF this(3)]
  obtain w where "inode_open (isector ?i) ?t = (Inr 11, w)" "open_cnt ?i \<le> int (Suc 0)" by auto
  then have "fst (inode_open 5 ?t) = Inr 11" by simp
  with t show ?thesis by auto
qed

end
