(* ===== verification/Directory.thy ===== *)
theory Directory
  imports Files
begin

text \<open>
  Directories, from \<^verbatim>\<open>filesys/directory.c\<close>: a file of 20-byte entries, each a sector number, a
  name of at most 14 bytes with its terminator, and a flag. A \<open>struct dir\<close> is a value; a name is
  the list of its bytes without the terminator. The bytes of a \<open>struct dir_entry\<close> on the stack
  are kept as they are, because \<open>strlcpy\<close> leaves the bytes after the terminator alone. A name whose
  15 bytes hold no terminator, which no routine here writes, is read on into the flag by \<open>strcmp\<close>, and
  so it is here; what \<open>strcmp\<close> would find behind the structure is not modelled, the name ends there.

  \<open>dir_map\<close> reads a directory as a finite map from names to sectors: \<open>lookup\<close> reads that map,
  \<open>dir_add\<close> and \<open>dir_remove\<close> update it at one name.
\<close>

definition NAME_MAX :: nat where "NAME_MAX = 14"

record dir =
  dinode :: addr
  dpos :: int

definition ENTRY_SIZE :: nat where "ENTRY_SIZE = 20"

text \<open>The members of the 20 bytes of a \<open>struct dir_entry\<close>.\<close>

definition e_sector :: "u8 list \<Rightarrow> nat" where
  "e_sector e = unat (u32_at e 0)"

definition e_name :: "u8 list \<Rightarrow> u8 list" where
  "e_name e = takeWhile (\<lambda>b. b \<noteq> 0) (drop 4 e)"

definition e_in_use :: "u8 list \<Rightarrow> bool" where
  "e_in_use e \<longleftrightarrow> e ! 19 \<noteq> 0"

text \<open>The product is computed in \<open>size_t\<close> and becomes the \<open>off_t\<close> length of the inode.\<close>

definition dir_create :: "nat \<Rightarrow> nat \<Rightarrow> ('a fs_scheme, bool) op" where
  "dir_create sector entry_cnt = inode_create sector (c_int (int (sz (entry_cnt * ENTRY_SIZE))))"

definition dir_open :: "addr \<Rightarrow> ('a fs_scheme, dir option) op" where
  "dir_open ino = bnd kmalloc (\<lambda>d.
     if ino \<noteq> NULL \<and> d \<noteq> NULL then ret (Some \<lparr>dinode = ino, dpos = 0\<rparr>)
     else bnd (inode_close ino) (\<lambda>_. ret None))"

definition dir_open_root :: "('a fs_scheme, dir option) op" where
  "dir_open_root = bnd (inode_open ROOT_DIR_SECTOR) dir_open"

definition dir_reopen :: "dir \<Rightarrow> ('a fs_scheme, dir option) op" where
  "dir_reopen d = bnd (inode_reopen (dinode d)) dir_open"

definition dir_close :: "dir option \<Rightarrow> ('a fs_scheme, unit) op" where
  "dir_close d = (case d of None \<Rightarrow> ret () | Some d \<Rightarrow> inode_close (dinode d))"

fun lookup_loop :: "nat \<Rightarrow> addr \<Rightarrow> u8 list \<Rightarrow> nat \<Rightarrow> ('a fs_scheme, (u8 list \<times> nat) option) op" where
  "lookup_loop 0 ino name ofs = fail OutOfFuel"
| "lookup_loop (Suc n) ino name ofs =
     bnd (inode_read_at ino (int ENTRY_SIZE) (int ofs)) (\<lambda>e.
       if length e \<noteq> ENTRY_SIZE then ret None
       else if e_in_use e \<and> name = e_name e then ret (Some (e, ofs))
       else lookup_loop n ino name (ofs + ENTRY_SIZE))"

text \<open>The loops stop at the end of the file; one iteration more than it has entries is enough.\<close>

definition entry_fuel :: "inode \<Rightarrow> nat" where
  "entry_fuel i = Suc (nat (inode_length i) div ENTRY_SIZE)"

definition lookup :: "dir \<Rightarrow> u8 list \<Rightarrow> ('a fs_scheme, (u8 list \<times> nat) option) op" where
  "lookup d name = bnd (get_inode (dinode d)) (\<lambda>i. lookup_loop (entry_fuel i) (dinode d) name 0)"

definition dir_lookup :: "dir \<Rightarrow> u8 list \<Rightarrow> ('a fs_scheme, addr) op" where
  "dir_lookup d name = bnd (lookup d name) (\<lambda>r.
     case r of None \<Rightarrow> ret NULL | Some (e, _) \<Rightarrow> inode_open (e_sector e))"

text \<open>The search for a free slot, with the entry it leaves in \<open>e\<close>.\<close>

fun slot_loop :: "nat \<Rightarrow> addr \<Rightarrow> u8 list \<Rightarrow> nat \<Rightarrow> ('a fs_scheme, u8 list \<times> nat) op" where
  "slot_loop 0 ino e ofs = fail OutOfFuel"
| "slot_loop (Suc n) ino e ofs =
     bnd (inode_read_at ino (int ENTRY_SIZE) (int ofs)) (\<lambda>bs.
       let e = bs @ drop (length bs) e in
       if length bs \<noteq> ENTRY_SIZE then ret (e, ofs)
       else if \<not> e_in_use e then ret (e, ofs)
       else slot_loop n ino e (ofs + ENTRY_SIZE))"

text \<open>\<open>strlcpy (e.name, name, sizeof e.name)\<close>, \<open>e.in_use = true\<close> and \<open>e.inode_sector = sector\<close>.\<close>

definition fill_entry :: "u8 list \<Rightarrow> u8 list \<Rightarrow> nat \<Rightarrow> u8 list" where
  "fill_entry e name sector = u32_bytes (of_nat sector) @ take NAME_MAX name @ [0] @
     drop (4 + length (take NAME_MAX name) + 1) (take 19 e) @ [1]"

definition dir_add :: "u8 list \<Rightarrow> dir \<Rightarrow> u8 list \<Rightarrow> nat \<Rightarrow> ('a fs_scheme, bool) op" where
  "dir_add e0 d name sector =
     (if name = [] \<or> length name > NAME_MAX then ret False else
      bnd (lookup d name) (\<lambda>r. if r \<noteq> None then ret False else
      bnd (get_inode (dinode d)) (\<lambda>i.
      bnd (slot_loop (entry_fuel i) (dinode d) e0 0) (\<lambda>(e, ofs).
      bnd (inode_write_at (dinode d) (fill_entry e name sector) (int ENTRY_SIZE) (int ofs)) (\<lambda>n.
      ret (n = ENTRY_SIZE))))))"

definition dir_remove :: "dir \<Rightarrow> u8 list \<Rightarrow> ('a fs_scheme, bool) op" where
  "dir_remove d name =
     bnd (lookup d name) (\<lambda>r. case r of None \<Rightarrow> ret False
     | Some (e, ofs) \<Rightarrow>
         bnd (inode_open (e_sector e)) (\<lambda>ino. if ino = NULL then ret False else
         bnd (inode_write_at (dinode d) (e[19 := 0]) (int ENTRY_SIZE) (int ofs)) (\<lambda>n.
         if n \<noteq> ENTRY_SIZE then bnd (inode_close ino) (\<lambda>_. ret False)
         else bnd (inode_remove ino) (\<lambda>_. bnd (inode_close ino) (\<lambda>_. ret True)))))"

fun readdir_loop :: "nat \<Rightarrow> dir \<Rightarrow> ('a fs_scheme, u8 list option \<times> dir) op" where
  "readdir_loop 0 d = fail OutOfFuel"
| "readdir_loop (Suc n) d =
     bnd (inode_read_at (dinode d) (int ENTRY_SIZE) (dpos d)) (\<lambda>e.
       if length e \<noteq> ENTRY_SIZE then ret (None, d)
       else let d = d\<lparr>dpos := dpos d + int ENTRY_SIZE\<rparr> in
         if e_in_use e then ret (Some (take NAME_MAX (e_name e)), d) else readdir_loop n d)"

definition dir_readdir :: "dir \<Rightarrow> ('a fs_scheme, u8 list option \<times> dir) op" where
  "dir_readdir d = bnd (get_inode (dinode d)) (\<lambda>i. readdir_loop (entry_fuel i) d)"

subsection \<open>A directory as a map\<close>

definition entry :: "'a fs_scheme \<Rightarrow> inode \<Rightarrow> nat \<Rightarrow> u8 list" where
  "entry s i k = file_bytes s i (20 * k) 20"

definition n_entries :: "inode \<Rightarrow> nat" where
  "n_entries i = nat (inode_length i) div 20"

definition entry_is :: "'a fs_scheme \<Rightarrow> inode \<Rightarrow> u8 list \<Rightarrow> nat \<Rightarrow> bool" where
  "entry_is s i name k \<longleftrightarrow> e_in_use (entry s i k) \<and> name = e_name (entry s i k)"

definition slot_of :: "'a fs_scheme \<Rightarrow> inode \<Rightarrow> u8 list \<Rightarrow> nat option" where
  "slot_of s i name = List.find (entry_is s i name) [0..<n_entries i]"

definition dir_map :: "'a fs_scheme \<Rightarrow> inode \<Rightarrow> u8 list \<Rightarrow> nat option" where
  "dir_map s i name = map_option (\<lambda>k. e_sector (entry s i k)) (slot_of s i name)"

definition unique_names :: "'a fs_scheme \<Rightarrow> inode \<Rightarrow> bool" where
  "unique_names s i \<longleftrightarrow> (\<forall>j k name. j < n_entries i \<and> k < n_entries i \<and> entry_is s i name j \<and> entry_is s i name k \<longrightarrow> j = k)"

text \<open>The state in which a directory can be used: its inode \<open>i\<close> is open at \<open>ino\<close>, its data lies on the
  device, and no allocation of memory fails.\<close>

definition dir_ok :: "'a fs_scheme \<Rightarrow> addr \<Rightarrow> inode \<Rightarrow> bool" where
  "dir_ok s ino i \<longleftrightarrow> fs_ok s \<and> (\<forall>n. malloc_ok s n) \<and> inodes s ino = Some i \<and> data_ok s i"

lemma dir_ok_keeps: "dir_ok s ino i \<Longrightarrow> io_keeps s t \<Longrightarrow> dir_ok t ino i"
  by (simp add: dir_ok_def io_keepsD data_ok_keeps)

lemma entry_same: "dbyte t = dbyte s \<Longrightarrow> entry t i = entry s i"
  by (simp add: entry_def file_bytes_def fun_eq_iff)

lemma length_entry [simp]: "length (entry s i k) = 20"
  by (simp add: entry_def file_bytes_def)

lemma read_entry:
  assumes "dir_ok s ino i" "k < n_entries i"
  shows "\<exists>t. inode_read_at ino (int ENTRY_SIZE) (int (20 * k)) s = (Inr (entry s i k), t) \<and> io_keeps s t \<and> dbyte t = dbyte s"
proof -
  have "20 * Suc k \<le> 20 * n_entries i" using assms(2) by simp
  then have "min 20 (nat (inode_length i) - 20 * k) = 20" by (simp add: n_entries_def)
  then show ?thesis
    using inode_read_ok [of s ino i 20 "20 * k"] assms(1) by (simp add: dir_ok_def ENTRY_SIZE_def entry_def)
qed

lemma read_past_entries:
  assumes "dir_ok s ino i"
  shows "\<exists>bs t. inode_read_at ino (int ENTRY_SIZE) (int (20 * n_entries i)) s = (Inr bs, t) \<and> length bs < 20 \<and>
    io_keeps s t \<and> dbyte t = dbyte s"
proof -
  have "nat (inode_length i) - 20 * n_entries i < 20" by (simp add: n_entries_def)
  then show ?thesis
    using inode_read_ok [of s ino i 20 "20 * n_entries i"] assms
    by (auto simp: dir_ok_def ENTRY_SIZE_def file_bytes_def)
qed

lemma find_upt_Cons:
  "k < n \<Longrightarrow> List.find P [k..<n] = (if P k then Some k else List.find P [Suc k..<n])"
  by (simp add: upt_conv_Cons)

lemma lookup_loop_ok:
  assumes "dir_ok s ino i" "k \<le> n_entries i" "n_entries i - k < n"
  shows "\<exists>t. lookup_loop n ino name (20 * k) s =
      (Inr (map_option (\<lambda>j. (entry s i j, 20 * j)) (List.find (entry_is s i name) [k..<n_entries i])), t) \<and>
    io_keeps s t \<and> dbyte t = dbyte s"
  using assms
proof (induction n arbitrary: k s)
  case (Suc n)
  show ?case
  proof (cases "k = n_entries i")
    case True
    with read_past_entries [OF Suc.prems(1)] show ?thesis by (auto simp: bnd_apply ENTRY_SIZE_def)
  next
    case False
    then have k: "k < n_entries i" using Suc.prems(2) by simp
    obtain t where t: "inode_read_at ino (int ENTRY_SIZE) (int (20 * k)) s = (Inr (entry s i k), t)" "io_keeps s t" "dbyte t = dbyte s"
      using read_entry [OF Suc.prems(1) k] by blast
    have same: "entry t i = entry s i" "entry_is t i name = entry_is s i name"
      using entry_same [OF t(3)] by (auto simp: entry_is_def fun_eq_iff)
    obtain u where "lookup_loop n ino name (20 * Suc k) t =
        (Inr (map_option (\<lambda>j. (entry s i j, 20 * j)) (List.find (entry_is s i name) [Suc k..<n_entries i])), u)"
        "io_keeps t u" "dbyte u = dbyte s"
      using Suc.IH [of t "Suc k", OF dir_ok_keeps [OF Suc.prems(1) t(2)] Suc_leI [OF k]] k Suc.prems(3) t(3)
      unfolding same by fastforce
    with t io_keeps_trans [OF t(2)] find_upt_Cons [OF k, of "entry_is s i name"] show ?thesis
      by (auto simp: bnd_apply ENTRY_SIZE_def entry_is_def [of s i name k] add.commute)
  qed
qed simp

lemma lookup_ok:
  assumes "dir_ok s (dinode d) i"
  shows "\<exists>t. lookup d name s = (Inr (map_option (\<lambda>k. (entry s i k, 20 * k)) (slot_of s i name)), t) \<and>
    io_keeps s t \<and> dbyte t = dbyte s"
  using lookup_loop_ok [OF assms, of 0 "entry_fuel i" name] assms
  by (auto simp: lookup_def get_inode_def bnd_apply dir_ok_def slot_of_def entry_fuel_def n_entries_def ENTRY_SIZE_def)


subsection \<open>Adding an entry\<close>

lemma slot_loop_ok:
  assumes "dir_ok s ino i" "k \<le> n_entries i" "n_entries i - k < n" "length e0 = 20"
  shows "\<exists>e ofs t. slot_loop n ino e0 (20 * k) s = (Inr (e, ofs), t) \<and> io_keeps s t \<and> dbyte t = dbyte s \<and> length e = 20 \<and>
    (case List.find (\<lambda>j. \<not> e_in_use (entry s i j)) [k..<n_entries i] of
       Some j \<Rightarrow> ofs = 20 * j \<and> e = entry s i j | None \<Rightarrow> ofs = 20 * n_entries i)"
  using assms
proof (induction n arbitrary: k s e0)
  case (Suc n)
  show ?case
  proof (cases "k = n_entries i")
    case True
    with read_past_entries [OF Suc.prems(1)] Suc.prems(4) show ?thesis by (auto simp: bnd_apply ENTRY_SIZE_def Let_def)
  next
    case False
    then have k: "k < n_entries i" using Suc.prems(2) by simp
    obtain t where t: "inode_read_at ino (int ENTRY_SIZE) (int (20 * k)) s = (Inr (entry s i k), t)" "io_keeps s t" "dbyte t = dbyte s"
      using read_entry [OF Suc.prems(1) k] by blast
    have lt: "n_entries i - Suc k < n" using k Suc.prems(3) by linarith
    obtain e ofs u where "slot_loop n ino (entry s i k) (20 * Suc k) t = (Inr (e, ofs), u)" "io_keeps t u" "dbyte u = dbyte s"
        "length e = 20" "case List.find (\<lambda>j. \<not> e_in_use (entry s i j)) [Suc k..<n_entries i] of
          Some j \<Rightarrow> ofs = 20 * j \<and> e = entry s i j | None \<Rightarrow> ofs = 20 * n_entries i"
      using Suc.IH [of t "Suc k" "entry s i k", OF dir_ok_keeps [OF Suc.prems(1) t(2)] Suc_leI [OF k] lt] t(3)
      unfolding entry_same [OF t(3)] by auto
    with t io_keeps_trans [OF t(2)] find_upt_Cons [OF k, of "\<lambda>j. \<not> e_in_use (entry s i j)"] Suc.prems(4) show ?thesis
      by (cases "e_in_use (entry s i k)") (auto simp: bnd_apply ENTRY_SIZE_def Let_def add.commute)
  qed
qed simp

text \<open>\<open>data_only s t i\<close>: no byte of the device outside the data of \<open>i\<close> differs.\<close>

definition data_only :: "'a fs_scheme \<Rightarrow> 'a fs_scheme \<Rightarrow> inode \<Rightarrow> bool" where
  "data_only s t i \<longleftrightarrow> (\<forall>x. \<not> (start (idata i) * 512 \<le> x \<and> x < start (idata i) * 512 + nat (inode_length i)) \<longrightarrow>
     dbyte t x = dbyte s x)"

lemma write_entry:
  assumes "dir_ok s ino i" "deny_write_cnt i = 0" "j < n_entries i" "length e = 20"
  shows "\<exists>t. inode_write_at ino e (int ENTRY_SIZE) (int (20 * j)) s = (Inr ENTRY_SIZE, t) \<and> io_keeps s t \<and>
    entry t i = (entry s i)(j := e) \<and> data_only s t i"
proof -
  have "20 * Suc j \<le> 20 * n_entries i" using assms(3) by simp
  then have m: "min 20 (nat (inode_length i) - 20 * j) = 20" by (simp add: n_entries_def)
  obtain t where t: "inode_write_at ino e (int 20) (int (20 * j)) s = (Inr 20, t)" "io_keeps s t"
      "dbyte t = put_bytes (dbyte s) (start (idata i) * 512 + 20 * j) e"
    using inode_write_ok [of s ino i 20 e "20 * j"] assms(1,2,4) unfolding m by (auto simp: dir_ok_def)
  have "entry t i k = ((entry s i)(j := e)) k" for k
  proof (rule nth_equalityI)
    fix x
    assume "x < length (entry t i k)"
    then have x: "x < 20" by simp
    have "k < j \<longrightarrow> 20 * k + 20 \<le> 20 * j" "j < k \<longrightarrow> 20 * j + 20 \<le> 20 * k" by auto
    with x assms(4) show "entry t i k ! x = ((entry s i)(j := e)) k ! x"
      by (cases k j rule: linorder_cases) (auto simp: entry_def file_bytes_def t(3) put_bytes_def)
  qed (use assms(4) in auto)
  moreover have "20 * j + 20 \<le> nat (inode_length i)" using m by simp
  then have "data_only s t i" unfolding data_only_def t(3) put_bytes_def assms(4) by simp
  ultimately show ?thesis using t by (auto simp: ENTRY_SIZE_def)
qed

lemma write_past_entries:
  assumes "dir_ok s ino i" "deny_write_cnt i = 0" "length e = 20"
  shows "\<exists>n t. inode_write_at ino e (int ENTRY_SIZE) (int (20 * n_entries i)) s = (Inr n, t) \<and> n \<noteq> ENTRY_SIZE \<and> io_keeps s t \<and>
    (\<forall>k < n_entries i. entry t i k = entry s i k) \<and> data_only s t i"
proof -
  let ?o = "20 * n_entries i"
  let ?m = "min 20 (nat (inode_length i) - ?o)"
  have "?m < 20" by (simp add: n_entries_def)
  obtain t where t: "inode_write_at ino e (int 20) (int ?o) s = (Inr ?m, t)" "io_keeps s t"
      "dbyte t = put_bytes (dbyte s) (start (idata i) * 512 + ?o) (take ?m e)"
    using inode_write_ok [of s ino i 20 e ?o] assms by (auto simp: dir_ok_def)
  have "entry t i k = entry s i k" if "k < n_entries i" for k
  proof -
    have "20 * k + 20 \<le> ?o" using that by simp
    then show ?thesis by (auto simp: entry_def file_bytes_def t(3) put_bytes_def intro!: map_cong)
  qed
  moreover have "?o + length (take ?m e) \<le> nat (inode_length i)" using assms(3) by (simp add: n_entries_def)
  then have "data_only s t i" unfolding data_only_def t(3) put_bytes_def by auto
  moreover have "?m \<noteq> ENTRY_SIZE" using \<open>?m < 20\<close> by (simp add: ENTRY_SIZE_def)
  ultimately show ?thesis using t(1,2) unfolding ENTRY_SIZE_def by blast
qed

lemma entry_is_upd:
  assumes "entry t i = (entry s i)(j := e)"
  shows "entry_is t i name k = (if k = j then e_in_use e \<and> name = e_name e else entry_is s i name k)"
  using assms by (simp add: entry_is_def)

lemma fill_entry_fields:
  assumes "length e = 20" "length name \<le> NAME_MAX" "0 \<notin> set name" "sector < 2 ^ 32"
  shows "length (fill_entry e name sector) = 20" "e_name (fill_entry e name sector) = name"
    "e_in_use (fill_entry e name sector)" "e_sector (fill_entry e name sector) = sector"
proof -
  have n: "take NAME_MAX name = name" using assms(2) by simp
  let ?r = "drop (4 + length name + 1) (take 19 e)"
  have r: "length ?r = 14 - length name" using assms(1) by simp
  have f: "fill_entry e name sector = u32_bytes (of_nat sector) @ name @ [0] @ ?r @ [1]"
    by (simp add: fill_entry_def n)
  show l: "length (fill_entry e name sector) = 20" using r assms(2) by (simp add: f NAME_MAX_def)
  have "drop 4 (fill_entry e name sector) = name @ 0 # ?r @ [1]" by (simp add: f)
  then show "e_name (fill_entry e name sector) = name"
    using assms(3) by (auto simp: e_name_def takeWhile_append takeWhile_eq_all_conv)
  have "fill_entry e name sector ! 19 = 1"
  proof -
    have "length (u32_bytes (of_nat sector) @ name @ [0] @ ?r) = 19"
      using r assms(2) by (simp add: NAME_MAX_def)
    then have "((u32_bytes (of_nat sector) @ name @ [0] @ ?r) @ [1]) ! 19 = 1" by (metis nth_append_length)
    then show ?thesis by (simp add: f)
  qed
  then show "e_in_use (fill_entry e name sector)" by (simp add: e_in_use_def)
  show "e_sector (fill_entry e name sector) = sector"
    using assms(4) by (simp add: e_sector_def f u32_at_append_left unat_of_nat take_bit_nat_eq_self)
qed

lemma find_only:
  assumes "k \<in> set xs" "P k" "\<And>j. j \<in> set xs \<Longrightarrow> P j \<Longrightarrow> j = k"
  shows "List.find P xs = Some k"
proof -
  have "List.find P xs \<noteq> None" using assms(1,2) by (auto simp: find_None_iff)
  then obtain j where j: "List.find P xs = Some j" by blast
  then have "j \<in> set xs" "P j" by (auto simp: find_Some_iff)
  with assms(3) j show ?thesis by blast
qed

lemma dir_map_entries:
  assumes "\<And>k. k < n_entries i \<Longrightarrow> entry t i k = entry s i k"
  shows "dir_map t i = dir_map s i" "unique_names t i = unique_names s i"
proof -
  have e: "entry_is t i name k = entry_is s i name k" if "k < n_entries i" for name k
    using assms [OF that] by (simp add: entry_is_def)
  then have "slot_of t i name = slot_of s i name" for name
    unfolding slot_of_def by (intro find_cong) auto
  moreover have "map_option (\<lambda>k. e_sector (entry t i k)) (slot_of s i name) = map_option (\<lambda>k. e_sector (entry s i k)) (slot_of s i name)" for name
    using assms by (intro option.map_cong) (auto simp: slot_of_def find_Some_iff)
  ultimately show "dir_map t i = dir_map s i" by (simp add: dir_map_def fun_eq_iff)
  show "unique_names t i = unique_names s i" using e unfolding unique_names_def by blast
qed

lemma dir_map_None_iff: "dir_map s i name = None \<longleftrightarrow> (\<forall>k < n_entries i. \<not> entry_is s i name k)"
  by (auto simp: dir_map_def slot_of_def find_None_iff)

lemma dir_map_fill:
  assumes "unique_names s i" "j < n_entries i" "\<not> e_in_use (entry s i j)" "dir_map s i name = None"
    and "entry t i = (entry s i)(j := e)" "e_in_use e" "e_name e = name"
  shows "dir_map t i = (dir_map s i)(name := Some (e_sector e))" "unique_names t i"
proof -
  note u = entry_is_upd [OF assms(5)]
  have free: "\<not> entry_is s i nm j" for nm using assms(3) by (simp add: entry_is_def)
  have none: "\<And>k. k < n_entries i \<Longrightarrow> \<not> entry_is s i name k" using assms(4) by (simp add: dir_map_None_iff)
  have "slot_of t i name = Some j"
    unfolding slot_of_def using assms(2,6,7) none by (intro find_only) (auto simp: u split: if_splits)
  moreover have "slot_of t i nm = slot_of s i nm" if "nm \<noteq> name" for nm
    unfolding slot_of_def using that free assms(7) by (intro find_cong) (auto simp: u)
  moreover have "slot_of s i nm \<noteq> Some j" for nm using free by (auto simp: slot_of_def find_Some_iff)
  ultimately show "dir_map t i = (dir_map s i)(name := Some (e_sector e))"
    by (auto simp: dir_map_def fun_eq_iff assms(5) intro!: option.map_cong split: option.split)
  show "unique_names t i"
    using assms(1,7) none by (auto simp: unique_names_def u split: if_splits)
qed

lemma dir_add_ok:
  assumes "dir_ok s (dinode d) i" "deny_write_cnt i = 0" "unique_names s i"
    and "0 \<notin> set name" "sector < 2 ^ 32" "length e0 = 20"
  shows "\<exists>b t. dir_add e0 d name sector s = (Inr b, t) \<and> io_keeps s t \<and> unique_names t i \<and> data_only s t i \<and>
    (b \<longleftrightarrow> name \<noteq> [] \<and> length name \<le> NAME_MAX \<and> dir_map s i name = None \<and> (\<exists>j < n_entries i. \<not> e_in_use (entry s i j))) \<and>
    dir_map t i = (if b then (dir_map s i)(name := Some sector) else dir_map s i)"
proof (cases "name = [] \<or> NAME_MAX < length name")
  case True
  then show ?thesis using assms(1,3) io_keeps_refl by (auto simp: dir_add_def dir_ok_def data_only_def)
next
  case ok: False
  obtain t where t: "lookup d name s = (Inr (map_option (\<lambda>k. (entry s i k, 20 * k)) (slot_of s i name)), t)"
      "io_keeps s t" "dbyte t = dbyte s"
    using lookup_ok [OF assms(1)] by blast
  note et = entry_same [OF t(3)]
  show ?thesis
  proof (cases "dir_map s i name = None")
    case False
    then have "dir_add e0 d name sector s = (Inr False, t)"
      using ok t(1) by (auto simp: dir_add_def bnd_apply dir_map_def)
    with False t(2,3) assms(3) dir_map_entries [of i t s] et show ?thesis by (auto simp: data_only_def)
  next
    case True
    have okt: "dir_ok t (dinode d) i" by (rule dir_ok_keeps [OF assms(1) t(2)])
    obtain e ofs u where u: "slot_loop (entry_fuel i) (dinode d) e0 0 t = (Inr (e, ofs), u)" "io_keeps t u" "dbyte u = dbyte t"
        "length e = 20" and sl: "case List.find (\<lambda>j. \<not> e_in_use (entry s i j)) [0..<n_entries i] of
          Some j \<Rightarrow> ofs = 20 * j \<and> e = entry s i j | None \<Rightarrow> ofs = 20 * n_entries i"
      using slot_loop_ok [OF okt, of 0 "entry_fuel i" e0] assms(6) unfolding et
      by (auto simp: entry_fuel_def n_entries_def ENTRY_SIZE_def)
    have eu: "entry u i = entry s i" using entry_same [OF u(3)] et by simp
    have oku: "dir_ok u (dinode d) i" by (rule dir_ok_keeps [OF okt u(2)])
    have su: "io_keeps s u" by (rule io_keeps_trans [OF t(2) u(2)])
    have pre: "dir_add e0 d name sector s =
        bnd (inode_write_at (dinode d) (fill_entry e name sector) (int ENTRY_SIZE) (int ofs)) (\<lambda>n. ret (n = ENTRY_SIZE)) u"
      using ok True t(1) u(1) okt by (simp add: dir_add_def bnd_apply dir_map_def get_inode_def dir_ok_def)
    note fl = fill_entry_fields [OF u(4) _ assms(4,5)]
    show ?thesis
    proof (cases "List.find (\<lambda>j. \<not> e_in_use (entry s i j)) [0..<n_entries i]")
      case None
      then have nofree: "\<not> (\<exists>j < n_entries i. \<not> e_in_use (entry s i j))" by (auto simp: find_None_iff)
      obtain n v where v: "inode_write_at (dinode d) (fill_entry e name sector) (int ENTRY_SIZE) (int ofs) u = (Inr n, v)"
          "n \<noteq> ENTRY_SIZE" "io_keeps u v" "\<forall>k < n_entries i. entry v i k = entry u i k" "data_only u v i"
        using write_past_entries [OF oku assms(2) fl(1)] ok sl None by auto
      have "dir_map v i = dir_map s i" "unique_names v i"
        using dir_map_entries [of i v s] v(4) eu assms(3) by auto
      moreover have "data_only s v i" using v(5) t(3) u(3) by (simp add: data_only_def)
      ultimately show ?thesis using pre v nofree io_keeps_trans [OF su v(3)] by (auto simp: bnd_apply)
    next
      case (Some j)
      then have j: "j < n_entries i" "\<not> e_in_use (entry s i j)" by (auto simp: find_Some_iff)
      obtain v where v: "inode_write_at (dinode d) (fill_entry e name sector) (int ENTRY_SIZE) (int ofs) u = (Inr ENTRY_SIZE, v)"
          "io_keeps u v" "entry v i = (entry s i)(j := fill_entry e name sector)" "data_only u v i"
        using write_entry [OF oku assms(2) j(1) fl(1)] ok sl Some eu by auto
      have "dir_map v i = (dir_map s i)(name := Some sector)" "unique_names v i"
        using dir_map_fill [OF assms(3) j True v(3)] fl ok by auto
      moreover have "data_only s v i" using v(4) t(3) u(3) by (simp add: data_only_def)
      ultimately show ?thesis using pre v(1) j True ok io_keeps_trans [OF su v(2)] by (auto simp: bnd_apply)
    qed
  qed
qed


text \<open>C3: A directory is a finite map from names to inode sectors. When no allocation of memory fails,
  \<open>dir_add\<close> succeeds exactly when the name is valid and new and a slot is free, and then it adds that one
  binding; otherwise the map stays as it is. Every later lookup reads the resulting map, and no byte
  outside the directory's data changes.\<close>

theorem dir_add_refines:
  assumes "dir_ok s (dinode d) i" "deny_write_cnt i = 0" "unique_names s i"
    and "0 \<notin> set name" "sector < 2 ^ 32" "length e0 = 20"
  shows "\<exists>b t. dir_add e0 d name sector s = (Inr b, t) \<and> data_only s t i \<and> unique_names t i \<and>
    (b \<longleftrightarrow> name \<noteq> [] \<and> length name \<le> NAME_MAX \<and> dir_map s i name = None \<and> (\<exists>j < n_entries i. \<not> e_in_use (entry s i j))) \<and>
    dir_map t i = (if b then (dir_map s i)(name := Some sector) else dir_map s i) \<and>
    (\<forall>nm. \<exists>r u. lookup d nm t = (Inr r, u) \<and> map_option (\<lambda>x. e_sector (fst x)) r = dir_map t i nm)"
proof -
  obtain b t where t: "dir_add e0 d name sector s = (Inr b, t)" "io_keeps s t" "unique_names t i" "data_only s t i"
    "b \<longleftrightarrow> name \<noteq> [] \<and> length name \<le> NAME_MAX \<and> dir_map s i name = None \<and> (\<exists>j < n_entries i. \<not> e_in_use (entry s i j))"
    "dir_map t i = (if b then (dir_map s i)(name := Some sector) else dir_map s i)"
    using dir_add_ok [OF assms] by (elim exE conjE) (rule that)
  have "dir_ok t (dinode d) i" by (rule dir_ok_keeps [OF assms(1) t(2)])
  from lookup_ok [OF this]
  have "\<exists>r u. lookup d nm t = (Inr r, u) \<and> map_option (\<lambda>x. e_sector (fst x)) r = dir_map t i nm" for nm
    by (fastforce simp: dir_map_def option.map_comp comp_def)
  with t show ?thesis by blast
qed

text \<open>The 600 bytes of zeros of \<open>ex_inode\<close> are a directory of 30 free slots.\<close>

lemma ex_dir_entry: "k < 30 \<Longrightarrow> entry ex_fs ex_inode k = replicate 20 0"
proof -
  have z: "dbyte ex_fs x = 0" for x
    by (simp add: dbyte_def dsec_def dsector_def cell_def locate.simps ex_block_def)
  show ?thesis unfolding entry_def file_bytes_def z by (simp add: map_replicate_const)
qed

lemma ex_dir: "dir_ok ex_fs 2 ex_inode" "unique_names ex_fs ex_inode" "n_entries ex_inode = 30"
proof -
  show n: "n_entries ex_inode = 30" by (simp add: n_entries_def inode_length_def ex_inode_def)
  show "dir_ok ex_fs 2 ex_inode" using ex_fs_ok by (simp add: dir_ok_def data_ok_def inode_length_def ex_inode_def)
  show "unique_names ex_fs ex_inode"
    by (auto simp: unique_names_def n entry_is_def ex_dir_entry e_in_use_def)
qed

theorem dir_add_refines_witness:
  "\<exists>b t. dir_add (replicate 20 0) \<lparr>dinode = 2, dpos = 0\<rparr> [97] 9 ex_fs = (Inr b, t) \<and> b \<and> dir_map t ex_inode [97] = Some 9"
proof -
  let ?d = "\<lparr>dinode = 2, dpos = 0\<rparr>"
  have p: "dir_ok ex_fs (dinode ?d) ex_inode" "deny_write_cnt ex_inode = 0" "unique_names ex_fs ex_inode" "0 \<notin> set [97::u8]"
    "(9::nat) < 2 ^ 32" "length (replicate 20 (0::u8)) = 20"
    using ex_dir by (simp_all add: ex_inode_def)
  from dir_add_refines [OF p] obtain b t where t: "dir_add (replicate 20 0) ?d [97] 9 ex_fs = (Inr b, t)"
    "b \<longleftrightarrow> [97] \<noteq> ([]::u8 list) \<and> length [97::u8] \<le> NAME_MAX \<and> dir_map ex_fs ex_inode [97] = None \<and>
      (\<exists>j < n_entries ex_inode. \<not> e_in_use (entry ex_fs ex_inode j))"
    "dir_map t ex_inode = (if b then (dir_map ex_fs ex_inode)([97] := Some 9) else dir_map ex_fs ex_inode)"
    by (elim exE conjE) (rule that)
  have "\<not> e_in_use (entry ex_fs ex_inode k)" if "k < 30" for k using ex_dir_entry [OF that] by (simp add: e_in_use_def)
  then have b unfolding t(2) ex_dir(3) dir_map_None_iff by (auto simp: NAME_MAX_def entry_is_def intro!: exI [of _ 0])
  with t(1,3) show ?thesis by auto
qed

end
