(* ===== verification/Filesys.thy ===== *)
theory Filesys
  imports Directory
begin

text \<open>
  The file system, from \<^verbatim>\<open>filesys/filesys.c\<close>: formatting, and creating, opening and removing files
  in the root directory. The argument \<open>e0\<close> of \<open>filesys_create\<close> stands for the bytes of the
  uninitialised \<open>struct dir_entry\<close> of \<open>dir_add\<close>.
\<close>

definition inode_init :: "('a fs_scheme, unit) op" where
  "inode_init = modify (\<lambda>s. s\<lparr>open_inodes := []\<rparr>)"

definition do_format :: "('a fs_scheme, unit) op" where
  "do_format = bnd free_map_create (\<lambda>_.
     bnd (dir_create ROOT_DIR_SECTOR 16) (\<lambda>good. if \<not> good then fail Panic else free_map_close))"

definition filesys_init :: "bool \<Rightarrow> ('a fs_scheme, unit) op" where
  "filesys_init format =
     bnd (block_get_role BLOCK_FILESYS) (\<lambda>r. case r of None \<Rightarrow> fail Panic
     | Some b \<Rightarrow>
       bnd (modify (\<lambda>s. s\<lparr>fs_device := b\<rparr>)) (\<lambda>_.
       bnd inode_init (\<lambda>_.
       bnd free_map_init (\<lambda>_.
       bnd (modify (\<lambda>s. s\<lparr>filesys_sema := 1\<rparr>)) (\<lambda>_.
       bnd (if format then do_format else ret ()) (\<lambda>_. free_map_open))))))"

definition filesys_done :: "('a fs_scheme, unit) op" where
  "filesys_done = free_map_close"

definition filesys_create :: "u8 list \<Rightarrow> u8 list \<Rightarrow> int \<Rightarrow> ('a fs_scheme, bool) op" where
  "filesys_create e0 name initial_size =
     bnd dir_open_root (\<lambda>d.
     bnd (case d of None \<Rightarrow> ret (False, 0)
          | Some dd \<Rightarrow> bnd (free_map_allocate 1) (\<lambda>r. case r of None \<Rightarrow> ret (False, 0)
            | Some inode_sector \<Rightarrow> bnd (inode_create inode_sector initial_size) (\<lambda>c.
                if c then bnd (dir_add e0 dd name inode_sector) (\<lambda>a. ret (a, inode_sector))
                else ret (False, inode_sector)))) (\<lambda>(success, inode_sector).
     bnd (if \<not> success \<and> inode_sector \<noteq> 0 then free_map_release inode_sector 1 else ret ()) (\<lambda>_.
     bnd (dir_close d) (\<lambda>_. ret success))))"

definition filesys_open :: "u8 list \<Rightarrow> ('a fs_scheme, addr) op" where
  "filesys_open name =
     bnd dir_open_root (\<lambda>d.
     bnd (case d of None \<Rightarrow> ret NULL | Some dd \<Rightarrow> dir_lookup dd name) (\<lambda>ino.
     bnd (dir_close d) (\<lambda>_. file_open ino)))"

definition filesys_remove :: "u8 list \<Rightarrow> ('a fs_scheme, bool) op" where
  "filesys_remove name =
     bnd dir_open_root (\<lambda>d.
     bnd (case d of None \<Rightarrow> ret False | Some dd \<Rightarrow> dir_remove dd name) (\<lambda>success.
     bnd (dir_close d) (\<lambda>_. ret success)))"

subsection \<open>The root directory\<close>

lemma entries_kept:
  assumes "kept_run s t (data_run i)" "0 \<le> inode_length i" "inode_length i + 511 < 2 ^ 31" "k < n_entries i"
  shows "entry t i k = entry s i k"
proof -
  obtain n where n: "inode_length i = int n" using assms(2) nonneg_int_cases by blast
  have "int n < 2147483137" using assms(3) unfolding n by simp
  then have small: "n + 511 < 2 ^ 31" by simp
  have le: "20 * k + 20 \<le> n"
  proof -
    have "20 * Suc k \<le> 20 * (n div 20)" using assms(4) n by (simp add: n_entries_def)
    also have "\<dots> \<le> n" by simp
    finally show ?thesis by simp
  qed
  have "dbyte t (start (idata i) * 512 + (20 * k + j)) = dbyte s (start (idata i) * 512 + (20 * k + j))" if "j < 20" for j
  proof -
    let ?x = "start (idata i) * 512 + (20 * k + j)"
    have "start (idata i) * 512 \<le> ?x" "?x < start (idata i) * 512 + n" using that le by linarith+
    note p = fm_bytes_in_run [OF n small this]
    with assms(1) show ?thesis unfolding kept_run_def data_run_def by simp
  qed
  then show ?thesis by (simp add: entry_def file_bytes_def add.assoc)
qed

text \<open>\<open>root_ok s ra ri runs\<close>: the root directory is open at \<open>ra\<close> with inode \<open>ri\<close>, and its sectors are among the
  runs in use.\<close>

definition root_ok :: "'a fs_scheme \<Rightarrow> addr \<Rightarrow> inode \<Rightarrow> inode \<Rightarrow> (nat \<times> nat) list \<Rightarrow> bool" where
  "root_ok s ra ri i runs \<longleftrightarrow> (\<exists>n. wf_open n s) \<and> inodes s ra = Some ri \<and> isector ri = ROOT_DIR_SECTOR \<and>
     (\<forall>x. files s (free_map_file s) = Some x \<longrightarrow> finode x \<noteq> ra) \<and>
     data_ok s ri \<and> 0 \<le> inode_length ri \<and> inode_length ri + 511 < 2 ^ 31 \<and> deny_write_cnt ri = 0 \<and>
     data_run ri \<in> set runs \<and> data_run ri \<noteq> data_run i \<and> covers runs 0 \<and> unique_names s ri"

lemma data_fields [simp]:
  "inode_length (i\<lparr>open_cnt := c\<rparr>) = inode_length i" "data_run (i\<lparr>open_cnt := c\<rparr>) = data_run i"
  "entry s (i\<lparr>open_cnt := c\<rparr>) = entry s i" "n_entries (i\<lparr>open_cnt := c\<rparr>) = n_entries i"
  "dir_map s (i\<lparr>open_cnt := c\<rparr>) = dir_map s i" "unique_names s (i\<lparr>open_cnt := c\<rparr>) = unique_names s i"
  "data_ok s (i\<lparr>open_cnt := c\<rparr>) = data_ok s i"
  by (simp_all add: inode_length_def data_run_def entry_def file_bytes_def n_entries_def dir_map_def slot_of_def
      entry_is_def unique_names_def data_ok_def fun_eq_iff cong: find_cong)

text \<open>Opening the root directory when it is already open counts one opener more.\<close>

definition root_opened :: "'a fs_scheme \<Rightarrow> addr \<Rightarrow> inode \<Rightarrow> 'a fs_scheme" where
  "root_opened s ra ri = s\<lparr>inodes := (inodes s)(ra := Some (ri\<lparr>open_cnt := c_int (open_cnt ri + 1)\<rparr>)), malloc_cnt := Suc (malloc_cnt s)\<rparr>"

lemma open_root:
  assumes "fm_inv s i runs" "root_ok s ra ri i runs"
  shows "dir_open_root s = (Inr (Some \<lparr>dinode = ra, dpos = 0\<rparr>), root_opened s ra ri)"
    and "fm_inv (root_opened s ra ri) i runs" "dir_ok (root_opened s ra ri) ra (ri\<lparr>open_cnt := c_int (open_cnt ri + 1)\<rparr>)"
    and "dbyte (root_opened s ra ri) = dbyte s"
proof -
  let ?t = "root_opened s ra ri"
  obtain n where w: "wf_open n s" using assms(2) by (auto simp: root_ok_def)
  have r: "inodes s ra = Some ri" "isector ri = ROOT_DIR_SECTOR" "ra \<noteq> NULL"
    using assms(2) w by (auto simp: root_ok_def wf_open_def)
  have m: "malloc_ok s n" for n using assms(1) by (simp add: fm_inv_def)
  show "dir_open_root s = (Inr (Some \<lparr>dinode = ra, dpos = 0\<rparr>), ?t)"
    using inode_open_known [OF w r(1)] r(2,3) m
    by (simp add: dir_open_root_def dir_open_def bnd_apply kmalloc_def root_opened_def)
  have d: "dsec ?t = dsec s" "fs_ok ?t = fs_ok s" "fs_size ?t = fs_size s"
    by (simp_all add: dsec_def root_opened_def fs_ok_def dev_ok_def fs_size_def block_size_def)
  then show "dbyte ?t = dbyte s" by (simp add: dbyte_def fun_eq_iff)
  show "fm_inv ?t i runs" using assms d by (auto simp: fm_inv_def fm_file_def root_ok_def data_ok_def root_opened_def)
  show "dir_ok ?t ra (ri\<lparr>open_cnt := c_int (open_cnt ri + 1)\<rparr>)"
    using assms d by (simp add: dir_ok_def fm_inv_def root_ok_def root_opened_def data_ok_def)
qed

end
