(* ===== verification/Sched.thy ===== *)
theory Sched
  imports Filesys Pagedir Cstring Hash
begin

text \<open>
  Threads and synchronisation, from \<^verbatim>\<open>threads/thread.c\<close>, \<^verbatim>\<open>threads/synch.c\<close>, the interrupt level of
  \<^verbatim>\<open>threads/interrupt.c\<close>, and the two routines of \<^verbatim>\<open>userprog/process.c\<close> that the scheduler calls.

  A \<open>struct thread\<close> is kept by the address of its page. The memory of a \<open>struct thread\<close> exists from
  \<open>init_thread\<close> until the page is freed; using a thread that does not exist is the fault \<open>NullDeref\<close>.
  The running thread is the one whose page holds the stack pointer. A list of threads is the
  sequence of their addresses. A semaphore is named by the place where it lies: in a thread, in a
  lock, in the stack frame of a thread waiting on a condition variable, or elsewhere.

  An operation that puts the calling thread to sleep ends with the fault \<open>Blocked\<close>, in the state
  where the next thread runs. What the sleeping thread does when it is scheduled again is the rest
  of the operation; this resumption is not modelled.

  The member \<open>SP_table\<close> of a thread is kept apart from the other members, by the address of the thread:
  a hash table whose elements are the address of an entry with the page number of the entry.
\<close>

datatype intr_level = INTR_OFF | INTR_ON
datatype thread_status = THREAD_RUNNING | THREAD_READY | THREAD_BLOCKED | THREAD_DYING

type_synonym spt_elem = "addr \<times> u32"

datatype lock_id = TidLock | LockAt nat
datatype sema_id = WaitSema u32 | LoadSema u32 | LockSema lock_id | WaiterSema nat | SemaAt nat

record semaphore =
  svalue :: u32
  waiters :: "u32 list"

record thread =
  tid :: int
  status :: thread_status
  tname :: "u8 list"
  stack :: u32
  priority :: int
  pagedir :: u32
  executable :: addr
  children :: "u32 list"
  open_files :: "u32 list"
  parent :: u32
  child_list_elem :: u32
  stack_pointer :: u32
  esp :: u32
  magic :: u32

record thread_child =
  ctid :: int
  child_pointer :: u32
  parent_waiting :: int
  exit_status :: int

record sched = fs +
  threads :: "u32 \<Rightarrow> thread option"
  child_structs :: "u32 \<Rightarrow> thread_child option"
  semas :: "sema_id \<Rightarrow> semaphore"
  holder :: "lock_id \<Rightarrow> u32"
  cond_waiters :: "nat \<Rightarrow> nat list"
  ready_list :: "u32 list"
  all_list :: "u32 list"
  running :: u32
  idle_thread :: u32
  initial_thread :: u32
  next_tid :: int
  intr :: intr_level
  in_external_intr :: bool
  yield_on_return :: bool
  idle_ticks :: int
  kernel_ticks :: int
  user_ticks :: int
  thread_ticks :: u32
  SP_table :: "u32 \<Rightarrow> spt_elem hash"

definition THREAD_MAGIC :: u32 where "THREAD_MAGIC = 0xcd6abf4b"
definition PRI_MIN :: int where "PRI_MIN = 0"
definition PRI_DEFAULT :: int where "PRI_DEFAULT = 31"
definition PRI_MAX :: int where "PRI_MAX = 63"
definition TID_ERROR :: int where "TID_ERROR = - 1"
definition TIME_SLICE :: u32 where "TIME_SLICE = 4"
definition UNUSED_CHILD_EXIT_STATUS :: int where "UNUSED_CHILD_EXIT_STATUS = - 666"

subsection \<open>The interrupt level\<close>

definition intr_get_level :: "('a sched_scheme, intr_level) op" where
  "intr_get_level = gets intr"

definition intr_context :: "('a sched_scheme, bool) op" where
  "intr_context = gets in_external_intr"

definition intr_enable :: "('a sched_scheme, intr_level) op" where
  "intr_enable =
     bnd intr_get_level (\<lambda>old_level.
     bnd intr_context (\<lambda>c.
     bnd (ensure (\<not> c)) (\<lambda>_.
     bnd (modify (\<lambda>s. s\<lparr>intr := INTR_ON\<rparr>)) (\<lambda>_. ret old_level))))"

definition intr_disable :: "('a sched_scheme, intr_level) op" where
  "intr_disable =
     bnd intr_get_level (\<lambda>old_level.
     bnd (modify (\<lambda>s. s\<lparr>intr := INTR_OFF\<rparr>)) (\<lambda>_. ret old_level))"

definition intr_set_level :: "intr_level \<Rightarrow> ('a sched_scheme, intr_level) op" where
  "intr_set_level level = (if level = INTR_ON then intr_enable else intr_disable)"

definition intr_yield_on_return :: "('a sched_scheme, unit) op" where
  "intr_yield_on_return =
     bnd intr_context (\<lambda>c.
     bnd (ensure c) (\<lambda>_. modify (\<lambda>s. s\<lparr>yield_on_return := True\<rparr>)))"

subsection \<open>The running thread\<close>

definition get_thread :: "u32 \<Rightarrow> ('a sched_scheme, thread) op" where
  "get_thread t = (\<lambda>s. case threads s t of None \<Rightarrow> (Inl NullDeref, s) | Some r \<Rightarrow> (Inr r, s))"

definition upd_thread :: "u32 \<Rightarrow> (thread \<Rightarrow> thread) \<Rightarrow> ('a sched_scheme, unit) op" where
  "upd_thread t f = bnd (get_thread t) (\<lambda>r. modify (\<lambda>s. s\<lparr>threads := (threads s)(t := Some (f r))\<rparr>))"

definition running_thread :: "('a sched_scheme, u32) op" where
  "running_thread = gets running"

definition is_thread :: "u32 \<Rightarrow> ('a sched_scheme, bool) op" where
  "is_thread t = gets (\<lambda>s. t \<noteq> 0 \<and> (case threads s t of None \<Rightarrow> False | Some r \<Rightarrow> magic r = THREAD_MAGIC))"

definition thread_current :: "('a sched_scheme, u32) op" where
  "thread_current =
     bnd running_thread (\<lambda>t.
     bnd (is_thread t) (\<lambda>b.
     bnd (ensure b) (\<lambda>_.
     bnd (get_thread t) (\<lambda>r.
     bnd (ensure (status r = THREAD_RUNNING)) (\<lambda>_. ret t)))))"

text \<open>\<open>cur_thread\<close> is the contents of \<open>*thread_current ()\<close>.\<close>

definition cur_thread :: "('a sched_scheme, thread) op" where
  "cur_thread = bnd thread_current get_thread"

definition upd_current :: "(thread \<Rightarrow> thread) \<Rightarrow> ('a sched_scheme, unit) op" where
  "upd_current f = bnd thread_current (\<lambda>t. upd_thread t f)"

definition thread_tid :: "('a sched_scheme, int) op" where
  "thread_tid = bnd cur_thread (\<lambda>r. ret (tid r))"

definition thread_name :: "('a sched_scheme, u8 list) op" where
  "thread_name = bnd cur_thread (\<lambda>r. ret (tname r))"

definition thread_set_priority :: "int \<Rightarrow> ('a sched_scheme, unit) op" where
  "thread_set_priority new_priority = upd_current (\<lambda>r. r\<lparr>priority := new_priority\<rparr>)"

definition thread_get_priority :: "('a sched_scheme, int) op" where
  "thread_get_priority = bnd cur_thread (\<lambda>r. ret (priority r))"

definition thread_set_nice :: "int \<Rightarrow> ('a sched_scheme, unit) op" where
  "thread_set_nice nice = ret ()"

definition thread_get_nice :: "('a sched_scheme, int) op" where "thread_get_nice = ret 0"
definition thread_get_load_avg :: "('a sched_scheme, int) op" where "thread_get_load_avg = ret 0"
definition thread_get_recent_cpu :: "('a sched_scheme, int) op" where "thread_get_recent_cpu = ret 0"

subsection \<open>Switching threads\<close>

definition process_activate :: "('a sched_scheme, unit) op" where
  "process_activate = bnd cur_thread (\<lambda>r. pagedir_activate (pagedir r))"

definition next_thread_to_run :: "('a sched_scheme, u32) op" where
  "next_thread_to_run = (\<lambda>s. case ready_list s of
       [] \<Rightarrow> (Inr (idle_thread s), s)
     | t # ts \<Rightarrow> (Inr t, s\<lparr>ready_list := ts\<rparr>))"

definition thread_schedule_tail :: "u32 \<Rightarrow> ('a sched_scheme, unit) op" where
  "thread_schedule_tail prv =
     bnd running_thread (\<lambda>cur.
     bnd intr_get_level (\<lambda>level.
     bnd (ensure (level = INTR_OFF)) (\<lambda>_.
     bnd (upd_thread cur (\<lambda>r. r\<lparr>status := THREAD_RUNNING\<rparr>)) (\<lambda>_.
     bnd (modify (\<lambda>s. s\<lparr>thread_ticks := 0\<rparr>)) (\<lambda>_.
     bnd process_activate (\<lambda>_.
     if prv = 0 then ret () else
     bnd (get_thread prv) (\<lambda>p.
     bnd (gets initial_thread) (\<lambda>init.
     if status p = THREAD_DYING \<and> prv \<noteq> init
     then bnd (ensure (prv \<noteq> cur)) (\<lambda>_.
          bnd (palloc_free_page prv) (\<lambda>_.
          modify (\<lambda>s. s\<lparr>threads := (threads s)(prv := None)\<rparr>)))
     else ret ()))))))))"

definition schedule :: "('a sched_scheme, unit) op" where
  "schedule =
     bnd running_thread (\<lambda>cur.
     bnd next_thread_to_run (\<lambda>next.
     bnd intr_get_level (\<lambda>level.
     bnd (ensure (level = INTR_OFF)) (\<lambda>_.
     bnd (get_thread cur) (\<lambda>c.
     bnd (ensure (status c \<noteq> THREAD_RUNNING)) (\<lambda>_.
     bnd (is_thread next) (\<lambda>b.
     bnd (ensure b) (\<lambda>_.
     if cur \<noteq> next
     then bnd (modify (\<lambda>s. s\<lparr>running := next\<rparr>)) (\<lambda>_. thread_schedule_tail cur)
     else thread_schedule_tail 0))))))))"

definition thread_block :: "('a sched_scheme, unit) op" where
  "thread_block =
     bnd intr_context (\<lambda>c.
     bnd (ensure (\<not> c)) (\<lambda>_.
     bnd intr_get_level (\<lambda>level.
     bnd (ensure (level = INTR_OFF)) (\<lambda>_.
     bnd (upd_current (\<lambda>r. r\<lparr>status := THREAD_BLOCKED\<rparr>)) (\<lambda>_. schedule)))))"

definition thread_unblock :: "u32 \<Rightarrow> ('a sched_scheme, unit) op" where
  "thread_unblock t =
     bnd (is_thread t) (\<lambda>b.
     bnd (ensure b) (\<lambda>_.
     bnd intr_disable (\<lambda>old_level.
     bnd (get_thread t) (\<lambda>r.
     bnd (ensure (status r = THREAD_BLOCKED)) (\<lambda>_.
     bnd (modify (\<lambda>s. s\<lparr>ready_list := ready_list s @ [t]\<rparr>)) (\<lambda>_.
     bnd (upd_thread t (\<lambda>r. r\<lparr>status := THREAD_READY\<rparr>)) (\<lambda>_.
     bnd (intr_set_level old_level) (\<lambda>_. ret ()))))))))"

text \<open>The part of \<open>thread_yield\<close> up to the switch; the last statement restores the interrupt level when
  the thread runs again.\<close>

definition thread_yield :: "('a sched_scheme, intr_level) op" where
  "thread_yield =
     bnd thread_current (\<lambda>cur.
     bnd intr_context (\<lambda>c.
     bnd (ensure (\<not> c)) (\<lambda>_.
     bnd intr_disable (\<lambda>old_level.
     bnd (gets idle_thread) (\<lambda>idle.
     bnd (if cur \<noteq> idle then modify (\<lambda>s. s\<lparr>ready_list := ready_list s @ [cur]\<rparr>) else ret ()) (\<lambda>_.
     bnd (upd_thread cur (\<lambda>r. r\<lparr>status := THREAD_READY\<rparr>)) (\<lambda>_.
     bnd schedule (\<lambda>_. ret old_level))))))))"

definition thread_tick :: "('a sched_scheme, unit) op" where
  "thread_tick =
     bnd thread_current (\<lambda>t.
     bnd (get_thread t) (\<lambda>r.
     bnd (modify (\<lambda>s. if t = idle_thread s then s\<lparr>idle_ticks := idle_ticks s + 1\<rparr>
                      else if pagedir r \<noteq> 0 then s\<lparr>user_ticks := user_ticks s + 1\<rparr>
                      else s\<lparr>kernel_ticks := kernel_ticks s + 1\<rparr>)) (\<lambda>_.
     bnd (modify (\<lambda>s. s\<lparr>thread_ticks := thread_ticks s + 1\<rparr>)) (\<lambda>_.
     bnd (gets thread_ticks) (\<lambda>n.
     if n \<ge> TIME_SLICE then intr_yield_on_return else ret ())))))"

subsection \<open>Semaphores\<close>

definition set_sema :: "sema_id \<Rightarrow> (semaphore \<Rightarrow> semaphore) \<Rightarrow> ('a sched_scheme, unit) op" where
  "set_sema sema f = modify (\<lambda>s. s\<lparr>semas := (semas s)(sema := f (semas s sema))\<rparr>)"

definition sema_init :: "sema_id \<Rightarrow> u32 \<Rightarrow> ('a sched_scheme, unit) op" where
  "sema_init sema v = set_sema sema (\<lambda>_. \<lparr>svalue = v, waiters = []\<rparr>)"

text \<open>The loop of \<open>sema_down\<close> and what follows it, with interrupts off: a thread that finds the value zero
  joins the waiters and sleeps, and starts over when it runs again.\<close>

definition sema_wait :: "sema_id \<Rightarrow> intr_level \<Rightarrow> ('a sched_scheme, unit) op" where
  "sema_wait sema old_level =
     bnd (gets (\<lambda>s. svalue (semas s sema))) (\<lambda>v.
     if v = 0
     then bnd thread_current (\<lambda>t.
          bnd (set_sema sema (\<lambda>q. q\<lparr>waiters := waiters q @ [t]\<rparr>)) (\<lambda>_.
          bnd thread_block (\<lambda>_. fail Blocked)))
     else bnd (set_sema sema (\<lambda>q. q\<lparr>svalue := svalue q - 1\<rparr>)) (\<lambda>_.
          bnd (intr_set_level old_level) (\<lambda>_. ret ())))"

definition sema_down :: "sema_id \<Rightarrow> ('a sched_scheme, unit) op" where
  "sema_down sema =
     bnd intr_context (\<lambda>c.
     bnd (ensure (\<not> c)) (\<lambda>_.
     bnd intr_disable (\<lambda>old_level. sema_wait sema old_level)))"

definition sema_try_down :: "sema_id \<Rightarrow> ('a sched_scheme, bool) op" where
  "sema_try_down sema =
     bnd intr_disable (\<lambda>old_level.
     bnd (gets (\<lambda>s. svalue (semas s sema))) (\<lambda>v.
     bnd (if v > 0 then set_sema sema (\<lambda>q. q\<lparr>svalue := svalue q - 1\<rparr>) else ret ()) (\<lambda>_.
     bnd (intr_set_level old_level) (\<lambda>_. ret (v > 0)))))"

definition sema_up :: "sema_id \<Rightarrow> ('a sched_scheme, unit) op" where
  "sema_up sema =
     bnd intr_disable (\<lambda>old_level.
     bnd (gets (\<lambda>s. waiters (semas s sema))) (\<lambda>ws.
     bnd (case ws of [] \<Rightarrow> ret ()
          | t # ts \<Rightarrow> bnd (set_sema sema (\<lambda>q. q\<lparr>waiters := ts\<rparr>)) (\<lambda>_. thread_unblock t)) (\<lambda>_.
     bnd (set_sema sema (\<lambda>q. q\<lparr>svalue := svalue q + 1\<rparr>)) (\<lambda>_.
     bnd (intr_set_level old_level) (\<lambda>_. ret ())))))"

subsection \<open>Locks\<close>

definition lock_init :: "lock_id \<Rightarrow> ('a sched_scheme, unit) op" where
  "lock_init l =
     bnd (modify (\<lambda>s. s\<lparr>holder := (holder s)(l := 0)\<rparr>)) (\<lambda>_. sema_init (LockSema l) 1)"

definition lock_held_by_current_thread :: "lock_id \<Rightarrow> ('a sched_scheme, bool) op" where
  "lock_held_by_current_thread l = bnd thread_current (\<lambda>t. gets (\<lambda>s. holder s l = t))"

definition set_holder :: "lock_id \<Rightarrow> ('a sched_scheme, unit) op" where
  "set_holder l = bnd thread_current (\<lambda>t. modify (\<lambda>s. s\<lparr>holder := (holder s)(l := t)\<rparr>))"

definition lock_acquire :: "lock_id \<Rightarrow> ('a sched_scheme, unit) op" where
  "lock_acquire l =
     bnd intr_context (\<lambda>c.
     bnd (ensure (\<not> c)) (\<lambda>_.
     bnd (lock_held_by_current_thread l) (\<lambda>h.
     bnd (ensure (\<not> h)) (\<lambda>_.
     bnd (sema_down (LockSema l)) (\<lambda>_. set_holder l)))))"

definition lock_try_acquire :: "lock_id \<Rightarrow> ('a sched_scheme, bool) op" where
  "lock_try_acquire l =
     bnd (lock_held_by_current_thread l) (\<lambda>h.
     bnd (ensure (\<not> h)) (\<lambda>_.
     bnd (sema_try_down (LockSema l)) (\<lambda>success.
     bnd (if success then set_holder l else ret ()) (\<lambda>_. ret success))))"

definition lock_release :: "lock_id \<Rightarrow> ('a sched_scheme, unit) op" where
  "lock_release l =
     bnd (lock_held_by_current_thread l) (\<lambda>h.
     bnd (ensure h) (\<lambda>_.
     bnd (modify (\<lambda>s. s\<lparr>holder := (holder s)(l := 0)\<rparr>)) (\<lambda>_. sema_up (LockSema l))))"

subsection \<open>Condition variables\<close>

text \<open>A condition variable is the list of the stack frames that wait on it, and \<open>WaiterSema w\<close> is the
  semaphore in frame \<open>w\<close>. \<open>cond_enqueue\<close> is the part of \<open>cond_wait\<close> before the thread sleeps.\<close>

definition cond_init :: "nat \<Rightarrow> ('a sched_scheme, unit) op" where
  "cond_init c = modify (\<lambda>s. s\<lparr>cond_waiters := (cond_waiters s)(c := [])\<rparr>)"

definition cond_enqueue :: "nat \<Rightarrow> lock_id \<Rightarrow> nat \<Rightarrow> ('a sched_scheme, unit) op" where
  "cond_enqueue c l w =
     bnd intr_context (\<lambda>i.
     bnd (ensure (\<not> i)) (\<lambda>_.
     bnd (lock_held_by_current_thread l) (\<lambda>h.
     bnd (ensure h) (\<lambda>_.
     bnd (sema_init (WaiterSema w) 0) (\<lambda>_.
     bnd (modify (\<lambda>s. s\<lparr>cond_waiters := (cond_waiters s)(c := cond_waiters s c @ [w])\<rparr>)) (\<lambda>_.
     lock_release l))))))"

definition cond_wait :: "nat \<Rightarrow> lock_id \<Rightarrow> nat \<Rightarrow> ('a sched_scheme, unit) op" where
  "cond_wait c l w =
     bnd (cond_enqueue c l w) (\<lambda>_.
     bnd (sema_down (WaiterSema w)) (\<lambda>_. lock_acquire l))"

definition cond_signal :: "nat \<Rightarrow> lock_id \<Rightarrow> ('a sched_scheme, unit) op" where
  "cond_signal c l =
     bnd intr_context (\<lambda>i.
     bnd (ensure (\<not> i)) (\<lambda>_.
     bnd (lock_held_by_current_thread l) (\<lambda>h.
     bnd (ensure h) (\<lambda>_.
     bnd (gets (\<lambda>s. cond_waiters s c)) (\<lambda>ws.
     case ws of [] \<Rightarrow> ret ()
     | w # ws \<Rightarrow> bnd (modify (\<lambda>s. s\<lparr>cond_waiters := (cond_waiters s)(c := ws)\<rparr>)) (\<lambda>_.
                 sema_up (WaiterSema w)))))))"

fun signal_all :: "nat \<Rightarrow> nat \<Rightarrow> lock_id \<Rightarrow> ('a sched_scheme, unit) op" where
  "signal_all 0 c l = bnd (gets (\<lambda>s. cond_waiters s c)) (\<lambda>ws. if ws = [] then ret () else fail OutOfFuel)"
| "signal_all (Suc n) c l =
     bnd (gets (\<lambda>s. cond_waiters s c)) (\<lambda>ws.
     if ws = [] then ret () else bnd (cond_signal c l) (\<lambda>_. signal_all n c l))"

definition cond_broadcast :: "nat \<Rightarrow> lock_id \<Rightarrow> ('a sched_scheme, unit) op" where
  "cond_broadcast c l = bnd (gets (\<lambda>s. length (cond_waiters s c))) (\<lambda>n. signal_all n c l)"

subsection \<open>Children\<close>

definition get_child :: "u32 \<Rightarrow> ('a sched_scheme, thread_child) op" where
  "get_child c = (\<lambda>s. case child_structs s c of None \<Rightarrow> (Inl NullDeref, s) | Some r \<Rightarrow> (Inr r, s))"

definition upd_child :: "u32 \<Rightarrow> (thread_child \<Rightarrow> thread_child) \<Rightarrow> ('a sched_scheme, unit) op" where
  "upd_child c f = bnd (get_child c) (\<lambda>r. modify (\<lambda>s. s\<lparr>child_structs := (child_structs s)(c := Some (f r))\<rparr>))"

fun find_child :: "int \<Rightarrow> u32 list \<Rightarrow> ('a sched_scheme, u32) op" where
  "find_child child_tid [] = ret 0"
| "find_child child_tid (c # cs) =
     bnd (get_child c) (\<lambda>r. if ctid r = child_tid then ret c else find_child child_tid cs)"

definition get_child_by_tid :: "int \<Rightarrow> ('a sched_scheme, u32) op" where
  "get_child_by_tid child_tid = bnd cur_thread (\<lambda>r. find_child child_tid (children r))"

definition has_child :: "int \<Rightarrow> ('a sched_scheme, bool) op" where
  "has_child child_tid = bnd (get_child_by_tid child_tid) (\<lambda>c. ret (c \<noteq> 0))"

definition get_child_struct_by_child :: "u32 \<Rightarrow> ('a sched_scheme, u32) op" where
  "get_child_struct_by_child tp = bnd (get_thread tp) (\<lambda>r. ret (child_list_elem r))"

subsection \<open>Creating and ending threads\<close>

text \<open>The \<open>memset\<close> clears the whole \<open>struct thread\<close>, the hash table of its pages included.\<close>

definition init_thread :: "u32 \<Rightarrow> u8 list \<Rightarrow> int \<Rightarrow> ('a sched_scheme, unit) op" where
  "init_thread t name prio =
     bnd (ensure (t \<noteq> 0)) (\<lambda>_.
     bnd (ensure (PRI_MIN \<le> prio \<and> prio \<le> PRI_MAX)) (\<lambda>_.
     bnd (modify (\<lambda>s. s\<lparr>threads := (threads s)(t := Some
            \<lparr>tid = 0, status = THREAD_RUNNING, tname = [], stack = 0, priority = 0, pagedir = 0, executable = NULL,
             children = [], open_files = [], parent = 0, child_list_elem = 0, stack_pointer = 0, esp = 0, magic = 0\<rparr>),
            SP_table := (SP_table s)(t := \<lparr>elem_cnt = 0, bucket_cnt = 0, buckets = []\<rparr>)\<rparr>)) (\<lambda>_.
     bnd (sema_init (LoadSema t) 0) (\<lambda>_.
     bnd (sema_init (WaitSema t) 0) (\<lambda>_.
     bnd (upd_thread t (\<lambda>r. r\<lparr>status := THREAD_BLOCKED, tname := take 15 name, stack := t + of_nat PGSIZE,
                              priority := prio, magic := THREAD_MAGIC\<rparr>)) (\<lambda>_.
     bnd intr_disable (\<lambda>old_level.
     bnd (modify (\<lambda>s. s\<lparr>all_list := all_list s @ [t]\<rparr>)) (\<lambda>_.
     bnd (intr_set_level old_level) (\<lambda>_. ret ())))))))))"

definition alloc_frame :: "u32 \<Rightarrow> nat \<Rightarrow> ('a sched_scheme, u32) op" where
  "alloc_frame t n =
     bnd (is_thread t) (\<lambda>b.
     bnd (ensure b) (\<lambda>_.
     bnd (ensure (n mod 4 = 0)) (\<lambda>_.
     bnd (upd_thread t (\<lambda>r. r\<lparr>stack := stack r - of_nat n\<rparr>)) (\<lambda>_.
     bnd (get_thread t) (\<lambda>r. ret (stack r))))))"

definition allocate_tid :: "('a sched_scheme, int) op" where
  "allocate_tid =
     bnd (lock_acquire TidLock) (\<lambda>_.
     bnd (gets next_tid) (\<lambda>t.
     bnd (modify (\<lambda>s. s\<lparr>next_tid := c_int (t + 1)\<rparr>)) (\<lambda>_.
     bnd (lock_release TidLock) (\<lambda>_. ret t))))"

definition thread_init :: "('a sched_scheme, unit) op" where
  "thread_init =
     bnd intr_get_level (\<lambda>level.
     bnd (ensure (level = INTR_OFF)) (\<lambda>_.
     bnd (lock_init TidLock) (\<lambda>_.
     bnd (modify (\<lambda>s. s\<lparr>ready_list := [], all_list := []\<rparr>)) (\<lambda>_.
     bnd running_thread (\<lambda>t.
     bnd (modify (\<lambda>s. s\<lparr>initial_thread := t\<rparr>)) (\<lambda>_.
     bnd (init_thread t (map (\<lambda>c. of_char c) ''main'') PRI_DEFAULT) (\<lambda>_.
     bnd (upd_thread t (\<lambda>r. r\<lparr>status := THREAD_RUNNING\<rparr>)) (\<lambda>_.
     bnd allocate_tid (\<lambda>n. upd_thread t (\<lambda>r. r\<lparr>tid := n\<rparr>))))))))))"

text \<open>The three stack frames of a new thread are 12, 4 and 28 bytes. \<open>kf\<close>, \<open>ef\<close> and \<open>sf\<close> are the words stored
  in them: the function and its argument, and the addresses of \<open>kernel_thread\<close> and \<open>switch_entry\<close>.\<close>

definition thread_create :: "u32 \<Rightarrow> u32 \<Rightarrow> u8 list \<Rightarrow> int \<Rightarrow> u32 \<Rightarrow> u32 \<Rightarrow> ('a sched_scheme, int) op" where
  "thread_create kernel_thread switch_entry name prio function aux =
     bnd (ensure (function \<noteq> 0)) (\<lambda>_.
     bnd (palloc_get_page PAL_ZERO) (\<lambda>t.
     if t = 0 then ret TID_ERROR else
     bnd (init_thread t name prio) (\<lambda>_.
     bnd allocate_tid (\<lambda>n.
     bnd (upd_thread t (\<lambda>r. r\<lparr>tid := n\<rparr>)) (\<lambda>_.
     bnd (palloc_get_page PAL_ZERO) (\<lambda>c.
     if c = 0 then ret TID_ERROR else
     bnd (modify (\<lambda>s. s\<lparr>child_structs := (child_structs s)(c := Some
            \<lparr>ctid = n, child_pointer = t, parent_waiting = 0, exit_status = UNUSED_CHILD_EXIT_STATUS\<rparr>)\<rparr>)) (\<lambda>_.
     bnd thread_current (\<lambda>cur.
     bnd (upd_thread t (\<lambda>r. r\<lparr>parent := cur\<rparr>)) (\<lambda>_.
     bnd (upd_current (\<lambda>r. r\<lparr>children := children r @ [c]\<rparr>)) (\<lambda>_.
     bnd (upd_thread t (\<lambda>r. r\<lparr>child_list_elem := c\<rparr>)) (\<lambda>_.
     bnd (has_child n) (\<lambda>h.
     bnd (ensure h) (\<lambda>_.
     bnd (alloc_frame t 12) (\<lambda>kf.
     bnd (store_word kf 0) (\<lambda>_. bnd (store_word (kf + 4) function) (\<lambda>_. bnd (store_word (kf + 8) aux) (\<lambda>_.
     bnd (alloc_frame t 4) (\<lambda>ef.
     bnd (store_word ef kernel_thread) (\<lambda>_.
     bnd (alloc_frame t 28) (\<lambda>sf.
     bnd (store_word (sf + 16) switch_entry) (\<lambda>_. bnd (store_word (sf + 8) 0) (\<lambda>_.
     bnd (thread_unblock t) (\<lambda>_. ret n)))))))))))))))))))))))"

definition process_exit :: "('a sched_scheme, unit) op" where
  "process_exit =
     bnd thread_current (\<lambda>cur.
     bnd (get_thread cur) (\<lambda>r.
     let pd = pagedir r in
     if pd \<noteq> 0
     then bnd (upd_thread cur (\<lambda>r. r\<lparr>pagedir := 0\<rparr>)) (\<lambda>_.
          bnd (pagedir_activate 0) (\<lambda>_. pagedir_destroy pd))
     else ret ()))"

definition thread_exit :: "('a sched_scheme, unit) op" where
  "thread_exit =
     bnd intr_context (\<lambda>c.
     bnd (ensure (\<not> c)) (\<lambda>_.
     bnd cur_thread (\<lambda>r.
     bnd (get_thread (parent r)) (\<lambda>_.
     bnd (sema_up (WaitSema (parent r))) (\<lambda>_.
     bnd cur_thread (\<lambda>r.
     bnd (file_close (executable r)) (\<lambda>_.
     bnd process_exit (\<lambda>_.
     bnd intr_disable (\<lambda>_.
     bnd thread_current (\<lambda>t.
     bnd (modify (\<lambda>s. s\<lparr>all_list := remove1 t (all_list s)\<rparr>)) (\<lambda>_.
     bnd (upd_current (\<lambda>r. r\<lparr>status := THREAD_DYING\<rparr>)) (\<lambda>_.
     schedule))))))))))))"

definition thread_start :: "u32 \<Rightarrow> u32 \<Rightarrow> u32 \<Rightarrow> nat \<Rightarrow> u32 \<Rightarrow> ('a sched_scheme, unit) op" where
  "thread_start kernel_thread switch_entry idle idle_started aux =
     bnd (sema_init (SemaAt idle_started) 0) (\<lambda>_.
     bnd (thread_create kernel_thread switch_entry (map (\<lambda>c. of_char c) ''idle'') PRI_MIN idle aux) (\<lambda>_.
     bnd intr_enable (\<lambda>_. sema_down (SemaAt idle_started))))"

text \<open>The idle thread up to its loop, one round of the loop up to the switch, and the function that every
  new thread starts in; \<open>function\<close> is what the thread runs.\<close>

definition idle_enter :: "nat \<Rightarrow> ('a sched_scheme, unit) op" where
  "idle_enter idle_started =
     bnd thread_current (\<lambda>t.
     bnd (modify (\<lambda>s. s\<lparr>idle_thread := t\<rparr>)) (\<lambda>_. sema_up (SemaAt idle_started)))"

definition idle_round :: "('a sched_scheme, unit) op" where
  "idle_round = bnd intr_disable (\<lambda>_. thread_block)"

definition kernel_thread :: "('a sched_scheme, unit) op \<Rightarrow> ('a sched_scheme, unit) op" where
  "kernel_thread function = bnd intr_enable (\<lambda>_. bnd function (\<lambda>_. thread_exit))"

fun thread_foreach_loop :: "(u32 \<Rightarrow> ('a sched_scheme, unit) op) \<Rightarrow> u32 list \<Rightarrow> ('a sched_scheme, unit) op" where
  "thread_foreach_loop func [] = ret ()"
| "thread_foreach_loop func (t # ts) = bnd (func t) (\<lambda>_. thread_foreach_loop func ts)"

definition thread_foreach :: "(u32 \<Rightarrow> ('a sched_scheme, unit) op) \<Rightarrow> ('a sched_scheme, unit) op" where
  "thread_foreach func =
     bnd intr_get_level (\<lambda>level.
     bnd (ensure (level = INTR_OFF)) (\<lambda>_.
     bnd (gets all_list) (\<lambda>ts. thread_foreach_loop func ts)))"

subsection \<open>A running thread\<close>

definition current :: "'a sched_scheme \<Rightarrow> bool" where
  "current s \<longleftrightarrow> running s \<noteq> 0
     \<and> (\<exists>r. threads s (running s) = Some r \<and> magic r = THREAD_MAGIC \<and> status r = THREAD_RUNNING)"

lemma thread_current_ok: "current s \<Longrightarrow> thread_current s = (Inr (running s), s)"
  by (auto simp: current_def thread_current_def running_thread_def is_thread_def get_thread_def bnd_apply)

lemma cur_thread_ok: "current s \<Longrightarrow> cur_thread s = (Inr (the (threads s (running s))), s)"
  by (auto simp: cur_thread_def thread_current_ok get_thread_def current_def)

end
