(* ===== verification/Page.thy ===== *)
theory Page
  imports Sched
begin

text \<open>
  The supplemental page table, from \<^verbatim>\<open>vm/page.c\<close>, and the end of a process, \<open>exit\<close> of
  \<^verbatim>\<open>userprog/syscall.c\<close>, which the routines of the virtual memory call when something is wrong.

  A \<open>struct SPT_entry\<close> is kept by its address. The hash table of a thread links the entries; an
  element of it is the address of an entry with the page number of the entry, which the hash and
  comparison functions read and which does not change after the entry is created. The table of a
  thread that never called \<open>hash_init\<close> is all zeros, as \<open>init_thread\<close> leaves it, and has no buckets.

  The theory interprets the contract of hash table clients by \<open>hasher\<close> and \<open>page_less\<close>, and shows that
  creating, finding and removing entries act on the table as on a finite map from page numbers.
\<close>

record SPT_entry =
  is_stack_page :: bool
  vaddr :: u32
  page_number :: u32
  resident_bit :: bool
  swap_index :: int
  dirty_bit :: bool
  ofs :: int
  page_read_bytes :: nat
  page_zero_bytes :: nat
  writable :: bool

record FrameTableEntry =
  frame_ptr :: u32
  full :: bool
  fvaddr :: u32

record Swap_entry =
  swap_tid :: int
  swap_vaddr :: u32

record vm = sched +
  spt :: "addr \<Rightarrow> SPT_entry option"
  frame_table :: "FrameTableEntry list"
  max_frame :: nat
  bump_ptr :: nat
  swap_block :: "nat option"
  swap_table :: "Swap_entry list"
  entries :: nat
  page_fault_cnt :: nat

subsection \<open>Ending a process\<close>

definition set_exit_status :: "int \<Rightarrow> ('a sched_scheme, unit) op" where
  "set_exit_status st = bnd cur_thread (\<lambda>r. upd_child (child_list_elem r) (\<lambda>c. c\<lparr>exit_status := st\<rparr>))"

definition exit :: "int \<Rightarrow> ('a sched_scheme, 'b) op" where
  "exit st = bnd (set_exit_status st) (\<lambda>_. bnd thread_exit (\<lambda>_. fail (Exited st)))"

subsection \<open>Page numbers\<close>

definition max_page :: u32 where
  "max_page = PHYS_BASE div of_nat PGSIZE"

definition vaddr_to_page_num :: "u32 \<Rightarrow> ('a sched_scheme, u32) op" where
  "vaddr_to_page_num addr =
     bnd (if is_user_vaddr addr then ret () else exit (- 1)) (\<lambda>_.
     let pn = drop_bit PGBITS addr in
     bnd (ensure (pn < max_page)) (\<lambda>_. ret pn))"

definition page_num_to_vaddr :: "u32 \<Rightarrow> ('a sched_scheme, u32) op" where
  "page_num_to_vaddr pn =
     bnd (ensure (pn < max_page)) (\<lambda>_.
     let va = of_nat PGSIZE * pn in
     bnd (ensure (is_user_vaddr va)) (\<lambda>_. ret va))"

subsection \<open>The table of the running thread\<close>

definition hasher :: "spt_elem \<Rightarrow> u32" where
  "hasher e = hash_int (snd e)"

definition page_less :: "spt_elem \<Rightarrow> spt_elem \<Rightarrow> bool" where
  "page_less a b \<longleftrightarrow> snd a < snd b"

text \<open>The assertion of \<open>hasher\<close> for the element that is looked up; the elements in the table passed it
  when they were inserted.\<close>

definition hasher_assert :: "u32 \<Rightarrow> ('a vm_scheme, unit) op" where
  "hasher_assert pn = ensure (hash_int pn > 0)"

definition get_curr_hash :: "('a vm_scheme, spt_elem hash) op" where
  "get_curr_hash = bnd thread_current (\<lambda>t. gets (\<lambda>s. SP_table s t))"

definition set_curr_hash :: "spt_elem hash \<Rightarrow> ('a vm_scheme, unit) op" where
  "set_curr_hash h = bnd thread_current (\<lambda>t. modify (\<lambda>s. s\<lparr>SP_table := (SP_table s)(t := h)\<rparr>))"

definition get_SPT_entry :: "u32 \<Rightarrow> ('a vm_scheme, addr) op" where
  "get_SPT_entry va =
     bnd (vaddr_to_page_num va) (\<lambda>pn.
     bnd get_curr_hash (\<lambda>h.
     bnd (hasher_assert pn) (\<lambda>_.
     bnd (lift_res (hash_find hasher page_less h (NULL, pn))) (\<lambda>e.
     ret (case e of None \<Rightarrow> NULL | Some (a, _) \<Rightarrow> a)))))"

definition get_spte :: "addr \<Rightarrow> ('a vm_scheme, SPT_entry) op" where
  "get_spte a = (\<lambda>s. case spt s a of None \<Rightarrow> (Inl NullDeref, s) | Some e \<Rightarrow> (Inr e, s))"

definition upd_spte :: "addr \<Rightarrow> (SPT_entry \<Rightarrow> SPT_entry) \<Rightarrow> ('a vm_scheme, unit) op" where
  "upd_spte a f = bnd (get_spte a) (\<lambda>e. modify (\<lambda>s. s\<lparr>spt := (spt s)(a := Some (f e))\<rparr>))"

text \<open>The growth of the hash table asks the heap for memory once more; \<open>heap_ok\<close> is the answer.\<close>

definition heap_ok :: "('a kern_scheme, bool) op" where
  "heap_ok = bnd kmalloc (\<lambda>a. ret (a \<noteq> NULL))"

definition create_SPT_entry ::
  "u32 \<Rightarrow> bool \<Rightarrow> int \<Rightarrow> nat \<Rightarrow> nat \<Rightarrow> bool \<Rightarrow> ('a vm_scheme, addr) op" where
  "create_SPT_entry va resident o' read_bytes zero_bytes w =
     bnd kmalloc (\<lambda>temp.
     if temp = NULL then fail NullDeref else
     bnd (vaddr_to_page_num va) (\<lambda>pn.
     bnd (modify (\<lambda>s. s\<lparr>spt := (spt s)(temp := Some
            \<lparr>is_stack_page = False, vaddr = va, page_number = pn, resident_bit = resident, swap_index = 0,
             dirty_bit = False, ofs = o', page_read_bytes = read_bytes, page_zero_bytes = zero_bytes, writable = w\<rparr>)\<rparr>)) (\<lambda>_.
     bnd get_curr_hash (\<lambda>h.
     bnd (hasher_assert pn) (\<lambda>_.
     bnd heap_ok (\<lambda>m.
     bnd (lift_res (hash_insert hasher page_less m h (temp, pn))) (\<lambda>(_, h).
     bnd (set_curr_hash h) (\<lambda>_.
     bnd (get_SPT_entry va) (\<lambda>e.
     bnd (ensure (e \<noteq> NULL)) (\<lambda>_. ret temp))))))))))"

definition remove_SPT_entry :: "addr \<Rightarrow> ('a vm_scheme, unit) op" where
  "remove_SPT_entry spte =
     bnd (get_spte spte) (\<lambda>e.
     bnd get_curr_hash (\<lambda>h.
     bnd (hasher_assert (page_number e)) (\<lambda>_.
     bnd heap_ok (\<lambda>m.
     bnd (lift_res (hash_delete hasher page_less m h (spte, page_number e))) (\<lambda>(_, h).
     bnd (set_curr_hash h) (\<lambda>_.
     modify (\<lambda>s. s\<lparr>spt := (spt s)(spte := None)\<rparr>)))))))"

text \<open>\<open>init_SPT\<close> copies the table of the thread into a local variable and does nothing else.\<close>

definition init_SPT :: "u32 \<Rightarrow> ('a vm_scheme, unit) op" where
  "init_SPT t = bnd (gets (\<lambda>s. SP_table s t)) (\<lambda>temp. ret ())"

interpretation sp: hash_client hasher page_less
proof
  fix a b c :: spt_elem
  show "\<not> page_less a a" by (simp add: page_less_def)
  show "page_less a c \<Longrightarrow> page_less a b \<or> page_less b c" by (auto simp: page_less_def)
  show "page_less a b \<Longrightarrow> \<not> page_less b a" by (auto simp: page_less_def)
  show "\<not> page_less a b \<Longrightarrow> \<not> page_less b a \<Longrightarrow> hasher a = hasher b"
    by (simp add: page_less_def hasher_def)
qed

subsection \<open>The hash of a page number\<close>

text \<open>The assertion of \<open>hasher\<close> cannot fail: no page number below \<open>max_page\<close> hashes to zero. Going backwards
  from a zero hash through the two last bytes leaves 12 values for the upper 24 bits of an
  intermediate hash, and none of the 256 values of the first byte leads to one of them.\<close>

definition FNV_INVERSE :: u32 where "FNV_INVERSE = 899433627"

definition fnv_step :: "u32 \<Rightarrow> u8 \<Rightarrow> u32" where
  "fnv_step h b = (h * FNV_32_PRIME) XOR ucast b"

lemma fnv_upper: "drop_bit 8 (fnv_step h b) = drop_bit 8 (h * FNV_32_PRIME)"
  by (rule bit_word_eqI) (auto simp: fnv_step_def bit_drop_bit_eq bit_xor_iff ucast_byte_bit)

lemma fnv_unit: "FNV_32_PRIME * FNV_INVERSE = 1"
  by (simp add: FNV_32_PRIME_def FNV_INVERSE_def)

lemma fnv_inverse: "(h * FNV_32_PRIME) * FNV_INVERSE = h"
  unfolding mult.assoc fnv_unit by simp

lemma fnv_zero: "fnv_step h b = 0 \<longleftrightarrow> h = ucast b * FNV_INVERSE"
proof
  assume "fnv_step h b = 0"
  then have "(h * FNV_32_PRIME XOR ucast b) XOR ucast b = ucast b" by (simp add: fnv_step_def)
  then have "h * FNV_32_PRIME = ucast b" by (simp add: xor.assoc)
  then show "h = ucast b * FNV_INVERSE" using fnv_inverse [of h] by simp
next
  assume h: "h = ucast b * FNV_INVERSE"
  show "fnv_step h b = 0"
    unfolding h fnv_step_def mult.assoc mult.commute [of FNV_INVERSE] fnv_unit by simp
qed

definition upper_values :: "int list" where
  "upper_values = [0, 3513412, 7026825, 10540237, 14053650, 789847, 4303259, 7816672, 11330084, 14843497, 1579694, 5093106]"

fun clash :: "nat \<Rightarrow> int \<Rightarrow> bool" where
  "clash 0 x = False"
| "clash (Suc n) x = (List.member upper_values ((x * 16777619) mod 4294967296 div 256) \<or> clash n (x + 1))"

lemma clash_iff: "clash n x \<longleftrightarrow> (\<exists>i < n. ((x + int i) * 16777619) mod 4294967296 div 256 \<in> set upper_values)"
  by (induction n arbitrary: x) (auto simp: Ex_less_Suc2 algebra_simps)

lemma no_clash: "\<not> clash 256 84696320"
  by code_simp

lemma unat_word_div: "unat (drop_bit 8 (w::u32)) = unat w div 256"
  using unsigned_less [of w, where ?'a = nat] by (simp add: unsigned_drop_bit_eq drop_bit_nat_def take_bit_nat_def)

lemma upper_values: "k < 12 \<Longrightarrow> int (k * 899433627 mod 4294967296 div 256) \<in> set upper_values"
proof -
  assume "k < 12"
  then have "k \<in> set [0, 1, 2, 3, 4, 5, 6, 7, 8, 9, 10, 11]" by simp presburger
  then show ?thesis by (auto simp: upper_values_def)
qed

lemma unat_byte: "unat (ucast (b::u8) :: u32) = unat b"
  using unsigned_less [of b, where ?'a = nat] by (simp add: unsigned_ucast_eq take_bit_nat_def)

lemma hash_int_positive:
  assumes "pn < max_page"
  shows "hash_int pn > 0"
proof -
  let ?b0 = "ucast pn :: u8" and ?b1 = "ucast (drop_bit 8 pn) :: u8" and ?b2 = "ucast (drop_bit 16 pn) :: u8"
  have lt: "unat pn < 0xc0000" using assms by (simp add: max_page_def PHYS_BASE_def PGSIZE_def PGBITS_def word_less_nat_alt unat_div_distrib)
  have b3: "ucast (drop_bit 24 pn) = (0::u8)"
  proof -
    have "drop_bit 24 pn = 0" using lt by (simp add: word_unat_eq_iff unsigned_drop_bit_eq drop_bit_nat_def take_bit_nat_def)
    then show ?thesis by simp
  qed
  have b2: "unat ?b2 < 12"
  proof -
    have "unat (drop_bit 16 pn) = unat pn div 2 ^ 16"
      using unsigned_less [of pn, where ?'a = nat] by (simp add: unsigned_drop_bit_eq drop_bit_nat_def take_bit_nat_def)
    then have "unat (drop_bit 16 pn) < 12" using lt by simp
    then show ?thesis by (simp add: unsigned_ucast_eq take_bit_nat_def)
  qed
  define x1 x2 x3 where "x1 = fnv_step FNV_32_BASIS ?b0" and "x2 = fnv_step x1 ?b1" and "x3 = fnv_step x2 ?b2"
  have h: "hash_int pn = fnv_step x3 0"
    by (simp add: hash_int_def hash_bytes_def b3 x1_def x2_def x3_def fnv_step_def)
  have "hash_int pn \<noteq> 0"
  proof
    assume "hash_int pn = 0"
    then have "x3 = 0" unfolding h fnv_zero by simp
    then have "x2 = ucast ?b2 * FNV_INVERSE" unfolding x3_def fnv_zero .
    then have c: "drop_bit 8 (x1 * FNV_32_PRIME) = drop_bit 8 (ucast ?b2 * FNV_INVERSE)"
      unfolding x2_def using fnv_upper by metis
    have "unat x1 div 256 = 330845"
      using arg_cong [OF fnv_upper [of FNV_32_BASIS ?b0], of unat] unfolding x1_def unat_word_div
      by (simp add: FNV_32_BASIS_def FNV_32_PRIME_def)
    then have "unat x1 = 84696320 + (unat x1 - 84696320)" "unat x1 - 84696320 < 256" by auto
    then have "int (unat x1 * 16777619 mod 4294967296 div 256) \<in> set upper_values \<longrightarrow> clash 256 84696320"
      unfolding clash_iff by (intro impI exI [of _ "unat x1 - 84696320"]) (simp add: zdiv_int zmod_int)
    moreover have "int (unat x1 * 16777619 mod 4294967296 div 256) = int (unat ?b2 * 899433627 mod 4294967296 div 256)"
      using arg_cong [OF c, of unat] unfolding unat_word_div unat_word_ariths unat_byte
      by (simp add: FNV_32_PRIME_def FNV_INVERSE_def)
    moreover have "int (unat ?b2 * 899433627 mod 4294967296 div 256) \<in> set upper_values"
      using b2 by (rule upper_values)
    ultimately show False using no_clash by simp
  qed
  then show ?thesis by (simp add: word_gt_0)
qed

subsection \<open>The table as a map\<close>

definition table_of :: "spt_elem hash \<Rightarrow> u32 \<Rightarrow> addr option" where
  "table_of h = map_of (map (\<lambda>(a, pn). (pn, a)) (concat (buckets h)))"

abbreviation spt_of :: "'a vm_scheme \<Rightarrow> u32 \<Rightarrow> u32 \<Rightarrow> addr option" where
  "spt_of s t \<equiv> table_of (SP_table s t)"

lemma equiv_iff [simp]: "sp.equiv a b \<longleftrightarrow> snd a = snd b"
  by (auto simp: sp.equiv_def page_less_def)

lemma table_of_iff:
  assumes "sp.wf_hash h"
  shows "table_of h pn = Some a \<longleftrightarrow> (a, pn) \<in> sp.elems h"
proof -
  have d: "distinct (concat (buckets h))" and i: "inj_on snd (set (concat (buckets h)))"
    using assms by (auto simp: sp.wf_hash_def sp.elems_def inj_on_def)
  have "map fst (map (\<lambda>(a, pn). (pn, a)) (concat (buckets h))) = map snd (concat (buckets h))" by auto
  then have k: "distinct (map fst (map (\<lambda>(a, pn). (pn, a)) (concat (buckets h))))"
    using d i by (simp only: distinct_map simp_thms)
  show ?thesis unfolding table_of_def map_of_eq_Some_iff [OF k] sp.elems_def by auto
qed

lemma option_eqI: "(\<And>b. x = Some b \<longleftrightarrow> y = Some b) \<Longrightarrow> x = y"
  by (cases x; cases y) auto

lemma table_of_cong:
  "sp.wf_hash h \<Longrightarrow> sp.wf_hash h' \<Longrightarrow> sp.elems h' = sp.elems h \<Longrightarrow> table_of h' = table_of h"
  by (intro ext option_eqI) (simp add: table_of_iff)

lemma hash_find_table:
  assumes "sp.wf_hash h"
  shows "hash_find hasher page_less h (b, pn) = Inr (map_option (\<lambda>a. (a, pn)) (table_of h pn))"
proof -
  obtain r where r: "hash_find hasher page_less h (b, pn) = Inr r"
      "case r of None \<Rightarrow> \<forall>x \<in> sp.elems h. \<not> sp.equiv x (b, pn) | Some x \<Rightarrow> x \<in> sp.elems h \<and> sp.equiv x (b, pn)"
    using sp.hash_find_correct [OF assms] by blast
  have "r = map_option (\<lambda>a. (a, pn)) (table_of h pn)"
  proof (cases "table_of h pn")
    case None
    then have "\<forall>x \<in> sp.elems h. snd x \<noteq> pn" using table_of_iff [OF assms] by force
    then show ?thesis using None r(2) by (cases r) auto
  next
    case (Some a)
    then have "(a, pn) \<in> sp.elems h" using table_of_iff [OF assms] by blast
    moreover obtain x where x: "r = Some x" "x \<in> sp.elems h" "snd x = pn"
      using r(2) \<open>(a, pn) \<in> sp.elems h\<close> by (cases r) fastforce+
    ultimately have "x = (a, pn)" using table_of_iff [OF assms] Some by (cases x) (metis option.inject snd_conv)
    then show ?thesis using Some x by simp
  qed
  with r(1) show ?thesis by simp
qed

lemma hash_insert_table:
  assumes "sp.wf_hash h" "elem_cnt h + 1 < 2 ^ 32"
  obtains r h' where "hash_insert hasher page_less m h (a, pn) = Inr (r, h')" "sp.wf_hash h'"
    "table_of h' = (if table_of h pn = None then (table_of h)(pn := Some a) else table_of h)"
proof -
  obtain r h' where r: "hash_insert hasher page_less m h (a, pn) = Inr (r, h')" "sp.wf_hash h'"
      "case r of None \<Rightarrow> (\<forall>x \<in> sp.elems h. \<not> sp.equiv x (a, pn)) \<and> sp.elems h' = insert (a, pn) (sp.elems h)
       | Some x \<Rightarrow> x \<in> sp.elems h \<and> sp.equiv x (a, pn) \<and> sp.elems h' = sp.elems h"
    using sp.hash_insert_correct [OF assms] by blast
  have "table_of h' = (if table_of h pn = None then (table_of h)(pn := Some a) else table_of h)"
  proof (cases r)
    case None
    then have ne: "\<forall>x \<in> sp.elems h. snd x \<noteq> pn" and el: "sp.elems h' = insert (a, pn) (sp.elems h)" using r(3) by auto
    have "table_of h pn = None" using ne table_of_iff [OF assms(1), of pn] by (metis not_Some_eq snd_conv)
    moreover have "table_of h' q = ((table_of h)(pn := Some a)) q" for q
    proof (cases "q = pn")
      case True
      then show ?thesis using table_of_iff [OF r(2), of pn a] el by simp
    next
      case False
      then have "table_of h' q = Some b \<longleftrightarrow> table_of h q = Some b" for b
        using table_of_iff [OF r(2), of q b] table_of_iff [OF assms(1), of q b] el by auto
      then show ?thesis using False by (simp add: option_eqI)
    qed
    ultimately show ?thesis by auto
  next
    case (Some x)
    then have "table_of h pn = Some (fst x)" using r(3) table_of_iff [OF assms(1), of pn "fst x"] by (cases x) auto
    moreover have "table_of h' = table_of h" by (rule table_of_cong) (use Some r assms in auto)
    ultimately show ?thesis by simp
  qed
  with r(1,2) that show thesis by blast
qed

lemma hash_delete_table:
  assumes "sp.wf_hash h" "table_of h pn = Some a"
  obtains h' where "hash_delete hasher page_less m h (a, pn) = Inr (Some (a, pn), h')" "sp.wf_hash h'"
    "table_of h' = (table_of h)(pn := None)"
proof -
  have a: "(a, pn) \<in> sp.elems h" using assms table_of_iff by blast
  obtain r h' where r: "hash_delete hasher page_less m h (a, pn) = Inr (r, h')" "sp.wf_hash h'"
      "case r of None \<Rightarrow> (\<forall>x \<in> sp.elems h. \<not> sp.equiv x (a, pn)) \<and> h' = h
       | Some x \<Rightarrow> x \<in> sp.elems h \<and> sp.equiv x (a, pn) \<and> sp.elems h' = sp.elems h - {x}"
    using sp.hash_delete_correct [OF assms(1)] by blast
  then obtain x where x: "r = Some x" "x \<in> sp.elems h" "snd x = pn" "sp.elems h' = sp.elems h - {x}"
    using a by (cases r) auto
  have "x = (a, pn)" using table_of_iff [OF assms(1), of pn "fst x"] x(2,3) assms(2) by (cases x) auto
  moreover have "table_of h' = (table_of h)(pn := None)"
  proof (intro ext option_eqI)
    fix q b
    show "table_of h' q = Some b \<longleftrightarrow> ((table_of h)(pn := None)) q = Some b"
      using table_of_iff [OF r(2), of q b] table_of_iff [OF assms(1), of q b] x(4) assms(2)
      unfolding \<open>x = (a, pn)\<close> by (cases "q = pn") auto
  qed
  ultimately show thesis using that r(1,2) x(1) by blast
qed

subsection \<open>Operations on the table\<close>

abbreviation page_of :: "u32 \<Rightarrow> u32" where
  "page_of va \<equiv> drop_bit PGBITS va"

lemma page_below: "is_user_vaddr va \<Longrightarrow> page_of va < max_page"
proof -
  assume "is_user_vaddr va"
  then have "unat va < 0xc0000000" by (simp add: is_user_vaddr_def PHYS_BASE_def word_less_nat_alt)
  then have "unat va div 4096 < 0xc0000" by simp
  moreover have "unat (page_of va) = unat va div 4096"
    using unsigned_less [of va, where ?'a = nat]
    by (simp add: PGBITS_def unsigned_drop_bit_eq drop_bit_nat_def take_bit_nat_def)
  moreover have "unat max_page = 0xc0000"
    by (simp add: max_page_def PHYS_BASE_def PGSIZE_def PGBITS_def unat_div_distrib)
  ultimately show ?thesis by (simp add: word_less_nat_alt)
qed

lemma vaddr_to_page_num_ok: "is_user_vaddr va \<Longrightarrow> vaddr_to_page_num va s = (Inr (page_of va), s)"
  by (simp add: vaddr_to_page_num_def page_below)

lemma hasher_assert_ok: "is_user_vaddr va \<Longrightarrow> hasher_assert (page_of va) s = (Inr (), s)"
  using hash_int_positive [OF page_below] by (simp add: hasher_assert_def)

lemma get_SPT_entry_ok:
  assumes "current s" "sp.wf_hash (SP_table s (running s))" "is_user_vaddr va"
  shows "get_SPT_entry va s = (Inr (case spt_of s (running s) (page_of va) of None \<Rightarrow> NULL | Some a \<Rightarrow> a), s)"
  using thread_current_ok [OF assms(1)]
  by (simp add: get_SPT_entry_def vaddr_to_page_num_ok [OF assms(3)] get_curr_hash_def
      hasher_assert_ok [OF assms(3)] hash_find_table [OF assms(2)] split: option.splits)

text \<open>C31: A supplemental page table is a finite map from page numbers to entries. For a user address,
  \<open>create_SPT_entry\<close> adds the new entry under the page of the address when the page has none; when the page
  already has an entry, the table stays as it is, and \<open>get_SPT_entry\<close> goes on finding the entry the page had
  while the address returned is that of the block just allocated. No assertion fails, and no other thread's table changes.\<close>

theorem SPT_refines_map:
  fixes s :: "'a vm_scheme"
  assumes "current s" and "sp.wf_hash (SP_table s (running s))" and "is_user_vaddr va"
    and "elem_cnt (SP_table s (running s)) + 1 < 2 ^ 32" and "malloc_ok s (malloc_cnt s)"
    and "NULL \<notin> ran (spt_of s (running s))"
  shows "\<exists>a t. create_SPT_entry va resident o' rb zb w s = (Inr a, t) \<and> a = Suc (malloc_cnt s)
     \<and> sp.wf_hash (SP_table t (running t)) \<and> running t = running s
     \<and> spt_of t (running s) = (if spt_of s (running s) (page_of va) = None
          then (spt_of s (running s))(page_of va := Some a) else spt_of s (running s))
     \<and> (\<forall>u. u \<noteq> running s \<longrightarrow> SP_table t u = SP_table s u)
     \<and> get_SPT_entry va t = (Inr (case spt_of s (running s) (page_of va) of None \<Rightarrow> a | Some b \<Rightarrow> b), t)"
proof -
  let ?r = "running s" and ?a = "Suc (malloc_cnt s)" and ?h = "SP_table s (running s)"
  let ?e = "\<lparr>is_stack_page = False, vaddr = va, page_number = page_of va, resident_bit = resident, swap_index = 0,
             dirty_bit = False, ofs = o', page_read_bytes = rb, page_zero_bytes = zb, writable = w\<rparr>"
  obtain r h' where h: "hash_insert hasher page_less (malloc_ok s ?a) ?h (?a, page_of va) = Inr (r, h')" "sp.wf_hash h'"
      "table_of h' = (if table_of ?h (page_of va) = None then (table_of ?h)(page_of va := Some ?a) else table_of ?h)"
    by (rule hash_insert_table [OF assms(2,4)])
  define t where "t = s\<lparr>malloc_cnt := Suc (Suc (malloc_cnt s)), spt := (spt s)(?a := Some ?e),
    SP_table := (SP_table s)(?r := h')\<rparr>"
  have cur: "current (s\<lparr>malloc_cnt := n, spt := q, SP_table := x\<rparr>)" for n q x
    using assms(1) by (simp add: current_def)
  have find: "get_SPT_entry va t = (Inr (case table_of h' (page_of va) of None \<Rightarrow> NULL | Some b \<Rightarrow> b), t)"
    using get_SPT_entry_ok [of t va] cur h(2) assms(3) by (simp add: t_def)
  have nn: "(case table_of h' (page_of va) of None \<Rightarrow> NULL | Some b \<Rightarrow> b) \<noteq> NULL"
  proof (cases "table_of ?h (page_of va)")
    case (Some b)
    then have "b \<noteq> NULL" using assms(6) ranI by metis
    then show ?thesis using Some unfolding h(3) by simp
  qed (simp add: h(3))
  have m: "kmalloc s = (Inr ?a, s\<lparr>malloc_cnt := ?a\<rparr>)" using assms(5) by (simp add: kmalloc_def)
  let ?s = "s\<lparr>malloc_cnt := ?a, spt := (spt s)(?a := Some ?e)\<rparr>"
  have c: "current ?s" "current (?s\<lparr>malloc_cnt := Suc ?a\<rparr>)" using assms(1) by (simp_all add: current_def)
  have g: "get_curr_hash ?s = (Inr ?h, ?s)" using thread_current_ok [OF c(1)] by (simp add: get_curr_hash_def)
  have k: "heap_ok ?s = (Inr (malloc_ok s ?a), ?s\<lparr>malloc_cnt := Suc ?a\<rparr>)" by (simp add: heap_ok_def kmalloc_def)
  have p: "set_curr_hash h' (s\<lparr>spt := (spt s)(?a := Some ?e), malloc_cnt := Suc ?a\<rparr>) = (Inr (), t)"
    using thread_current_ok [OF c(2)] by (simp add: set_curr_hash_def t_def)
  have "create_SPT_entry va resident o' rb zb w s = (Inr ?a, t)"
    using nn unfolding create_SPT_entry_def
    by (simp add: m vaddr_to_page_num_ok [OF assms(3)] g hasher_assert_ok [OF assms(3)] k h(1) p find del: fun_upd_apply)
  moreover have "table_of h' (page_of va) = (case table_of ?h (page_of va) of None \<Rightarrow> Some ?a | Some b \<Rightarrow> Some b)"
    unfolding h(3) by (auto split: option.splits)
  ultimately show ?thesis using h find by (intro exI [of _ ?a] exI [of _ t]) (auto simp: t_def split: option.splits)
qed

definition ex_thread :: thread where
  "ex_thread = \<lparr>tid = 1, status = THREAD_RUNNING, tname = [], stack = 0, priority = 31, pagedir = 0, executable = 0,
     children = [], open_files = [], parent = 0, child_list_elem = 0, stack_pointer = 0, esp = 0, magic = THREAD_MAGIC\<rparr>"

definition ex_vm :: vm where
  "ex_vm = sched.extend (fs.extend ex_fs (sched.fields ((\<lambda>_. None)(0xc0100000 := Some ex_thread)) (\<lambda>_. None)
       (\<lambda>_. \<lparr>svalue = 1, waiters = []\<rparr>) (\<lambda>_. 0) (\<lambda>_. []) [] [0xc0100000] 0xc0100000 0 0xc0100000 2 INTR_ON False False 0 0 0 0
       (\<lambda>_. \<lparr>elem_cnt = 0, bucket_cnt = 4, buckets = replicate 4 []\<rparr>)))
     (vm.fields (\<lambda>_. None) [] 0 0 None [] 0 0)"

lemma ex_vm_simps [simp]:
  "current ex_vm" "running ex_vm = 0xc0100000"
  "SP_table ex_vm t = \<lparr>elem_cnt = 0, bucket_cnt = 4, buckets = replicate 4 []\<rparr>"
  "malloc_ok ex_vm = malloc_ok ex_fs" "malloc_cnt ex_vm = malloc_cnt ex_fs"
  by (simp_all add: ex_vm_def current_def sched.defs fs.defs vm.defs ex_thread_def)

lemma empty_table_wf: "sp.wf_hash \<lparr>elem_cnt = 0, bucket_cnt = 4, buckets = replicate 4 []\<rparr>"
  by (auto simp: sp.wf_hash_def sp.elems_def placed_def intro: exI [of _ 2])

theorem SPT_refines_map_witness:
  "\<exists>a t. create_SPT_entry 0x8048000 False 0 4096 0 False ex_vm = (Inr a, t) \<and> a = Suc (malloc_cnt ex_vm)
     \<and> get_SPT_entry 0x8048000 t = (Inr a, t)"
proof -
  have e: "spt_of ex_vm t = (\<lambda>_. None)" for t by (simp add: table_of_def eval_nat_numeral)
  have "\<exists>a t. create_SPT_entry 0x8048000 False 0 4096 0 False ex_vm = (Inr a, t) \<and> a = Suc (malloc_cnt ex_vm)
     \<and> sp.wf_hash (SP_table t (running t)) \<and> running t = running ex_vm
     \<and> spt_of t (running ex_vm) = (if spt_of ex_vm (running ex_vm) (page_of 0x8048000) = None
          then (spt_of ex_vm (running ex_vm))(page_of 0x8048000 := Some a) else spt_of ex_vm (running ex_vm))
     \<and> (\<forall>u. u \<noteq> running ex_vm \<longrightarrow> SP_table t u = SP_table ex_vm u)
     \<and> get_SPT_entry 0x8048000 t = (Inr (case spt_of ex_vm (running ex_vm) (page_of 0x8048000) of None \<Rightarrow> a | Some b \<Rightarrow> b), t)"
  proof (rule SPT_refines_map)
    show "malloc_ok ex_vm (malloc_cnt ex_vm)" by (simp add: ex_fs_def kern.defs mach.defs)
    show "NULL \<notin> ran (spt_of ex_vm (running ex_vm))" unfolding e by simp
    show "is_user_vaddr 0x8048000" by (simp add: is_user_vaddr_def PHYS_BASE_def)
  qed (simp_all add: empty_table_wf)
  then show ?thesis unfolding e by auto
qed

end
