(* ===== verification/Frame.thy ===== *)
theory Frame
  imports Page
begin

text \<open>
  Physical frames and swap space, from \<^verbatim>\<open>vm/frame.c\<close> and \<^verbatim>\<open>vm/swap.c\<close>, the page fault handler of
  \<^verbatim>\<open>userprog/exception.c\<close>, and \<open>install_page\<close> of \<^verbatim>\<open>userprog/process.c\<close>.

  The kernel reads the user page it swaps out through the page tables of the running thread; a read
  of a page that is not mapped is the fault \<open>NullDeref\<close>. Setting the accessed and dirty bits is an
  action of the hardware and not part of the operations. The search of \<open>evict_page\<close> takes a bound on
  the number of frames it passes.
\<close>

definition paging_sema :: sema_id where "paging_sema = SemaAt 0"

definition SECTORS_PER_PAGE :: nat where "SECTORS_PER_PAGE = PGSIZE div BLOCK_SECTOR_SIZE"

subsection \<open>The frame table\<close>

fun grab_frames :: "nat \<Rightarrow> u32 \<Rightarrow> nat \<Rightarrow> ('a vm_scheme, nat) op" where
  "grab_frames 0 last_ptr cnt = fail OutOfFuel"
| "grab_frames (Suc n) last_ptr cnt =
     bnd (palloc_get_page PAL_USER) (\<lambda>page_ptr.
     if page_ptr = 0 then ret cnt
     else bnd (ensure (page_ptr - last_ptr = of_nat PGSIZE)) (\<lambda>_. grab_frames n page_ptr (cnt + 1)))"

definition alloc_frame_table :: "nat \<Rightarrow> ('a vm_scheme, FrameTableEntry list) op" where
  "alloc_frame_table fuel =
     bnd (palloc_get_page PAL_USER) (\<lambda>first_ptr.
     bnd (grab_frames fuel first_ptr 1) (\<lambda>cnt.
     bnd (modify (\<lambda>s. s\<lparr>max_frame := cnt\<rparr>)) (\<lambda>_.
     bnd kmalloc (\<lambda>a.
     if a = NULL then fail NullDeref
     else ret (map (\<lambda>i. \<lparr>frame_ptr = first_ptr + of_nat (i * PGSIZE), full = False, fvaddr = 0\<rparr>) [0..<cnt])))))"

definition init_frame_table :: "nat \<Rightarrow> ('a vm_scheme, unit) op" where
  "init_frame_table fuel =
     bnd (sema_init paging_sema 0) (\<lambda>_.
     bnd (alloc_frame_table fuel) (\<lambda>ft. modify (\<lambda>s. s\<lparr>frame_table := ft\<rparr>)))"

definition frame_at :: "('a vm_scheme, FrameTableEntry) op" where
  "frame_at = (\<lambda>s. if bump_ptr s < length (frame_table s) then (Inr (frame_table s ! bump_ptr s), s)
                   else (Inl OutOfBounds, s))"

definition upd_frame :: "(FrameTableEntry \<Rightarrow> FrameTableEntry) \<Rightarrow> ('a vm_scheme, unit) op" where
  "upd_frame f = bnd frame_at (\<lambda>e. modify (\<lambda>s. s\<lparr>frame_table := (frame_table s)[bump_ptr s := f e]\<rparr>))"

definition bump :: "('a vm_scheme, unit) op" where
  "bump = modify (\<lambda>s. s\<lparr>bump_ptr := (if bump_ptr s + 1 = max_frame s then 0 else bump_ptr s + 1)\<rparr>)"

subsection \<open>Swap space\<close>

definition init_swap_table :: "('a vm_scheme, unit) op" where
  "init_swap_table =
     bnd (block_get_role BLOCK_SWAP) (\<lambda>b.
     bnd (modify (\<lambda>s. s\<lparr>swap_block := b\<rparr>)) (\<lambda>_.
     case b of None \<Rightarrow> fail NullDeref
     | Some d \<Rightarrow>
         bnd (gets (block_size d)) (\<lambda>sector_count.
         bnd (modify (\<lambda>s. s\<lparr>entries := sector_count div SECTORS_PER_PAGE\<rparr>)) (\<lambda>_.
         bnd kmalloc (\<lambda>a.
         modify (\<lambda>s. s\<lparr>swap_table := (if a = NULL then []
            else replicate (entries s) \<lparr>swap_tid = 0, swap_vaddr = 0\<rparr>)\<rparr>))))))"

definition get_swap_block :: "('a vm_scheme, nat) op" where
  "get_swap_block = (\<lambda>s. case swap_block s of None \<Rightarrow> (Inl NullDeref, s) | Some b \<Rightarrow> (Inr b, s))"

text \<open>\<open>read_user va n\<close> are the \<open>n\<close> bytes at a user address that do not cross a page boundary.\<close>

definition read_user :: "u32 \<Rightarrow> nat \<Rightarrow> ('a sched_scheme, u8 list) op" where
  "read_user va n =
     bnd cur_thread (\<lambda>t.
     bnd (pagedir_get_page (pagedir t) va) (\<lambda>k.
     if k = 0 then fail NullDeref else gets (\<lambda>s. mem_get (mem s) k n)))"

text \<open>The sector \<open>offset * SECTORS_PER_PAGE + i\<close>. The macro is the text \<open>PGSIZE/BLOCK_SECTOR_SIZE\<close>, so the
  expression is \<open>(offset * PGSIZE) / BLOCK_SECTOR_SIZE + i\<close>: a product of C \<open>int\<close>s, a division that
  truncates, and an unsigned sum.\<close>

definition swap_sector :: "int \<Rightarrow> nat \<Rightarrow> nat" where
  "swap_sector offset i =
     (let p = c_int (offset * int PGSIZE)
      in nat ((sgn p * (\<bar>p\<bar> div int BLOCK_SECTOR_SIZE) + int i) mod 2 ^ 32))"

definition add_swap_entry_helper :: "int \<Rightarrow> u32 \<Rightarrow> ('a vm_scheme, unit) op" where
  "add_swap_entry_helper offset va =
     for_op 0 SECTORS_PER_PAGE (\<lambda>i.
       bnd (read_user (va + of_nat (i * BLOCK_SECTOR_SIZE)) BLOCK_SECTOR_SIZE) (\<lambda>buf.
       bnd get_swap_block (\<lambda>b. block_write b (swap_sector offset i) buf)))"

fun add_swap_loop :: "nat \<Rightarrow> nat \<Rightarrow> u32 \<Rightarrow> ('a vm_scheme, int) op" where
  "add_swap_loop 0 i va = ret (- 1)"
| "add_swap_loop (Suc n) i va =
     bnd (gets swap_table) (\<lambda>st.
     if i \<ge> length st then fail OutOfBounds
     else if swap_tid (st ! i) = 0
     then bnd cur_thread (\<lambda>t.
          bnd (modify (\<lambda>s. s\<lparr>swap_table := st[i := \<lparr>swap_tid = tid t, swap_vaddr = va\<rparr>]\<rparr>)) (\<lambda>_.
          bnd (add_swap_entry_helper (int i) va) (\<lambda>_. ret (int i))))
     else add_swap_loop n (i + 1) va)"

definition add_swap_entry :: "u32 \<Rightarrow> ('a vm_scheme, int) op" where
  "add_swap_entry va = bnd (gets entries) (\<lambda>n. add_swap_loop n 0 va)"

definition remove_swap_entry :: "int \<Rightarrow> u32 \<Rightarrow> addr \<Rightarrow> ('a vm_scheme, unit) op" where
  "remove_swap_entry index paddr spte =
     bnd (gets swap_table) (\<lambda>st.
     if index < 0 \<or> nat index \<ge> length st then fail OutOfBounds
     else if swap_tid (st ! nat index) = 0 then exit (- 1)
     else
       bnd (for_op 0 SECTORS_PER_PAGE (\<lambda>i.
              bnd get_swap_block (\<lambda>b.
              bnd (block_read b (swap_sector index i)) (\<lambda>buf.
              modify (\<lambda>s. s\<lparr>mem := mem_put (mem s) (paddr + of_nat (i * BLOCK_SECTOR_SIZE)) buf\<rparr>))))) (\<lambda>_.
       bnd (modify (\<lambda>s. s\<lparr>swap_table := (swap_table s)[nat index := \<lparr>swap_tid = 0, swap_vaddr = 0\<rparr>]\<rparr>)) (\<lambda>_.
       upd_spte spte (\<lambda>e. e\<lparr>swap_index := - 1\<rparr>))))"

text \<open>The sectors of a slot are the eight sectors the layout means as long as the product fits a C \<open>int\<close>; for
  a swap partition of 2 GB or more it does not, and the access leaves the device.\<close>

lemma swap_sector_layout:
  assumes "0 \<le> offset" "offset < 2 ^ 19" "i < SECTORS_PER_PAGE"
  shows "swap_sector offset i = nat offset * SECTORS_PER_PAGE + i"
proof -
  obtain k where k: "offset = int k" using assms(1) nonneg_int_cases by blast
  have p: "c_int (offset * int PGSIZE) = offset * 4096"
    using assms(1,2) by (simp add: PGSIZE_def PGBITS_def)
  have "i < 8" "k < 2 ^ 19" using assms(2,3) by (simp_all add: k SECTORS_PER_PAGE_def PGSIZE_def PGBITS_def BLOCK_SECTOR_SIZE_def)
  then have m: "int (k * 8 + i) mod 2 ^ 32 = int (k * 8 + i)" by (intro mod_pos_pos_trivial) simp_all
  have e: "sgn (offset * 4096) * (\<bar>offset * 4096\<bar> div 512) + int i = int (k * 8 + i)"
    by (cases k) (simp_all add: k sgn_if)
  have b: "int BLOCK_SECTOR_SIZE = 512" "SECTORS_PER_PAGE = 8"
    by (simp_all add: SECTORS_PER_PAGE_def PGSIZE_def PGBITS_def BLOCK_SECTOR_SIZE_def)
  show ?thesis unfolding swap_sector_def Let_def p b e m by (simp add: k)
qed

lemma swap_sector_overflow: "swap_sector (2 ^ 19) 0 = 2 ^ 32 - 2 ^ 22"
  by (simp add: swap_sector_def Let_def c_int_def PGSIZE_def PGBITS_def BLOCK_SECTOR_SIZE_def signed_take_bit_eq_if_negative)

subsection \<open>Eviction\<close>

fun clock :: "nat \<Rightarrow> u32 \<Rightarrow> ('a vm_scheme, unit) op" where
  "clock 0 pd = fail OutOfFuel"
| "clock (Suc n) pd =
     bnd frame_at (\<lambda>f.
     bnd (pagedir_is_accessed pd (fvaddr f)) (\<lambda>a.
     if a then bnd (pagedir_set_accessed pd (fvaddr f) False) (\<lambda>_. bnd bump (\<lambda>_. clock n pd))
     else ret ()))"

definition evict_page :: "nat \<Rightarrow> ('a vm_scheme, u32) op" where
  "evict_page fuel =
     bnd cur_thread (\<lambda>t.
     bnd (clock fuel (pagedir t)) (\<lambda>_.
     bnd (upd_frame (\<lambda>f. f\<lparr>full := False\<rparr>)) (\<lambda>_.
     bnd frame_at (\<lambda>f.
     bnd (get_SPT_entry (fvaddr f)) (\<lambda>spte.
     bnd (upd_spte spte (\<lambda>e. e\<lparr>resident_bit := False\<rparr>)) (\<lambda>_.
     bnd (pagedir_is_dirty (pagedir t) (fvaddr f)) (\<lambda>dirty.
     bnd (get_spte spte) (\<lambda>e.
     bnd (if dirty \<or> is_stack_page e
          then bnd (if dirty then upd_spte spte (\<lambda>e. e\<lparr>dirty_bit := True\<rparr>) else ret ()) (\<lambda>_.
               bnd (add_swap_entry (fvaddr f)) (\<lambda>i.
               bnd (upd_spte spte (\<lambda>e. e\<lparr>swap_index := i\<rparr>)) (\<lambda>_.
               if i = - 1 then exit (- 1) else ret ())))
          else ret ()) (\<lambda>_.
     bnd (pagedir_clear_page (pagedir t) (fvaddr f)) (\<lambda>_.
     bnd frame_at (\<lambda>f. ret (frame_ptr f))))))))))))"

fun find_frame :: "nat \<Rightarrow> nat \<Rightarrow> u32 \<Rightarrow> ('a vm_scheme, u32) op" where
  "find_frame 0 fuel va = evict_page fuel"
| "find_frame (Suc n) fuel va =
     bnd frame_at (\<lambda>f.
     if full f
     then bnd bump (\<lambda>_. find_frame n fuel va)
     else bnd (upd_frame (\<lambda>f. f\<lparr>full := True, fvaddr := va\<rparr>)) (\<lambda>_. ret (frame_ptr f)))"

definition get_user_page :: "nat \<Rightarrow> u32 \<Rightarrow> ('a vm_scheme, u32) op" where
  "get_user_page fuel va = bnd (gets max_frame) (\<lambda>n. find_frame n fuel va)"

definition frameptr_to_frame_num :: "u32 \<Rightarrow> ('a vm_scheme, u32) op" where
  "frameptr_to_frame_num addr =
     (\<lambda>s. case frame_table s of [] \<Rightarrow> (Inl OutOfBounds, s)
        | f # _ \<Rightarrow> (let d = sint (addr - frame_ptr f) in
            (Inr (word_of_int (sgn d * (\<bar>d\<bar> div int PGSIZE))), s)))"

definition frame_num_to_frameptr :: "nat \<Rightarrow> ('a vm_scheme, u32) op" where
  "frame_num_to_frameptr frame_num =
     bnd (gets max_frame) (\<lambda>m.
     bnd (ensure (frame_num \<le> m)) (\<lambda>_.
     (\<lambda>s. case frame_table s of [] \<Rightarrow> (Inl OutOfBounds, s)
        | f # _ \<Rightarrow> (Inr (of_nat (PGSIZE * frame_num) + frame_ptr f), s))))"

subsection \<open>Page faults\<close>

definition install_page :: "u32 \<Rightarrow> u32 \<Rightarrow> bool \<Rightarrow> ('a sched_scheme, bool) op" where
  "install_page upage kpage w =
     bnd cur_thread (\<lambda>t.
     bnd (pagedir_get_page (pagedir t) upage) (\<lambda>k.
     if k = 0 then pagedir_set_page (pagedir t) upage kpage w else ret False))"

definition SEL_KCSEG :: u16 where "SEL_KCSEG = 0x08"
definition SEL_UCSEG :: u16 where "SEL_UCSEG = 0x1B"

definition kill :: "u16 \<Rightarrow> ('a sched_scheme, unit) op" where
  "kill cs = (if cs = SEL_UCSEG then exit (- 1) else if cs = SEL_KCSEG then fail Panic else thread_exit)"

text \<open>\<open>abs\<close> on an \<open>int\<close>, which leaves the smallest integer as it is.\<close>

definition c_abs :: "int \<Rightarrow> int" where
  "c_abs d = (if d = - (2 ^ 31) then d else \<bar>d\<bar>)"

definition grows_stack :: "u32 \<Rightarrow> u32 \<Rightarrow> u32 \<Rightarrow> bool" where
  "grows_stack t_esp f_esp fault_addr \<longleftrightarrow>
     c_abs (sint (f_esp - fault_addr)) \<le> 32 \<or> t_esp > f_esp
     \<or> t_esp = 0 \<and> fault_addr > f_esp \<or> t_esp \<noteq> 0 \<and> t_esp < fault_addr"

definition load_from_file :: "addr \<Rightarrow> SPT_entry \<Rightarrow> u32 \<Rightarrow> ('a vm_scheme, unit) op" where
  "load_from_file exe e kpage =
     bnd (file_seek exe (ofs e)) (\<lambda>_.
     bnd (file_read exe (int (page_read_bytes e))) (\<lambda>bs.
     bnd (modify (\<lambda>s. s\<lparr>mem := mem_put (mem s) kpage bs\<rparr>)) (\<lambda>_.
     modify (\<lambda>s. s\<lparr>mem := mem_fill (mem s) (kpage + of_nat (page_read_bytes e)) 0 (page_zero_bytes e)\<rparr>))))"

definition fault_in :: "nat \<Rightarrow> addr \<Rightarrow> u32 \<Rightarrow> ('a vm_scheme, unit) op" where
  "fault_in fuel spte page_start =
     bnd cur_thread (\<lambda>t.
     bnd (get_user_page fuel page_start) (\<lambda>kpage.
     if kpage = 0 then exit (- 1) else
     bnd (get_spte spte) (\<lambda>e.
     bnd (if \<not> resident_bit e \<and> (dirty_bit e \<or> is_stack_page e)
          then remove_swap_entry (swap_index e) kpage spte
          else load_from_file (executable t) e kpage) (\<lambda>_.
     bnd (get_spte spte) (\<lambda>e.
     bnd (install_page page_start kpage (writable e)) (\<lambda>success.
     if \<not> success then exit (- 1)
     else upd_spte spte (\<lambda>e. e\<lparr>resident_bit := True\<rparr>)))))))"

definition grow_stack :: "nat \<Rightarrow> u32 \<Rightarrow> u32 \<Rightarrow> u32 \<Rightarrow> ('a vm_scheme, unit) op" where
  "grow_stack fuel f_esp fault_addr page_start =
     bnd cur_thread (\<lambda>t.
     if grows_stack (esp t) f_esp fault_addr
     then
       let page_start = (if esp t > f_esp then pg_round_down (esp t) else page_start) in
       bnd (create_SPT_entry page_start True 0 0 0 True) (\<lambda>spte.
       bnd (get_user_page fuel page_start) (\<lambda>kpage.
       bnd (get_spte spte) (\<lambda>e.
       bnd (install_page page_start kpage (writable e)) (\<lambda>success.
       if \<not> success then exit (- 1) else ret ()))))
     else exit (- 1))"

text \<open>The handler gets the address from the control register and the stack pointer of the interrupt
  frame. What the frame says about the kind of access is computed by the handler and not used.\<close>

definition page_fault :: "nat \<Rightarrow> u32 \<Rightarrow> u32 \<Rightarrow> ('a vm_scheme, unit) op" where
  "page_fault fuel fault_addr f_esp =
     bnd intr_enable (\<lambda>_.
     if fault_addr = 0 then exit (- 1) else
     bnd (modify (\<lambda>s. s\<lparr>page_fault_cnt := page_fault_cnt s + 1\<rparr>)) (\<lambda>_.
     bnd thread_current (\<lambda>_.
     let page_start = pg_round_down fault_addr in
     bnd (get_SPT_entry page_start) (\<lambda>spte.
     if spte \<noteq> NULL then fault_in fuel spte page_start
     else grow_stack fuel f_esp fault_addr page_start))))"

text \<open>The kernel address of a user byte that kernel code accesses: an access to a page that is not mapped
  runs the page fault handler first, with the kernel's own interrupt frame (\<open>kesp\<close>).\<close>

definition user_addr :: "nat \<Rightarrow> u32 \<Rightarrow> u32 \<Rightarrow> ('a vm_scheme, u32) op" where
  "user_addr fuel kesp va =
     bnd cur_thread (\<lambda>t.
     if \<not> is_user_vaddr va then ret va else
     bnd (pagedir_get_page (pagedir t) va) (\<lambda>k.
     if k \<noteq> 0 then ret k else
     bnd (page_fault fuel va kesp) (\<lambda>_.
     bnd (pagedir_get_page (pagedir t) va) (\<lambda>k.
     if k = 0 then fail NullDeref else ret k))))"

definition read_user_byte :: "nat \<Rightarrow> u32 \<Rightarrow> u32 \<Rightarrow> ('a vm_scheme, u8) op" where
  "read_user_byte fuel kesp va = bnd (user_addr fuel kesp va) (\<lambda>k. gets (\<lambda>s. mem s k))"

definition write_user_byte :: "nat \<Rightarrow> u32 \<Rightarrow> u32 \<Rightarrow> u8 \<Rightarrow> ('a vm_scheme, unit) op" where
  "write_user_byte fuel kesp va b =
     bnd (user_addr fuel kesp va) (\<lambda>k. modify (\<lambda>s. s\<lparr>mem := (mem s)(k := b)\<rparr>))"

fun read_user_bytes :: "nat \<Rightarrow> u32 \<Rightarrow> u32 \<Rightarrow> nat \<Rightarrow> ('a vm_scheme, u8 list) op" where
  "read_user_bytes fuel kesp va 0 = ret []"
| "read_user_bytes fuel kesp va (Suc n) =
     bnd (read_user_byte fuel kesp va) (\<lambda>b.
     bnd (read_user_bytes fuel kesp (va + 1) n) (\<lambda>bs. ret (b # bs)))"

fun write_user_bytes :: "nat \<Rightarrow> u32 \<Rightarrow> u32 \<Rightarrow> u8 list \<Rightarrow> ('a vm_scheme, unit) op" where
  "write_user_bytes fuel kesp va [] = ret ()"
| "write_user_bytes fuel kesp va (b # bs) =
     bnd (write_user_byte fuel kesp va b) (\<lambda>_. write_user_bytes fuel kesp (va + 1) bs)"

definition read_user_word :: "nat \<Rightarrow> u32 \<Rightarrow> u32 \<Rightarrow> ('a vm_scheme, u32) op" where
  "read_user_word fuel kesp va =
     bnd (read_user_bytes fuel kesp va 4) (\<lambda>bs. ret (bytes_u32 (bs ! 0) (bs ! 1) (bs ! 2) (bs ! 3)))"

fun read_user_string :: "nat \<Rightarrow> nat \<Rightarrow> u32 \<Rightarrow> u32 \<Rightarrow> ('a vm_scheme, u8 list) op" where
  "read_user_string 0 fuel kesp va = fail OutOfFuel"
| "read_user_string (Suc n) fuel kesp va =
     bnd (read_user_byte fuel kesp va) (\<lambda>b.
     if b = 0 then ret [] else bnd (read_user_string n fuel kesp (va + 1)) (\<lambda>bs. ret (b # bs)))"

subsection \<open>What eviction leaves behind\<close>

text \<open>The operations that follow the choice of a frame in \<open>evict_page\<close> do not change the frame table.\<close>

definition same_frames :: "'a vm_scheme \<Rightarrow> 'a vm_scheme \<Rightarrow> bool" where
  "same_frames s t \<longleftrightarrow> frame_table t = frame_table s \<and> bump_ptr t = bump_ptr s \<and> max_frame t = max_frame s"

lemma same_frames_refl [simp]: "same_frames s s"
  by (simp add: same_frames_def)

lemma same_frames_trans: "same_frames s t \<Longrightarrow> same_frames t u \<Longrightarrow> same_frames s u"
  by (simp add: same_frames_def)

definition keeps :: "('a vm_scheme, 'b) op \<Rightarrow> bool" where
  "keeps m \<longleftrightarrow> (\<forall>s x t. m s = (Inr x, t) \<longrightarrow> same_frames s t)"

named_theorems keeps_rules \<open>operations that keep the frame table when they return\<close>

lemma keepsD: "keeps m \<Longrightarrow> m s = (Inr x, t) \<Longrightarrow> same_frames s t"
  by (simp add: keeps_def)

lemma keeps_basic [keeps_rules]:
  "keeps (ret x)" "keeps (fail e)" "keeps (gets f)" "keeps (ensure P)" "keeps (lift_res r)"
  by (auto simp: keeps_def)

lemma keeps_bnd [keeps_rules]: "keeps m \<Longrightarrow> (\<And>x. keeps (f x)) \<Longrightarrow> keeps (bnd m f)"
  unfolding keeps_def by (auto elim!: bnd_InrE) (metis same_frames_trans)

lemma keeps_if [keeps_rules]: "(P \<Longrightarrow> keeps m) \<Longrightarrow> (\<not> P \<Longrightarrow> keeps n) \<Longrightarrow> keeps (if P then m else n)"
  by simp

lemma keeps_modify: "(\<And>s. same_frames s (f s)) \<Longrightarrow> keeps (modify f)"
  by (auto simp: keeps_def)

lemma keeps_case_prod [keeps_rules]: "(\<And>a b. keeps (f a b)) \<Longrightarrow> keeps (case p of (a, b) \<Rightarrow> f a b)"
  by (cases p) simp

lemma keeps_let [keeps_rules]: "keeps (f x) \<Longrightarrow> keeps (Let x f)"
  by simp

lemma keeps_for_op [keeps_rules]: "(\<And>i. keeps (b i)) \<Longrightarrow> keeps (for_op a n b)"
  by (induction n arbitrary: a) (auto intro: keeps_rules)

lemma keeps_exit [keeps_rules]: "keeps (exit st)"
  by (auto simp: keeps_def exit_def elim!: bnd_InrE)

lemma keeps_get_thread [keeps_rules]: "keeps (get_thread t)" "keeps (get_spte a)" "keeps frame_at" "keeps get_swap_block"
  by (auto simp: keeps_def get_thread_def get_spte_def frame_at_def get_swap_block_def split: option.splits if_splits)

lemma keeps_current [keeps_rules]: "keeps thread_current" "keeps cur_thread" "keeps get_curr_hash"
  unfolding thread_current_def cur_thread_def get_curr_hash_def running_thread_def is_thread_def by (intro keeps_rules)+

lemma keeps_get_SPT_entry [keeps_rules]: "keeps (get_SPT_entry va)"
  unfolding get_SPT_entry_def vaddr_to_page_num_def hasher_assert_def by (intro keeps_rules)+

lemma keeps_upd_spte [keeps_rules]: "keeps (upd_spte a f)"
  unfolding upd_spte_def by (intro keeps_rules keeps_modify) (simp add: same_frames_def)

lemma keeps_words [keeps_rules]: "keeps (load_word a)" "keeps (store_word a w)"
  unfolding load_word_def store_word_def by (intro keeps_rules keeps_modify; simp add: same_frames_def)+

lemma keeps_pagedir [keeps_rules]:
  "keeps (lookup_page pd va False)" "keeps (invalidate_pagedir pd)" "keeps (pagedir_get_page pd va)"
  "keeps (pagedir_is_dirty pd va)" "keeps (pagedir_is_accessed pd va)" "keeps (pagedir_set_accessed pd va False)"
  "keeps (pagedir_clear_page pd va)"
proof -
  show l: "keeps (lookup_page pd va False)" for pd va
    unfolding lookup_page_def if_False by (intro keeps_rules)
  show i: "keeps (invalidate_pagedir pd)" for pd
    unfolding invalidate_pagedir_def active_pd_def pagedir_activate_def
    by (intro keeps_rules keeps_modify; simp add: same_frames_def)
  show "keeps (pagedir_get_page pd va)" unfolding pagedir_get_page_def by (intro keeps_rules l)
  show "keeps (pagedir_is_dirty pd va)" "keeps (pagedir_is_accessed pd va)"
    unfolding pagedir_is_dirty_def pagedir_is_accessed_def pte_flag_def by (intro keeps_rules l)+
  show "keeps (pagedir_set_accessed pd va False)"
    unfolding pagedir_set_accessed_def set_pte_flag_def if_False by (intro keeps_rules l i)
  show "keeps (pagedir_clear_page pd va)" unfolding pagedir_clear_page_def by (intro keeps_rules l i)
qed

lemma keeps_block_write_n: "keeps (block_write_n n b sector buf :: ('a vm_scheme, unit) op)"
proof (induction n arbitrary: b sector)
  case (Suc n)
  have u: "keeps (upd_block b f)" for b f
    unfolding upd_block_def by (rule keeps_modify) (simp add: same_frames_def)
  have "keeps ((case k of Drive f \<Rightarrow> upd_block b (\<lambda>k. k\<lparr>ops_aux := Drive (f(sector := buf))\<rparr>)
      | Partition p st \<Rightarrow> partition_write (block_write_n n) p st sector buf) :: ('a vm_scheme, unit) op)" for k
    by (cases k) (auto simp: partition_write_def intro: u Suc.IH)
  then show ?case unfolding block_write_n.simps check_sector_def by (intro keeps_rules u)
qed (simp add: keeps_rules)

lemma keeps_swap [keeps_rules]:
  "keeps (block_write b sector buf)" "keeps (read_user va n)" "keeps (add_swap_entry_helper k va)" "keeps (add_swap_entry va)"
proof -
  show b: "keeps (block_write b sector buf)" for b sector buf
    using keeps_block_write_n unfolding keeps_def block_write_def by blast
  show r: "keeps (read_user va n)" for va n unfolding read_user_def by (intro keeps_rules)
  show h: "keeps (add_swap_entry_helper k va)" for k va
    unfolding add_swap_entry_helper_def by (intro keeps_rules b r)
  have "keeps (add_swap_loop n i va)" for n i
  proof (induction n arbitrary: i)
    case (Suc n)
    show ?case unfolding add_swap_loop.simps
      by (intro keeps_rules h Suc.IH keeps_modify) (simp add: same_frames_def)
  qed (simp add: keeps_rules)
  then show "keeps (add_swap_entry va)" unfolding add_swap_entry_def by (intro keeps_rules)
qed

definition idle_hand :: "'a vm_scheme \<Rightarrow> bool" where
  "idle_hand s \<longleftrightarrow> bump_ptr s < length (frame_table s) \<and> \<not> full (frame_table s ! bump_ptr s)"

definition gives_hand :: "('a vm_scheme, u32) op \<Rightarrow> bool" where
  "gives_hand m \<longleftrightarrow> (\<forall>s f t. m s = (Inr f, t) \<longrightarrow> idle_hand s
     \<longrightarrow> idle_hand t \<and> f = frame_ptr (frame_table t ! bump_ptr t) \<and> max_frame t = max_frame s)"

lemma gives_hand_bnd: "keeps m \<Longrightarrow> (\<And>x. gives_hand (k x)) \<Longrightarrow> gives_hand (bnd m k)"
  unfolding gives_hand_def
  by (auto elim!: bnd_InrE dest!: keepsD simp: same_frames_def idle_hand_def)

lemma gives_hand_last: "gives_hand (bnd frame_at (\<lambda>f. ret (frame_ptr f)))"
  by (auto simp: gives_hand_def frame_at_def idle_hand_def elim!: bnd_InrE)

definition evict_rest :: "thread \<Rightarrow> ('a vm_scheme, u32) op" where
  "evict_rest t =
     bnd frame_at (\<lambda>f.
     bnd (get_SPT_entry (fvaddr f)) (\<lambda>spte.
     bnd (upd_spte spte (\<lambda>e. e\<lparr>resident_bit := False\<rparr>)) (\<lambda>_.
     bnd (pagedir_is_dirty (pagedir t) (fvaddr f)) (\<lambda>dirty.
     bnd (get_spte spte) (\<lambda>e.
     bnd (if dirty \<or> is_stack_page e
          then bnd (if dirty then upd_spte spte (\<lambda>e. e\<lparr>dirty_bit := True\<rparr>) else ret ()) (\<lambda>_.
               bnd (add_swap_entry (fvaddr f)) (\<lambda>i.
               bnd (upd_spte spte (\<lambda>e. e\<lparr>swap_index := i\<rparr>)) (\<lambda>_.
               if i = - 1 then exit (- 1) else ret ())))
          else ret ()) (\<lambda>_.
     bnd (pagedir_clear_page (pagedir t) (fvaddr f)) (\<lambda>_.
     bnd frame_at (\<lambda>f. ret (frame_ptr f)))))))))"

lemma evict_page_eq:
  "evict_page fuel = bnd cur_thread (\<lambda>t. bnd (clock fuel (pagedir t)) (\<lambda>_.
     bnd (upd_frame (\<lambda>f. f\<lparr>full := False\<rparr>)) (\<lambda>_. evict_rest t)))"
  by (simp add: evict_page_def evict_rest_def)

lemma gives_hand_rest: "gives_hand (evict_rest r)"
  unfolding evict_rest_def by (intro gives_hand_bnd gives_hand_last keeps_rules)

lemma clock_max_frame: "clock n pd (s :: 'a vm_scheme) = (Inr (), t) \<Longrightarrow> max_frame t = max_frame s"
proof (induction n arbitrary: s)
  case (Suc n)
  have "max_frame v = max_frame u" if "pagedir_is_accessed pd va u = (Inr a, v)" for va a and u v :: "'a vm_scheme"
    using keepsD [OF keeps_pagedir(5) that] by (simp add: same_frames_def)
  moreover have "max_frame v = max_frame u" if "pagedir_set_accessed pd va False u = (Inr a, v)" for va a and u v :: "'a vm_scheme"
    using keepsD [OF keeps_pagedir(6) that] by (simp add: same_frames_def)
  ultimately show ?case
    using Suc by (fastforce elim!: bnd_InrE simp: frame_at_def bump_def split: if_splits)
qed simp

lemma evict_page_leaves:
  fixes s :: "'a vm_scheme"
  assumes "evict_page fuel s = (Inr f, t)"
  shows "idle_hand t \<and> f = frame_ptr (frame_table t ! bump_ptr t) \<and> max_frame t = max_frame s"
proof -
  obtain r :: thread and u v w rest where "clock fuel (pagedir r) u = (Inr (), v)" and w: "upd_frame (\<lambda>f. f\<lparr>full := False\<rparr>) v = (Inr (), w)"
      and rest: "rest w = (Inr f, t)" "gives_hand rest" and u: "same_frames s u"
  proof -
    obtain r :: thread and u where u: "cur_thread s = (Inr r, u)" and k: "bnd (clock fuel (pagedir r)) (\<lambda>_.
        bnd (upd_frame (\<lambda>f. f\<lparr>full := False\<rparr>)) (\<lambda>_. evict_rest r)) u = (Inr f, t)"
      using assms unfolding evict_page_eq by (rule bnd_InrE)
    from k obtain v where v: "clock fuel (pagedir r) u = (Inr (), v)"
        and k: "bnd (upd_frame (\<lambda>f. f\<lparr>full := False\<rparr>)) (\<lambda>_. evict_rest r) v = (Inr f, t)"
      by (rule bnd_InrE) simp
    from k obtain w where "upd_frame (\<lambda>f. f\<lparr>full := False\<rparr>) v = (Inr (), w)" "evict_rest r w = (Inr f, t)"
      by (rule bnd_InrE) simp
    then show thesis using that [OF v] gives_hand_rest keepsD [OF keeps_current(2) u] by blast
  qed
  have "max_frame v = max_frame s"
    using clock_max_frame [OF \<open>clock fuel (pagedir r) u = (Inr (), v)\<close>] u by (simp add: same_frames_def)
  moreover have "idle_hand w" "max_frame w = max_frame v"
    using w by (auto simp: upd_frame_def frame_at_def idle_hand_def elim!: bnd_InrE split: if_splits)
  ultimately show ?thesis using rest unfolding gives_hand_def by auto
qed

text \<open>C32: The frame that eviction frees is handed out twice. When every frame is in use, a request for a frame
  that returns gets the frame of the evicted page, but the frame table still calls that frame
  empty, and the next request returns the same frame again, for another page.\<close>

theorem evicted_frame_reissued:
  fixes s :: "'a vm_scheme"
  assumes "\<forall>e \<in> set (frame_table s). full e" and "length (frame_table s) = max_frame s" and "bump_ptr s < max_frame s"
    and "get_user_page fuel va s = (Inr f, t)"
  shows "\<exists>u. get_user_page fuel' va' t = (Inr f, u)"
proof -
  have "\<exists>u. evict_page fuel u = (Inr f, t) \<and> max_frame u = max_frame s"
    if "find_frame n fuel va s = (Inr f, t)" "\<forall>e \<in> set (frame_table s). full e"
      "length (frame_table s) = max_frame s" "bump_ptr s < max_frame s" for n and s :: "'a vm_scheme"
    using that
  proof (induction n arbitrary: s)
    case (Suc n)
    let ?s = "s\<lparr>bump_ptr := (if bump_ptr s + 1 = max_frame s then 0 else bump_ptr s + 1)\<rparr>"
    have "full (frame_table s ! bump_ptr s)" using Suc.prems by simp
    then have "find_frame n fuel va ?s = (Inr f, t)" using Suc.prems by (simp add: frame_at_def bump_def bnd_apply)
    then have "\<exists>u. evict_page fuel u = (Inr f, t) \<and> max_frame u = max_frame ?s"
      by (rule Suc.IH) (use Suc.prems in auto)
    then show ?case by simp
  qed auto
  moreover have "find_frame (max_frame s) fuel va s = (Inr f, t)"
    using assms(4) by (simp add: get_user_page_def)
  ultimately obtain u where u: "evict_page fuel u = (Inr f, t)" "max_frame u = max_frame s"
    using assms(1-3) by blast
  have h: "idle_hand t" "f = frame_ptr (frame_table t ! bump_ptr t)" "max_frame t = max_frame s"
    using evict_page_leaves [OF u(1)] u(2) by auto
  obtain n where "max_frame t = Suc n" using h(3) assms(3) gr0_implies_Suc [of "max_frame t"] by auto
  then show ?thesis using h(1,2) by (simp add: get_user_page_def frame_at_def idle_hand_def upd_frame_def bnd_apply)
qed

text \<open>One frame that holds the page of a user address, for a thread whose page directory is empty.\<close>

definition ex_spte :: SPT_entry where
  "ex_spte = \<lparr>is_stack_page = False, vaddr = 0x8048000, page_number = page_of 0x8048000, resident_bit = True, swap_index = 0,
     dirty_bit = False, ofs = 0, page_read_bytes = 0, page_zero_bytes = 4096, writable = True\<rparr>"

definition ex_full :: "spt_elem hash \<Rightarrow> vm" where
  "ex_full h = ex_vm\<lparr>threads := (\<lambda>_. None)(0xc0100000 := Some (ex_thread\<lparr>pagedir := 0xc0101000\<rparr>)),
     SP_table := (\<lambda>_. h), spt := (\<lambda>_. None)(7 := Some ex_spte), max_frame := 1,
     frame_table := [\<lparr>frame_ptr = 0xc0200000, full = True, fvaddr = 0x8048000\<rparr>]\<rparr>"

lemma ex_spte_simp: "is_stack_page ex_spte = False"
  by (simp add: ex_spte_def)

lemma ex_full_simps [simp]:
  "current (ex_full h)" "running (ex_full h) = 0xc0100000" "SP_table (ex_full h) t = h" "bump_ptr (ex_full h) = 0"
  "max_frame (ex_full h) = 1" "frame_table (ex_full h) = [\<lparr>frame_ptr = 0xc0200000, full = True, fvaddr = 0x8048000\<rparr>]"
  "spt (ex_full h) 7 = Some ex_spte" "mem (ex_full h) = (\<lambda>_. 0)"
  "threads (ex_full h) 0xc0100000 = Some (ex_thread\<lparr>pagedir := 0xc0101000\<rparr>)"
  by (simp_all add: ex_full_def current_def ex_thread_def ex_vm_def ex_fs_def ex_mach_def sched.defs fs.defs vm.defs kern.defs mach.defs)

lemma empty_directory: "mem s = (\<lambda>_. 0) \<Longrightarrow> lookup_page 0xc0101000 0x8048000 False s = (Inr 0, s)"
  by (simp add: lookup_page_def load_word_def load32_def bytes_u32_def Let_def pd_no_def PDSHIFT_def PGBITS_def PTBITS_def)

theorem evicted_frame_reissued_witness:
  "\<exists>s t u. (\<forall>e \<in> set (frame_table s). full e) \<and> get_user_page 2 0x8050000 (s::vm) = (Inr 0xc0200000, t)
     \<and> get_user_page 2 0x8060000 t = (Inr 0xc0200000, u)"
proof -
  obtain r h where h: "sp.wf_hash h" "table_of h = (table_of \<lparr>elem_cnt = 0, bucket_cnt = 4, buckets = replicate 4 []\<rparr>)(page_of 0x8048000 := Some 7)"
    by (rule hash_insert_table [OF empty_table_wf, of False 7 "page_of 0x8048000"]) (auto simp: table_of_def)
  have u: "is_user_vaddr 0x8048000" by (simp add: is_user_vaddr_def PHYS_BASE_def)
  let ?s = "ex_full h"
  let ?c = "?s\<lparr>frame_table := [\<lparr>frame_ptr = 0xc0200000, full = False, fvaddr = 0x8048000\<rparr>]\<rparr>"
  have l: "lookup_page 0xc0101000 0x8048000 False (?s\<lparr>frame_table := ft, spt := e\<rparr>)
      = (Inr 0, ?s\<lparr>frame_table := ft, spt := e\<rparr>)" "lookup_page 0xc0101000 0x8048000 False ?s = (Inr 0, ?s)" for ft e
    by (rule empty_directory, simp)+
  have c: "current ?c" using ex_full_simps(1) [of h] by (simp add: current_def)
  have g: "get_SPT_entry 0x8048000 ?c = (Inr 7, ?c)"
    using get_SPT_entry_ok [OF c _ u] h by simp
  have k: "clock 2 0xc0101000 ?s = (Inr (), ?s)"
    by (simp add: eval_nat_numeral frame_at_def pagedir_is_accessed_def pte_flag_def l bnd_assoc)
  have b: "bump ?s = (Inr (), ?s)" by (simp add: bump_def)
  have up: "upd_frame (\<lambda>f. f\<lparr>full := False\<rparr>) ?s = (Inr (), ?c)" by (simp add: upd_frame_def frame_at_def bnd_assoc)
  let ?e = "(spt ?s)(7 := Some (ex_spte\<lparr>resident_bit := False\<rparr>))"
  have sp: "upd_spte 7 (\<lambda>e. e\<lparr>resident_bit := False\<rparr>) ?c = (Inr (), ?c\<lparr>spt := ?e\<rparr>)"
    by (simp add: upd_spte_def get_spte_def)
  have "pagedir_is_dirty 0xc0101000 0x8048000 (?c\<lparr>spt := ?e\<rparr>) = (Inr False, ?c\<lparr>spt := ?e\<rparr>)"
    using l(1) [of ?e] by (simp add: pagedir_is_dirty_def pte_flag_def)
  moreover have "pagedir_clear_page 0xc0101000 0x8048000 (?c\<lparr>spt := ?e\<rparr>) = (Inr (), ?c\<lparr>spt := ?e\<rparr>)"
    using l(1) [of ?e] u by (simp add: pagedir_clear_page_def pg_ofs_def PGMASK_def BITMASK_def PGBITS_def)
  ultimately have "evict_rest (ex_thread\<lparr>pagedir := 0xc0101000\<rparr>) ?c = (Inr 0xc0200000, ?c\<lparr>spt := ?e\<rparr>)"
    unfolding evict_rest_def by (simp add: frame_at_def g sp get_spte_def ex_spte_simp bnd_apply)
  then have "evict_page 2 ?s = (Inr 0xc0200000, ?c\<lparr>spt := ?e\<rparr>)"
    unfolding evict_page_eq using cur_thread_ok [OF ex_full_simps(1) [of h]] k up by simp
  then have "\<exists>t. get_user_page 2 0x8050000 ?s = (Inr 0xc0200000, t)"
    by (simp add: get_user_page_def frame_at_def b)
  then obtain t where t: "get_user_page 2 0x8050000 ?s = (Inr 0xc0200000, t)" by blast
  have "\<exists>u. get_user_page 2 0x8060000 t = (Inr 0xc0200000, u)"
    by (rule evicted_frame_reissued [OF _ _ _ t]) simp_all
  then obtain u where "get_user_page 2 0x8060000 t = (Inr 0xc0200000, u)" by blast
  with t show ?thesis by (intro exI [of _ ?s] exI [of _ t] exI [of _ u]) simp
qed

end
